(* ===== verification/Prelude.thy ===== *)
theory Prelude
  imports Main "HOL-Library.Multiset"
begin

text \<open>
  What every theory of the development shares: runs and reachable states of a partial step
  function, the rule that lifts a step-wise invariant to all reachable states, and the facts
  about lists updated at one index and sums over thread numbers that the counting arguments
  use.
\<close>

named_theorems upd_simps \<open>facts about lists updated at one index\<close>

subsection \<open>Runs and reachable states\<close>

text \<open>
  A system is a step function \<open>'c \<Rightarrow> 'e \<Rightarrow> 'c option\<close>: \<open>None\<close> says that the event is not
  enabled in the state.
\<close>

fun run :: "('c \<Rightarrow> 'e \<Rightarrow> 'c option) \<Rightarrow> 'c \<Rightarrow> 'e list \<Rightarrow> 'c option" where
  "run stp c [] = Some c"
| "run stp c (e # es) = (case stp c e of None \<Rightarrow> None | Some c' \<Rightarrow> run stp c' es)"

inductive reach :: "('c \<Rightarrow> 'e \<Rightarrow> 'c option) \<Rightarrow> 'c \<Rightarrow> 'c \<Rightarrow> bool" for stp c0 where
  reach_refl: "reach stp c0 c0"
| reach_step: "reach stp c0 c \<Longrightarrow> stp c e = Some c' \<Longrightarrow> reach stp c0 c'"

lemma reach_trans: "reach stp a b \<Longrightarrow> reach stp b c \<Longrightarrow> reach stp a c"
  by (rotate_tac, induction rule: reach.induct) (auto intro: reach.intros)

lemma run_reach: "run stp c es = Some c' \<Longrightarrow> reach stp c c'"
proof (induction es arbitrary: c)
  case (Cons e es)
  then obtain d where d: "stp c e = Some d" "run stp d es = Some c'"
    by (auto split: option.splits)
  then have "reach stp c d" "reach stp d c'"
    using Cons.IH by (auto intro: reach_step [OF reach_refl])
  then show ?case by (rule reach_trans)
qed (simp add: reach_refl)

lemma run_append: "run stp c (es @ fs) = (case run stp c es of None \<Rightarrow> None | Some d \<Rightarrow> run stp d fs)"
  by (induction es arbitrary: c) (auto split: option.splits)

lemma run_the_reach: "run stp c es \<noteq> None \<Longrightarrow> reach stp c (the (run stp c es))"
  by (auto intro: run_reach)

lemma reach_run: "reach stp c0 c \<Longrightarrow> \<exists>es. run stp c0 es = Some c"
proof (induction rule: reach.induct)
  case reach_refl
  show ?case by (rule exI [where x = "[]"]) simp
next
  case (reach_step c e c')
  then obtain es where "run stp c0 es = Some c" by blast
  with reach_step(2) show ?case by (intro exI [where x = "es @ [e]"]) (simp add: run_append)
qed

text \<open>The invariant rule, as a contract: what holds at the start and survives a step.\<close>

locale step_invariant =
  fixes stp :: "'c \<Rightarrow> 'e \<Rightarrow> 'c option" and c0 :: 'c and I :: "'c \<Rightarrow> bool"
  assumes inv_init: "I c0"
    and inv_step: "I c \<Longrightarrow> stp c e = Some c' \<Longrightarrow> I c'"
begin

lemma inv_reach: "reach stp c0 c \<Longrightarrow> I c"
  by (induction rule: reach.induct) (auto intro: inv_init inv_step)

end

lemma reach_induct_inv:
  "reach stp c0 c \<Longrightarrow> I c0 \<Longrightarrow> (\<And>c e c'. I c \<Longrightarrow> stp c e = Some c' \<Longrightarrow> I c') \<Longrightarrow> I c"
  by (induction rule: reach.induct) auto

subsection \<open>Lists updated at one index\<close>

lemma nth_upd [upd_simps]: "i < length xs \<Longrightarrow> (xs[i := x]) ! j = (if i = j then x else xs ! j)"
  by (simp add: nth_list_update)

lemma mset_map_upd:
  "i < length xs \<Longrightarrow> mset (map f (xs[i := x])) + {#f (xs ! i)#} = mset (map f xs) + {#f x#}"
  by (induction xs arbitrary: i) (auto split: nat.splits)

lemma sum_list_map_upd:
  "i < length xs \<Longrightarrow> sum_list (map f (xs[i := x])) + f (xs ! i) = sum_list (map f xs) + (f x :: 'b :: comm_monoid_add)"
  by (induction xs arbitrary: i) (auto split: nat.splits simp: ac_simps)

lemma set_updD: "x \<in> set (xs[i := y]) \<Longrightarrow> x = y \<or> x \<in> set xs"
  using set_update_subset_insert by fastforce

lemma all_set_upd [upd_simps]:
  "i < length xs \<Longrightarrow> (\<forall>x\<in>set (xs[i := y]). P x) \<longleftrightarrow> P y \<and> (\<forall>j<length xs. j \<noteq> i \<longrightarrow> P (xs ! j))"
  unfolding all_set_conv_all_nth length_list_update by (metis nth_list_update_eq nth_list_update_neq)

lemma set_updI: "x \<in> set xs \<Longrightarrow> x \<noteq> xs ! i \<Longrightarrow> x \<in> set (xs[i := y])"
  by (metis in_set_conv_nth length_list_update nth_list_update_neq)

lemma map_upd_same: "f x = f (xs ! i) \<Longrightarrow> map f (xs[i := x]) = map f xs"
  by (metis list_update_id map_update)

lemma sum_list_replicate_nat: "sum_list (replicate n (x::nat)) = n * x"
  by (induction n) auto

lemma sum_list_map_zero: "(\<And>x. x \<in> set xs \<Longrightarrow> f x = (0 :: 'b :: comm_monoid_add)) \<Longrightarrow> sum_list (map f xs) = 0"
  by (induction xs) auto

lemma size_sum_list_mset: "size (sum_list ms :: 'a multiset) = sum_list (map size ms)"
  by (induction ms) auto

lemma sum_list_subset_mset:
  "(\<And>x. x \<in> set xs \<Longrightarrow> f x \<subseteq># g (h x)) \<Longrightarrow> sum_list (map f xs) \<subseteq># sum_list (map g (map h xs))"
  by (induction xs) (auto intro: subset_mset.add_mono)

lemma sum_list_pos: "x \<in> set xs \<Longrightarrow> 0 < f x \<Longrightarrow> 0 < sum_list (map f xs :: nat list)"
  by (induction xs) auto

lemma member_le_sum_list_nat: "i < length xs \<Longrightarrow> f (xs ! i) \<le> sum_list (map f xs :: nat list)"
  by (induction xs arbitrary: i) (auto simp: nth_Cons split: nat.splits intro: trans_le_add2)

text \<open>When the weights of a list add up to one, only one entry has weight.\<close>

lemma sum_list_one:
  assumes "sum_list (map f xs) \<le> (1 :: nat)" "i < length xs" "j < length xs" "j \<noteq> i" "f (xs ! i) = 1"
  shows "f (xs ! j) = 0"
proof -
  have "f (xs ! j) + f (xs ! i) \<le> sum_list (map f xs)"
    using assms(2-4)
  proof (induction xs arbitrary: i j)
    case (Cons x xs)
    then show ?case
      using member_le_sum_list_nat [of "i - 1" xs f] member_le_sum_list_nat [of "j - 1" xs f]
      by (cases i; cases j) (auto intro: trans_le_add2)
  qed simp
  then show ?thesis using assms(1,5) by simp
qed

text \<open>The total of a list, split at the index that is about to change.\<close>

lemma sum_list_split:
  assumes "i < length xs"
  obtains R where "sum_list (map f xs) = R + (f (xs ! i) :: 'b :: comm_monoid_add)"
    "\<And>x. sum_list (map f (xs[i := x])) = R + f x"
proof
  let ?R = "sum_list (map f (take i xs)) + sum_list (map f (drop (Suc i) xs))"
  have "xs = take i xs @ xs ! i # drop (Suc i) xs" using assms by (rule id_take_nth_drop)
  then have "sum_list (map f xs) = sum_list (map f (take i xs @ xs ! i # drop (Suc i) xs))" by simp
  then show "sum_list (map f xs) = ?R + f (xs ! i)" by (simp add: ac_simps)
  show "sum_list (map f (xs[i := x])) = ?R + f x" for x
    using assms by (simp add: upd_conv_take_nth_drop ac_simps)
qed

lemma sum_list_le_eqD:
  fixes f g :: "'a \<Rightarrow> nat"
  assumes "sum_list (map f xs) = sum_list (map g xs)" "\<And>x. x \<in> set xs \<Longrightarrow> f x \<le> g x" "x \<in> set xs"
  shows "f x = g x"
proof -
  have "sum_list (map f ys) \<le> sum_list (map g ys)" if "set ys \<subseteq> set xs" for ys
    using assms(2) that by (intro sum_list_mono) auto
  moreover obtain ys zs where xs: "xs = ys @ x # zs" using split_list [OF assms(3)] by blast
  ultimately have "sum_list (map f ys) \<le> sum_list (map g ys)" "sum_list (map f zs) \<le> sum_list (map g zs)"
    by auto
  then show ?thesis using assms(1,2,3) xs by (fastforce intro: antisym)
qed

subsection \<open>Sums over thread numbers\<close>

text \<open>
  When only thread \<open>i\<close> can lose weight, the total changes by at least what thread \<open>i\<close> changes:
  the arithmetic behind every counting argument about wake-ups.
\<close>

lemma sum_less_upd:
  fixes f g :: "nat \<Rightarrow> nat"
  assumes "i < n" and "\<And>j. j < n \<Longrightarrow> j \<noteq> i \<Longrightarrow> f j \<le> g j"
  shows "(\<Sum>j<n. f j) + g i \<le> (\<Sum>j<n. g j) + f i"
proof -
  have "(\<Sum>j<n. f j) = f i + (\<Sum>j\<in>{..<n} - {i}. f j)" "(\<Sum>j<n. g j) = g i + (\<Sum>j\<in>{..<n} - {i}. g j)"
    using assms(1) by (auto intro: sum.remove)
  moreover have "(\<Sum>j\<in>{..<n} - {i}. f j) \<le> (\<Sum>j\<in>{..<n} - {i}. g j)"
    using assms(2) by (intro sum_mono) auto
  ultimately show ?thesis by simp
qed

lemma sum_less_upd2:
  fixes f g :: "nat \<Rightarrow> nat"
  assumes "i < n" "k < n" "i \<noteq> k" and "\<And>j. j < n \<Longrightarrow> j \<noteq> i \<Longrightarrow> f j \<le> g j" and "Suc (f k) \<le> g k"
  shows "Suc (\<Sum>j<n. f j) + g i \<le> (\<Sum>j<n. g j) + f i"
proof -
  let ?f = "f(k := Suc (f k))"
  have "(\<Sum>j<n. ?f j) + g i \<le> (\<Sum>j<n. g j) + ?f i"
    using assms by (intro sum_less_upd) auto
  moreover have "(\<Sum>j<n. ?f j) = Suc (\<Sum>j<n. f j)"
  proof -
    have "(\<Sum>j<n. h j) = h k + (\<Sum>j\<in>{..<n} - {k}. h j)" for h :: "nat \<Rightarrow> nat"
      using assms(2) by (intro sum.remove) auto
    note split = this [of ?f] this [of f]
    moreover have "(\<Sum>j\<in>{..<n} - {k}. ?f j) = (\<Sum>j\<in>{..<n} - {k}. f j)"
      by (rule sum.cong) auto
    ultimately show ?thesis by (simp only: fun_upd_same add_Suc)
  qed
  ultimately show ?thesis using assms(3) by simp
qed

text \<open>A sum over a function updated at one thread.\<close>

lemma sum_fun_upd:
  fixes g :: "'a \<Rightarrow> 'b :: comm_monoid_add"
  assumes "i < (n :: nat)"
  shows "(\<Sum>j<n. g ((f(i := x)) j)) + g (f i) = (\<Sum>j<n. g (f j)) + g x"
proof -
  have "(\<Sum>j<n. h j) = h i + (\<Sum>j\<in>{..<n} - {i}. h j)" for h :: "nat \<Rightarrow> 'b"
    using assms by (intro sum.remove) auto
  note split = this [of "\<lambda>j. g ((f(i := x)) j)"] this [of "\<lambda>j. g (f j)"]
  have "(\<Sum>j\<in>{..<n} - {i}. g ((f(i := x)) j)) = (\<Sum>j\<in>{..<n} - {i}. g (f j))" by (rule sum.cong) auto
  then show ?thesis using split by (simp add: ac_simps)
qed

end
