(* ===== verification/Threads.thy ===== *)
theory Threads
  imports Prelude "HOL-Library.Extended_Nat"
begin

text \<open>
  The machine all threaded programs of the repository run on: numbered threads, mutexes and
  condition variables as the C++ standard and POSIX describe them
  (\<open>std::mutex\<close>, \<open>std::unique_lock\<close>, \<open>std::condition_variable\<close>, \<open>pthread_mutex_t\<close>,
  \<open>pthread_cond_t\<close>). A program gives, for a thread at a program point, the statement it
  executes there. The theory proves, once for every program: mutual exclusion, that critical
  sections behave as atomic steps (the machine refines one without mutexes and condition
  variables), what a state in which nothing can move looks like, and a criterion under which
  \<open>notify_one\<close> loses no wake-up.
\<close>

subsection \<open>Statements\<close>

text \<open>A notification, on the condition variable with the given number.\<close>

datatype notify = NotifyOne nat | NotifyAll nat

text \<open>
  \<^item> \<open>Fin\<close>: the thread function has returned.
  \<^item> \<open>Act f\<close>: one atomic step outside any modelled mutex (an atomic read-modify-write, a
    blocking library call, a local computation). \<open>f\<close> lists the possible outcomes; the empty
    list says that the thread is blocked.
  \<^item> \<open>Monitor m w b\<close>: lock mutex \<open>m\<close>; if \<open>w = Some (c, p)\<close>, wait on condition variable
    \<open>c\<close> until the predicate \<open>p\<close> holds (\<open>cv.wait(g, p)\<close>, or the \<open>while (!p) wait\<close> loop);
    then run \<open>b\<close>, which gives the new shared state, the next program point, the notifications
    sent before and those sent after the mutex is unlocked.
\<close>

datatype ('s, 'l) stmt =
    Fin
  | Act "'s \<Rightarrow> ('s \<times> 'l) list"
  | Monitor nat "(nat \<times> ('s \<Rightarrow> bool)) option" "'s \<Rightarrow> 's \<times> 'l \<times> notify list \<times> notify list"

type_synonym ('s, 'l) prog = "nat \<Rightarrow> 'l \<Rightarrow> ('s, 'l) stmt"

subsection \<open>Threads and their steps\<close>

text \<open>
  Where a thread is: about to execute the statement at \<open>l\<close>; inside the mutex of that
  statement, about to test the predicate; asleep on its condition variable; done with the
  body (next point \<open>l\<close>), still holding mutex \<open>m\<close>, with notifications to send before and
  after the unlock; or past the unlock with notifications to send.
\<close>

datatype 'l phase =
    At 'l
  | In 'l
  | Asleep 'l
  | Out 'l nat "notify list" "notify list"
  | Post 'l "notify list"

record ('s, 'l) cfg =
  shared :: 's
  owner :: "nat \<Rightarrow> nat option"
  sleepers :: "nat \<Rightarrow> nat list"
  thr :: "'l phase list"

text \<open>
  What the scheduler and the library choose in a step: \<open>Norm k\<close> resolves the choice of a step
  (the outcome of an \<open>Act\<close>, the thread that \<open>notify_one\<close> wakes); \<open>Spur\<close> is a spurious
  wake-up.
\<close>

datatype choice = Norm nat | Spur

fun wake :: "notify \<Rightarrow> nat \<Rightarrow> (nat \<Rightarrow> nat list) \<Rightarrow> nat \<Rightarrow> nat list" where
  "wake (NotifyOne c) k sl = sl(c := (if sl c = [] then [] else remove1 (sl c ! (k mod length (sl c))) (sl c)))"
| "wake (NotifyAll c) k sl = sl(c := [])"

definition set_thr :: "nat \<Rightarrow> 'l phase \<Rightarrow> ('s, 'l) cfg \<Rightarrow> ('s, 'l) cfg" where
  "set_thr i p c = c\<lparr>thr := (thr c)[i := p]\<rparr>"

definition leave :: "'l \<Rightarrow> notify list \<Rightarrow> 'l phase" where
  "leave l ns = (if ns = [] then At l else Post l ns)"

definition step_at :: "('s, 'l) prog \<Rightarrow> ('s, 'l) cfg \<Rightarrow> nat \<Rightarrow> nat \<Rightarrow> 'l \<Rightarrow> ('s, 'l) cfg option" where
  "step_at P c i k l = (case P i l of
       Fin \<Rightarrow> None
     | Act f \<Rightarrow> (let os = f (shared c) in
         if k < length os then (case os ! k of (s', l') \<Rightarrow> Some (set_thr i (At l') (c\<lparr>shared := s'\<rparr>))) else None)
     | Monitor m w b \<Rightarrow>
         if owner c m = None then Some (set_thr i (In l) (c\<lparr>owner := (owner c)(m := Some i)\<rparr>)) else None)"

definition step_in :: "('s, 'l) prog \<Rightarrow> ('s, 'l) cfg \<Rightarrow> nat \<Rightarrow> 'l \<Rightarrow> ('s, 'l) cfg option" where
  "step_in P c i l = (case P i l of
       Monitor m w b \<Rightarrow>
         (let enter = (case b (shared c) of (s', l', pre, post) \<Rightarrow>
             Some (set_thr i (Out l' m pre post) (c\<lparr>shared := s'\<rparr>)))
          in case w of
              None \<Rightarrow> enter
            | Some (v, p) \<Rightarrow>
                if p (shared c) then enter
                else Some (set_thr i (Asleep l) (c\<lparr>owner := (owner c)(m := None),
                       sleepers := (sleepers c)(v := sleepers c v @ [i])\<rparr>)))
     | _ \<Rightarrow> None)"

definition step_asleep :: "('s, 'l) prog \<Rightarrow> ('s, 'l) cfg \<Rightarrow> nat \<Rightarrow> choice \<Rightarrow> 'l \<Rightarrow> ('s, 'l) cfg option" where
  "step_asleep P c i ch l = (case P i l of
       Monitor m (Some (v, p)) b \<Rightarrow>
         (if i \<notin> set (sleepers c v) then (if ch = Spur then None else Some (set_thr i (At l) c))
          else if ch = Spur then
            Some (set_thr i (At l) (c\<lparr>sleepers := (sleepers c)(v := removeAll i (sleepers c v))\<rparr>))
          else None)
     | _ \<Rightarrow> None)"

fun step_phase :: "('s, 'l) prog \<Rightarrow> ('s, 'l) cfg \<Rightarrow> nat \<Rightarrow> choice \<Rightarrow> 'l phase \<Rightarrow> ('s, 'l) cfg option" where
  "step_phase P c i (Norm k) (At l) = step_at P c i k l"
| "step_phase P c i (Norm k) (In l) = step_in P c i l"
| "step_phase P c i ch (Asleep l) = step_asleep P c i ch l"
| "step_phase P c i (Norm k) (Out l m (n # pre) post) =
     Some (set_thr i (Out l m pre post) (c\<lparr>sleepers := wake n k (sleepers c)\<rparr>))"
| "step_phase P c i (Norm k) (Out l m [] post) =
     Some (set_thr i (leave l post) (c\<lparr>owner := (owner c)(m := None)\<rparr>))"
| "step_phase P c i (Norm k) (Post l (n # ns)) =
     Some (set_thr i (leave l ns) (c\<lparr>sleepers := wake n k (sleepers c)\<rparr>))"
| "step_phase P c i (Norm k) (Post l []) = Some (set_thr i (At l) c)"
| "step_phase P c i Spur _ = None"

definition step :: "('s, 'l) prog \<Rightarrow> ('s, 'l) cfg \<Rightarrow> nat \<times> choice \<Rightarrow> ('s, 'l) cfg option" where
  "step P c e = (if fst e < length (thr c) then step_phase P c (fst e) (snd e) (thr c ! fst e) else None)"

text \<open>All threads at their first statement, every mutex free, nobody asleep.\<close>

definition start :: "'s \<Rightarrow> 'l list \<Rightarrow> ('s, 'l) cfg" where
  "start s ls = \<lparr>shared = s, owner = (\<lambda>_. None), sleepers = (\<lambda>_. []), thr = map At ls\<rparr>"

text \<open>Nothing can move, unless by a spurious wake-up.\<close>

definition stuck :: "('s, 'l) prog \<Rightarrow> ('s, 'l) cfg \<Rightarrow> bool" where
  "stuck P c \<longleftrightarrow> (\<forall>i k. step P c (i, Norm k) = None)"

text \<open>The program point of a thread; while it waits, the point of the statement it waits in.\<close>

fun loc :: "'l phase \<Rightarrow> 'l" where
  "loc (At l) = l"
| "loc (In l) = l"
| "loc (Asleep l) = l"
| "loc (Out l m pre post) = l"
| "loc (Post l ns) = l"

definition locs :: "('s, 'l) cfg \<Rightarrow> 'l list" where
  "locs c = map loc (thr c)"

lemma length_locs [simp]: "length (locs c) = length (thr c)"
  by (simp add: locs_def)

lemma nth_locs [simp]: "i < length (thr c) \<Longrightarrow> locs c ! i = loc (thr c ! i)"
  by (simp add: locs_def)

definition all_fin :: "('s, 'l) prog \<Rightarrow> ('s, 'l) cfg \<Rightarrow> bool" where
  "all_fin P c \<longleftrightarrow> (\<forall>i<length (thr c). \<exists>l. thr c ! i = At l \<and> P i l = Fin)"

subsection \<open>Case analysis of a step\<close>

definition mtx_of :: "('s, 'l) stmt \<Rightarrow> nat option" where
  "mtx_of st = (case st of Monitor m w b \<Rightarrow> Some m | _ \<Rightarrow> None)"

definition cv_of :: "('s, 'l) stmt \<Rightarrow> nat option" where
  "cv_of st = (case st of Monitor m (Some (v, p)) b \<Rightarrow> Some v | _ \<Rightarrow> None)"

lemma mtx_of_Some: "mtx_of st = Some m \<longleftrightarrow> (\<exists>w b. st = Monitor m w b)"
  by (auto simp: mtx_of_def split: stmt.splits)

lemma cv_of_Some: "cv_of st = Some v \<longleftrightarrow> (\<exists>m p b. st = Monitor m (Some (v, p)) b)"
  by (auto simp: cv_of_def split: stmt.splits option.splits)

lemma of_stmt [simp]:
  "mtx_of (Monitor m w b) = Some m" "cv_of (Monitor m w b) = map_option fst w"
  "mtx_of (Act f) = None" "cv_of (Act f) = None" "mtx_of Fin = None" "cv_of Fin = None"
  by (auto simp: mtx_of_def cv_of_def split: option.splits)

lemma set_thr_sel [simp]:
  "shared (set_thr i p c) = shared c" "owner (set_thr i p c) = owner c"
  "sleepers (set_thr i p c) = sleepers c" "thr (set_thr i p c) = (thr c)[i := p]"
  by (simp_all add: set_thr_def)

lemma loc_leave [simp]: "loc (leave l ns) = l"
  by (simp add: leave_def)

text \<open>The nine kinds of steps, with what each one changes.\<close>

lemma step_cases [consumes 1, case_names act acquire body doze woken spurious notify_in unlock notify_out]:
  assumes "step P c (i, ch) = Some c'"
  obtains
    (act) k l f s' l' where "i < length (thr c)" "thr c ! i = At l" "P i l = Act f" "k < length (f (shared c))"
      "f (shared c) ! k = (s', l')" "c' = set_thr i (At l') (c\<lparr>shared := s'\<rparr>)" "ch = Norm k"
  | (acquire) l m w b where "i < length (thr c)" "thr c ! i = At l" "P i l = Monitor m w b" "owner c m = None"
      "c' = set_thr i (In l) (c\<lparr>owner := (owner c)(m := Some i)\<rparr>)"
  | (body) l m w b s' l' pre post where "i < length (thr c)" "thr c ! i = In l" "P i l = Monitor m w b"
      "\<And>v p. w = Some (v, p) \<Longrightarrow> p (shared c)"
      "b (shared c) = (s', l', pre, post)" "c' = set_thr i (Out l' m pre post) (c\<lparr>shared := s'\<rparr>)"
  | (doze) l m v p b where "i < length (thr c)" "thr c ! i = In l" "P i l = Monitor m (Some (v, p)) b"
      "\<not> p (shared c)" "c' = set_thr i (Asleep l) (c\<lparr>owner := (owner c)(m := None),
         sleepers := (sleepers c)(v := sleepers c v @ [i])\<rparr>)"
  | (woken) l m v p b where "i < length (thr c)" "thr c ! i = Asleep l" "P i l = Monitor m (Some (v, p)) b"
      "i \<notin> set (sleepers c v)" "c' = set_thr i (At l) c"
  | (spurious) l m v p b where "i < length (thr c)" "thr c ! i = Asleep l" "P i l = Monitor m (Some (v, p)) b"
      "i \<in> set (sleepers c v)" "ch = Spur"
      "c' = set_thr i (At l) (c\<lparr>sleepers := (sleepers c)(v := removeAll i (sleepers c v))\<rparr>)"
  | (notify_in) k l m n pre post where "i < length (thr c)" "thr c ! i = Out l m (n # pre) post"
      "c' = set_thr i (Out l m pre post) (c\<lparr>sleepers := wake n k (sleepers c)\<rparr>)"
  | (unlock) l m post where "i < length (thr c)" "thr c ! i = Out l m [] post"
      "c' = set_thr i (leave l post) (c\<lparr>owner := (owner c)(m := None)\<rparr>)"
  | (notify_out) k l ns ms where "i < length (thr c)" "thr c ! i = Post l ns" "ms = tl ns"
      "c' = set_thr i (leave l ms) (c\<lparr>sleepers := (case ns of [] \<Rightarrow> sleepers c | n # _ \<Rightarrow> wake n k (sleepers c))\<rparr>)"
proof -
  from assms have i: "i < length (thr c)" and st: "step_phase P c i ch (thr c ! i) = Some c'"
    by (auto simp: step_def split: if_splits)
  show thesis
  proof (cases "thr c ! i")
    case (At l)
    with st i show thesis
      by (cases ch) (auto simp: step_at_def Let_def split: stmt.splits if_splits prod.splits intro: act acquire)
  next
    case (In l)
    with st i show thesis
      by (cases ch) (auto simp: step_in_def Let_def split: stmt.splits option.splits if_splits prod.splits
          intro: body doze)
  next
    case (Asleep l)
    with st i show thesis
      by (cases ch) (auto simp: step_asleep_def split: stmt.splits option.splits if_splits prod.splits
          intro: woken spurious)
  next
    case (Out l m pre post)
    with st i show thesis
      by (cases ch; cases pre) (auto intro: notify_in unlock)
  next
    case (Post l ns)
    with st i show thesis
      by (cases ch; cases ns) (auto intro: notify_out [where ns = "[]"] notify_out [where ns = "n # ms" for n ms]
          simp: leave_def)
  qed
qed

subsection \<open>Mutual exclusion and the book-keeping of waiting threads\<close>

fun held :: "('s, 'l) prog \<Rightarrow> nat \<Rightarrow> 'l phase \<Rightarrow> nat option" where
  "held P i (In l) = mtx_of (P i l)"
| "held P i (Out l m pre post) = Some m"
| "held P i _ = None"

text \<open>A mutex is owned by exactly the thread that is inside it.\<close>

definition mutex_ok :: "('s, 'l) prog \<Rightarrow> ('s, 'l) cfg \<Rightarrow> bool" where
  "mutex_ok P c \<longleftrightarrow> (\<forall>m i. owner c m = Some i \<longleftrightarrow> i < length (thr c) \<and> held P i (thr c ! i) = Some m)"

definition points_ok :: "('s, 'l) prog \<Rightarrow> ('s, 'l) cfg \<Rightarrow> bool" where
  "points_ok P c \<longleftrightarrow> (\<forall>i<length (thr c). \<forall>l. (thr c ! i = In l \<longrightarrow> mtx_of (P i l) \<noteq> None)
     \<and> (thr c ! i = Asleep l \<longrightarrow> cv_of (P i l) \<noteq> None))"

text \<open>A sleeper of a condition variable is a thread asleep in a statement that waits on it.\<close>

definition sleep_ok :: "('s, 'l) prog \<Rightarrow> ('s, 'l) cfg \<Rightarrow> bool" where
  "sleep_ok P c \<longleftrightarrow> (\<forall>v. distinct (sleepers c v)) \<and>
     (\<forall>v i. i \<in> set (sleepers c v) \<longrightarrow> i < length (thr c) \<and> (\<exists>l. thr c ! i = Asleep l \<and> cv_of (P i l) = Some v))"

lemma held_leave [simp]: "held P i (leave l ns) = None"
  by (simp add: leave_def)

lemma leave_neq [simp]: "leave l ns \<noteq> In l'" "leave l ns \<noteq> Asleep l'" "leave l ns \<noteq> Out l' m pre post"
  by (simp_all add: leave_def)

lemma mutex_ok_start: "mutex_ok P (start s ls)"
  by (auto simp: mutex_ok_def start_def)

lemma mutex_ok_keep:
  "mutex_ok P c \<Longrightarrow> i < length (thr c) \<Longrightarrow> held P i p = held P i (thr c ! i) \<Longrightarrow> owner d = owner c
    \<Longrightarrow> mutex_ok P (set_thr i p (d\<lparr>thr := thr c\<rparr>))"
  by (auto simp: mutex_ok_def nth_list_update)

lemma mutex_okD: "mutex_ok P c \<Longrightarrow> owner c m = Some i \<longleftrightarrow> i < length (thr c) \<and> held P i (thr c ! i) = Some m"
  by (simp add: mutex_ok_def)

text \<open>Two threads are never inside the same mutex.\<close>

lemma mutex_ok_unique:
  assumes "mutex_ok P c" "i < length (thr c)" "j < length (thr c)"
    "held P i (thr c ! i) = Some m" "held P j (thr c ! j) = Some m"
  shows "i = j"
  using mutex_okD [OF assms(1), of m i] mutex_okD [OF assms(1), of m j] assms(2-) by simp

lemma mutex_ok_acquire:
  assumes ok: "mutex_ok P c" and i: "i < length (thr c)" "held P i (thr c ! i) = None"
    and m: "owner c m = None" "held P i p = Some m"
  shows "mutex_ok P (set_thr i p (c\<lparr>owner := (owner c)(m := Some i)\<rparr>))"
proof -
  have "held P j (thr c ! j) \<noteq> Some m" if "j < length (thr c)" for j
    using mutex_okD [OF ok, of m j] m(1) that by simp
  then show ?thesis using i m mutex_okD [OF ok]
    unfolding mutex_ok_def by (simp add: nth_list_update)
qed

lemma mutex_ok_release:
  assumes ok: "mutex_ok P c" and i: "i < length (thr c)" "held P i (thr c ! i) = Some m" "held P i p = None"
  shows "mutex_ok P (set_thr i p (c\<lparr>owner := (owner c)(m := None), sleepers := sl\<rparr>))"
proof -
  have "held P j (thr c ! j) \<noteq> Some m" if "j < length (thr c)" "j \<noteq> i" for j
    using mutex_ok_unique [OF ok i(1) that(1) i(2)] that(2) by auto
  then show ?thesis using i mutex_okD [OF ok]
    unfolding mutex_ok_def by (simp add: nth_list_update)
qed

lemma mutex_ok_step: "step P c e = Some c' \<Longrightarrow> mutex_ok P c \<Longrightarrow> mutex_ok P c'"
proof (cases e)
  case (Pair i ch)
  assume st: "step P c e = Some c'" and ok: "mutex_ok P c"
  from st [unfolded Pair] show ?thesis
  proof (cases rule: step_cases)
    case (acquire l m w b)
    then show ?thesis using ok by (auto intro: mutex_ok_acquire)
  next
    case (doze l m v p b)
    then show ?thesis using ok
      mutex_ok_release [of P c i m "Asleep l" "(sleepers c)(v := sleepers c v @ [i])"] by simp
  next
    case (unlock l m post)
    then show ?thesis using ok mutex_ok_release [of P c i m "leave l post" "sleepers c"] by simp
  next
    case (act k l f s' l')
    then show ?thesis using ok mutex_ok_keep [of P c i "At l'" "c\<lparr>shared := s'\<rparr>"] by simp
  next
    case (body l m w b s' l' pre post)
    then show ?thesis using ok mutex_ok_keep [of P c i "Out l' m pre post" "c\<lparr>shared := s'\<rparr>"] by simp
  next
    case (woken l m v p b)
    then show ?thesis using ok mutex_ok_keep [of P c i "At l" c] by simp
  next
    case (spurious l m v p b)
    then show ?thesis using ok
      mutex_ok_keep [of P c i "At l" "c\<lparr>sleepers := (sleepers c)(v := removeAll i (sleepers c v))\<rparr>"] by simp
  next
    case (notify_in k l m n pre post)
    then show ?thesis using ok
      mutex_ok_keep [of P c i "Out l m pre post" "c\<lparr>sleepers := wake n k (sleepers c)\<rparr>"] by simp
  next
    case (notify_out k l ns ms)
    then show ?thesis using ok mutex_ok_keep [of P c i "leave l ms" "c\<lparr>sleepers := (case ns of [] \<Rightarrow> sleepers c
       | n # _ \<Rightarrow> wake n k (sleepers c))\<rparr>"] by simp
  qed
qed

lemma points_ok_start: "points_ok P (start s ls)"
  by (auto simp: points_ok_def start_def)

lemma points_ok_upd:
  "points_ok P c \<Longrightarrow> (\<And>l. p = In l \<Longrightarrow> mtx_of (P i l) \<noteq> None) \<Longrightarrow> (\<And>l. p = Asleep l \<Longrightarrow> cv_of (P i l) \<noteq> None)
    \<Longrightarrow> thr d = thr c \<Longrightarrow> points_ok P (set_thr i p d)"
  unfolding points_ok_def set_thr_sel length_list_update
  by (metis nth_list_update_eq nth_list_update_neq)

lemma points_ok_step: "step P c e = Some c' \<Longrightarrow> points_ok P c \<Longrightarrow> points_ok P c'"
proof (cases e)
  case (Pair i ch)
  assume st: "step P c e = Some c'" and ok: "points_ok P c"
  from st [unfolded Pair] show ?thesis
    by (cases rule: step_cases) (auto intro!: points_ok_upd [OF ok])
qed

lemma set_wake: "i \<in> set (wake n k sl v) \<Longrightarrow> i \<in> set (sl v)"
  by (cases n) (auto split: if_splits dest: set_mp [OF set_remove1_subset])

lemma distinct_wake: "distinct (sl v) \<Longrightarrow> distinct (wake n k sl v)"
  by (cases n) auto

lemma sleep_ok_start: "sleep_ok P (start s ls)"
  by (auto simp: sleep_ok_def start_def)

lemma sleep_okD:
  assumes "sleep_ok P c" "j \<in> set (sleepers c v)"
  obtains l where "j < length (thr c)" "thr c ! j = Asleep l" "cv_of (P j l) = Some v"
  using assms unfolding sleep_ok_def by blast

lemma sleep_ok_not_asleep:
  "sleep_ok P c \<Longrightarrow> (\<And>l. thr c ! i \<noteq> Asleep l) \<Longrightarrow> i \<notin> set (sleepers c v)"
  by (metis sleep_okD)

text \<open>A step that wakes some threads (or none) and moves a thread that is not, or no longer, a sleeper.\<close>

lemma sleep_ok_keep:
  assumes "sleep_ok P c" and "\<And>v j. j \<in> set (sleepers d v) \<Longrightarrow> j \<in> set (sleepers c v)"
    and "\<And>v. distinct (sleepers d v)" and "\<And>v. i \<notin> set (sleepers d v)"
  shows "sleep_ok P (set_thr i p (d\<lparr>thr := thr c\<rparr>))"
  unfolding sleep_ok_def
proof (intro conjI allI impI)
  fix v show "distinct (sleepers (set_thr i p (d\<lparr>thr := thr c\<rparr>)) v)" using assms(3) by simp
next
  fix v j assume "j \<in> set (sleepers (set_thr i p (d\<lparr>thr := thr c\<rparr>)) v)"
  then have "j \<in> set (sleepers c v)" "j \<noteq> i" using assms(2,4) by auto
  then show "j < length (thr (set_thr i p (d\<lparr>thr := thr c\<rparr>)))"
    "\<exists>l. thr (set_thr i p (d\<lparr>thr := thr c\<rparr>)) ! j = Asleep l \<and> cv_of (P j l) = Some v"
    using assms(1) by (auto simp: sleep_ok_def)
qed

lemma sleep_ok_doze:
  "sleep_ok P c \<Longrightarrow> i < length (thr c) \<Longrightarrow> (\<And>v. i \<notin> set (sleepers c v)) \<Longrightarrow> cv_of (P i l) = Some v
    \<Longrightarrow> sleep_ok P (set_thr i (Asleep l) (c\<lparr>owner := ow, sleepers := (sleepers c)(v := sleepers c v @ [i])\<rparr>))"
  unfolding sleep_ok_def by (auto simp: nth_list_update)

lemma sleep_ok_one_cv:
  "sleep_ok P c \<Longrightarrow> thr c ! i = Asleep l \<Longrightarrow> cv_of (P i l) = Some v \<Longrightarrow> i \<in> set (sleepers c u) \<Longrightarrow> u = v"
  by (metis option.inject phase.inject(3) sleep_okD)

lemma sleep_ok_step: "step P c e = Some c' \<Longrightarrow> sleep_ok P c \<Longrightarrow> sleep_ok P c'"
proof (cases e)
  case (Pair i ch)
  assume st: "step P c e = Some c'" and ok: "sleep_ok P c"
  have dist: "distinct (sleepers c v)" for v using ok by (simp add: sleep_ok_def)
  note out = sleep_ok_not_asleep [OF ok]
  from st [unfolded Pair] show ?thesis
  proof (cases rule: step_cases)
    case (acquire l m w b)
    then show ?thesis using sleep_ok_keep [OF ok, of "c\<lparr>owner := (owner c)(m := Some i)\<rparr>" i "In l"] out dist by simp
  next
    case (doze l m v p b)
    then show ?thesis using ok out [of i] by (auto intro: sleep_ok_doze)
  next
    case (unlock l m post)
    then show ?thesis
      using sleep_ok_keep [OF ok, of "c\<lparr>owner := (owner c)(m := None)\<rparr>" i "leave l post"] out dist by simp
  next
    case (act k l f s' l')
    then show ?thesis using sleep_ok_keep [OF ok, of "c\<lparr>shared := s'\<rparr>" i "At l'"] out dist by simp
  next
    case (body l m w b s' l' pre post)
    then show ?thesis using sleep_ok_keep [OF ok, of "c\<lparr>shared := s'\<rparr>" i "Out l' m pre post"] out dist by simp
  next
    case (woken l m v p b)
    then have "i \<notin> set (sleepers c u)" for u using sleep_ok_one_cv [OF ok woken(2)] by auto
    then show ?thesis using woken sleep_ok_keep [OF ok, of c i "At l"] dist by simp
  next
    case (spurious l m v p b)
    then have "i \<notin> set (sleepers c u)" if "u \<noteq> v" for u
      using sleep_ok_one_cv [OF ok spurious(2)] that by auto
    then have "sleep_ok P (set_thr i (At l) (c\<lparr>sleepers := (sleepers c)(v := removeAll i (sleepers c v))\<rparr>\<lparr>thr := thr c\<rparr>))"
      using dist by (intro sleep_ok_keep [OF ok]) (auto simp: distinct_removeAll split: if_splits)
    then show ?thesis using spurious by simp
  next
    case (notify_in k l m n pre post)
    then have "i \<notin> set (wake n k (sleepers c) v)" for v using out [of i v] set_wake [of i n k _ v] by auto
    then show ?thesis using notify_in dist
      sleep_ok_keep [OF ok, of "c\<lparr>sleepers := wake n k (sleepers c)\<rparr>" i "Out l m pre post"]
      by (simp add: distinct_wake set_wake)
  next
    case (notify_out k l ns ms)
    define sl where "sl = (case ns of [] \<Rightarrow> sleepers c | n # _ \<Rightarrow> wake n k (sleepers c))"
    have sub: "j \<in> set (sl v) \<Longrightarrow> j \<in> set (sleepers c v)" and "distinct (sl v)" for j v
      by (cases ns; auto simp: sl_def dist distinct_wake dest: set_wake)+
    then show ?thesis using notify_out out [of i]
      sleep_ok_keep [OF ok, of "c\<lparr>sleepers := sl\<rparr>" i "leave l ms"] by (auto simp: sl_def [symmetric])
  qed
qed

lemma reach_ok:
  assumes "reach (step P) (start s ls) c"
  shows "mutex_ok P c" "points_ok P c" "sleep_ok P c" "length (thr c) = length ls"
proof -
  show "mutex_ok P c" by (rule reach_induct_inv [where I = "mutex_ok P", OF assms mutex_ok_start]) (rule mutex_ok_step)
  show "points_ok P c" by (rule reach_induct_inv [where I = "points_ok P", OF assms points_ok_start]) (rule points_ok_step)
  show "sleep_ok P c" by (rule reach_induct_inv [where I = "sleep_ok P", OF assms sleep_ok_start]) (rule sleep_ok_step)
  show "length (thr c) = length ls"
  proof (rule reach_induct_inv [OF assms])
    fix c c' :: "('a, 'b) cfg" and e
    assume "length (thr c) = length ls" "step P c e = Some c'"
    then show "length (thr c') = length ls" by (cases e) (auto elim: step_cases)
  qed (simp add: start_def)
qed

subsection \<open>Critical sections are atomic\<close>

definition ready :: "(nat \<times> ('s \<Rightarrow> bool)) option \<Rightarrow> 's \<Rightarrow> bool" where
  "ready w s = (case w of None \<Rightarrow> True | Some (v, p) \<Rightarrow> p s)"

lemma ready_simps [simp]: "ready None s" "ready (Some (v, p)) s = p s"
  by (simp_all add: ready_def)

lemma nth_mem_eq: "k < length xs \<Longrightarrow> xs ! k = x \<Longrightarrow> x \<in> set xs"
  by auto

text \<open>
  The abstract machine has neither mutexes nor condition variables: a thread either takes one
  atomic step, with one of these effects, or is blocked.
\<close>

definition effects :: "('s, 'l) stmt \<Rightarrow> 's \<Rightarrow> ('s \<times> 'l) list" where
  "effects st s = (case st of
       Fin \<Rightarrow> []
     | Act f \<Rightarrow> f s
     | Monitor m w b \<Rightarrow> if ready w s then (case b s of (s', l', pre, post) \<Rightarrow> [(s', l')]) else [])"

lemma effects_simps [simp]:
  "effects Fin s = []" "effects (Act f) s = f s"
  "effects (Monitor m w b) s = (if ready w s then (case b s of (s', l', pre, post) \<Rightarrow> [(s', l')]) else [])"
  by (simp_all add: effects_def)

definition astep :: "('s, 'l) prog \<Rightarrow> 's \<times> 'l list \<Rightarrow> nat \<times> nat \<Rightarrow> ('s \<times> 'l list) option" where
  "astep P = (\<lambda>(s, ls) (i, k).
     if i < length ls \<and> k < length (effects (P i (ls ! i)) s)
     then (case effects (P i (ls ! i)) s ! k of (s', l') \<Rightarrow> Some (s', ls[i := l'])) else None)"

lemma locs_set_thr [simp]: "locs (set_thr i p c) = (locs c)[i := loc p]"
  by (simp add: locs_def map_update)

lemma locs_update [simp]: "locs (c\<lparr>shared := s\<rparr>) = locs c" "locs (c\<lparr>owner := ow\<rparr>) = locs c" "locs (c\<lparr>sleepers := sl\<rparr>) = locs c"
  by (simp_all add: locs_def)

lemma locs_upd_same: "thr c ! i = p \<Longrightarrow> (locs c)[i := loc p] = locs c"
  by (auto simp: locs_def map_update [symmetric])

lemma step_refines:
  assumes "step P c e = Some c'"
  shows "(shared c', locs c') = (shared c, locs c) \<or> (\<exists>e'. astep P (shared c, locs c) e' = Some (shared c', locs c'))"
proof (cases e)
  case (Pair i ch)
  from assms [unfolded Pair] show ?thesis
  proof (cases rule: step_cases)
    case (act k l f s' l')
    then have "astep P (shared c, locs c) (i, k) = Some (shared c', locs c')"
      by (simp add: astep_def)
    then show ?thesis by blast
  next
    case (body l m w b s' l' pre post)
    then have "ready w (shared c)" by (cases w) auto
    with body have "astep P (shared c, locs c) (i, 0) = Some (shared c', locs c')"
      by (simp add: astep_def)
    then show ?thesis by blast
  qed (auto simp: locs_upd_same [where p = "At l" for l, simplified] locs_upd_same [where p = "In l" for l, simplified]
      locs_upd_same [where p = "Asleep l" for l, simplified] locs_upd_same [where p = "Out l m pre post" for l m pre post, simplified]
      locs_upd_same [where p = "Post l ns" for l ns, simplified])
qed

text \<open>Refinement: every run of the machine is a run of the atomic machine.\<close>

theorem step_refines_atomic:
  assumes "reach (step P) (start s ls) c"
  shows "reach (astep P) (s, ls) (shared c, locs c)"
proof (rule reach_induct_inv [OF assms])
  show "reach (astep P) (s, ls) (shared (start s ls), locs (start s ls))"
    by (simp add: start_def locs_def reach_refl comp_def)
next
  fix c e c' assume "reach (astep P) (s, ls) (shared c, locs c)" "step P c e = Some c'"
  then show "reach (astep P) (s, ls) (shared c', locs c')"
    using step_refines [of P c e c'] by (metis reach_step)
qed

text \<open>
  The invariant rule of the machine: an assertion about the shared state and the program
  points that every atomic step keeps holds in every reachable state.
\<close>

locale monitor_invariant =
  fixes P :: "('s, 'l) prog" and s0 :: 's and ls0 :: "'l list" and I :: "'s \<Rightarrow> 'l list \<Rightarrow> bool"
  assumes I_init: "I s0 ls0"
    and I_step: "I s ls \<Longrightarrow> i < length ls \<Longrightarrow> (s', l') \<in> set (effects (P i (ls ! i)) s) \<Longrightarrow> I s' (ls[i := l'])"
begin

sublocale step_invariant "astep P" "(s0, ls0)" "\<lambda>(s, ls). I s ls"
proof
  show "case (s0, ls0) of (s, ls) \<Rightarrow> I s ls" by (simp add: I_init)
next
  fix c e c' assume "case c of (s, ls) \<Rightarrow> I s ls" and "astep P c e = Some c'"
  then show "case c' of (s, ls) \<Rightarrow> I s ls"
    by (cases c; cases e) (auto simp: astep_def split: if_splits prod.splits intro!: I_step intro: nth_mem_eq)
qed

lemma I_reach: "reach (step P) (start s0 ls0) c \<Longrightarrow> I (shared c) (locs c)"
  using inv_reach [OF step_refines_atomic] by simp

end

subsection \<open>States in which nothing moves\<close>

lemma stuckD: "stuck P c \<Longrightarrow> i < length (thr c) \<Longrightarrow> step_phase P c i (Norm k) (thr c ! i) = None"
  unfolding stuck_def step_def by (metis fst_conv snd_conv)

lemma stuck_phases:
  assumes "stuck P c" "points_ok P c" "i < length (thr c)"
  shows "thr c ! i \<noteq> In l" "thr c ! i \<noteq> Out l m pre post" "thr c ! i \<noteq> Post l ns"
proof -
  note st = stuckD [OF assms(1,3)]
  show "thr c ! i \<noteq> In l"
  proof
    assume a: "thr c ! i = In l"
    with assms(2,3) have "mtx_of (P i l) \<noteq> None" by (simp add: points_ok_def)
    then obtain m w b where "P i l = Monitor m w b" by (auto simp: mtx_of_Some)
    with a st show False
      by (auto simp: step_in_def Let_def split: option.splits prod.splits if_splits)
  qed
  show "thr c ! i \<noteq> Out l m pre post" using st by (cases pre) auto
  show "thr c ! i \<noteq> Post l ns" using st by (cases ns) auto
qed

text \<open>
  In a state without enabled steps a thread has returned, is blocked in an atomic step without
  outcome, or sleeps on a condition variable without having been notified.
\<close>

lemma stuck_cases [consumes 4, case_names fin blocked asleep]:
  assumes "stuck P c" "i < length (thr c)" "mutex_ok P c" "points_ok P c"
  obtains (fin) l where "thr c ! i = At l" "P i l = Fin"
  | (blocked) l f where "thr c ! i = At l" "P i l = Act f" "f (shared c) = []"
  | (asleep) l m v p b where "thr c ! i = Asleep l" "P i l = Monitor m (Some (v, p)) b" "i \<in> set (sleepers c v)"
proof -
  note ph = stuck_phases [OF assms(1,4)]
  have free: "owner c m = None" for m
  proof (cases "owner c m")
    case (Some j)
    then have "j < length (thr c)" "held P j (thr c ! j) = Some m"
      using mutex_okD [OF assms(3), of m j] by auto
    then show ?thesis using ph [of j] by (cases "thr c ! j") auto
  qed simp
  note st = stuckD [OF assms(1,2)]
  show thesis
  proof (cases "thr c ! i")
    case (At l)
    show thesis
    proof (cases "P i l")
      case (Act f)
      with st [of 0] At have "f (shared c) = []"
        by (auto simp: step_at_def Let_def split: if_splits prod.splits)
      with At Act show thesis by (rule blocked)
    next
      case (Monitor m w b)
      with st [of 0] At free show thesis by (simp add: step_at_def)
    qed (use At fin in simp)
  next
    case (Asleep l)
    with assms(2,4) have "cv_of (P i l) \<noteq> None" by (simp add: points_ok_def)
    then obtain m v p b where "P i l = Monitor m (Some (v, p)) b" by (auto simp: cv_of_Some)
    moreover from this Asleep st [of 0] have "i \<in> set (sleepers c v)"
      by (auto simp: step_asleep_def split: if_splits)
    ultimately show thesis using Asleep asleep by blast
  qed (use ph [OF assms(2)] in auto)
qed

lemma all_fin_stuck: "all_fin P c \<Longrightarrow> stuck P c"
  unfolding stuck_def
proof (intro allI)
  fix i k assume a: "all_fin P c"
  show "step P c (i, Norm k) = None"
  proof (cases "i < length (thr c)")
    case True
    with a obtain l where "thr c ! i = At l" "P i l = Fin" by (auto simp: all_fin_def)
    with True show ?thesis by (simp add: step_def step_at_def)
  qed (simp add: step_def)
qed

text \<open>The same condition, computed.\<close>

fun returned :: "('s, 'l) prog \<Rightarrow> nat \<Rightarrow> 'l phase \<Rightarrow> bool" where
  "returned P i (At l) = (case P i l of Fin \<Rightarrow> True | _ \<Rightarrow> False)"
| "returned P i _ = False"

lemma returned_iff: "returned P i p \<longleftrightarrow> (\<exists>l. p = At l \<and> P i l = Fin)"
  by (cases p) (auto split: stmt.splits)

definition all_finb :: "('s, 'l) prog \<Rightarrow> ('s, 'l) cfg \<Rightarrow> bool" where
  "all_finb P c = list_all (\<lambda>(i, p). returned P i p) (zip [0..<length (thr c)] (thr c))"

lemma all_finb: "all_finb P c \<longleftrightarrow> all_fin P c"
  by (auto simp: all_finb_def all_fin_def list_all_length returned_iff)

text \<open>
  A scheduler that always runs the first thread in \<open>is\<close> that can move: concrete runs of the
  programs are computed with it.
\<close>

fun first_step :: "('s, 'l) prog \<Rightarrow> ('s, 'l) cfg \<Rightarrow> nat list \<Rightarrow> ((nat \<times> choice) \<times> ('s, 'l) cfg) option" where
  "first_step P c [] = None"
| "first_step P c (i # is) = (case step P c (i, Norm 0) of None \<Rightarrow> first_step P c is | Some c' \<Rightarrow> Some ((i, Norm 0), c'))"

fun drive :: "('s, 'l) prog \<Rightarrow> nat list \<Rightarrow> nat \<Rightarrow> ('s, 'l) cfg \<Rightarrow> (nat \<times> choice) list \<times> ('s, 'l) cfg" where
  "drive P is 0 c = ([], c)"
| "drive P is (Suc n) c = (case first_step P c is of None \<Rightarrow> ([], c)
     | Some (e, c') \<Rightarrow> (case drive P is n c' of (es, d) \<Rightarrow> (e # es, d)))"

lemma first_step: "first_step P c is = Some (e, c') \<Longrightarrow> step P c e = Some c'"
  by (induction "is") (auto split: option.splits)

lemma drive_run: "drive P is n c = (es, d) \<Longrightarrow> run (step P) c es = Some d"
  by (induction n arbitrary: c es d) (auto split: option.splits prod.splits dest!: first_step)

lemma drive_reach: "reach (step P) c (snd (drive P is n c))"
  by (metis drive_run prod.collapse run_reach)

text \<open>Whether nothing moves can be computed: it does not depend on the choices.\<close>

definition stuckb :: "('s, 'l) prog \<Rightarrow> ('s, 'l) cfg \<Rightarrow> bool" where
  "stuckb P c = list_all (\<lambda>i. case step P c (i, Norm 0) of None \<Rightarrow> True | Some c' \<Rightarrow> False) [0..<length (thr c)]"

lemma step_phase_None: "step_phase P c i (Norm 0) p = None \<Longrightarrow> step_phase P c i (Norm k) p = None"
proof (cases p)
  case (At l)
  then show "step_phase P c i (Norm 0) p = None \<Longrightarrow> ?thesis"
    by (auto simp: step_at_def Let_def split: stmt.splits if_splits prod.splits)
next
  case (Out l m pre post)
  then show "step_phase P c i (Norm 0) p = None \<Longrightarrow> ?thesis" by (cases pre) auto
next
  case (Post l ns)
  then show "step_phase P c i (Norm 0) p = None \<Longrightarrow> ?thesis" by (cases ns) auto
next
  case (Asleep l)
  then show "step_phase P c i (Norm 0) p = None \<Longrightarrow> ?thesis"
    by (auto simp: step_asleep_def split: stmt.splits option.splits if_splits)
qed auto

lemma stuckb: "stuckb P c \<Longrightarrow> stuck P c"
proof -
  assume b: "stuckb P c"
  have "step P c (i, Norm k) = None" for i k
  proof (cases "i < length (thr c)")
    case True
    then have "step P c (i, Norm 0) = None" using b by (auto simp: stuckb_def list_all_iff split: option.splits)
    then show ?thesis using True step_phase_None by (simp add: step_def)
  qed (simp add: step_def)
  then show ?thesis by (simp add: stuck_def)
qed

subsection \<open>No lost wake-ups\<close>

fun sends :: "'l phase \<Rightarrow> notify list" where
  "sends (Out l m pre post) = pre @ post"
| "sends (Post l ns) = ns"
| "sends _ = []"

lemma sends_leave [simp]: "sends (leave l ns) = ns"
  by (simp add: leave_def)

text \<open>
  A thread is awake for condition variable \<open>v\<close> when it is in a statement that waits on \<open>v\<close>
  and will still test the predicate without being notified again.
\<close>

fun awake :: "('s, 'l) prog \<Rightarrow> nat \<Rightarrow> nat list \<Rightarrow> nat \<Rightarrow> 'l phase \<Rightarrow> bool" where
  "awake P v sl i (At l) = (cv_of (P i l) = Some v)"
| "awake P v sl i (In l) = (cv_of (P i l) = Some v)"
| "awake P v sl i (Asleep l) = (cv_of (P i l) = Some v \<and> i \<notin> set sl)"
| "awake P v sl i _ = False"

definition weight :: "('s, 'l) prog \<Rightarrow> nat \<Rightarrow> ('s, 'l) cfg \<Rightarrow> nat \<Rightarrow> nat" where
  "weight P v c i = of_bool (awake P v (sleepers c v) i (thr c ! i)) + count_list (sends (thr c ! i)) (NotifyOne v)"

definition all_pending :: "nat \<Rightarrow> ('s, 'l) cfg \<Rightarrow> bool" where
  "all_pending v c \<longleftrightarrow> (\<exists>i<length (thr c). NotifyAll v \<in> set (sends (thr c ! i)))"

definition wake_inv :: "('s, 'l) prog \<Rightarrow> nat \<Rightarrow> ('s \<Rightarrow> enat) \<Rightarrow> ('s, 'l) cfg \<Rightarrow> bool" where
  "wake_inv P v avail c \<longleftrightarrow> sleepers c v = [] \<or> all_pending v c \<or>
     avail (shared c) \<le> enat (\<Sum>i<length (thr c). weight P v c i)"

lemma awake_mono: "set sl' \<subseteq> set sl \<Longrightarrow> awake P v sl i p \<Longrightarrow> awake P v sl' i p"
  by (cases p) auto

lemma weight_mono:
  "thr c' ! j = thr c ! j \<Longrightarrow> set (sleepers c' v) \<subseteq> set (sleepers c v) \<Longrightarrow> weight P v c j \<le> weight P v c' j"
  by (auto simp: weight_def dest: awake_mono)

lemma weight_set_thr:
  "i < length (thr c) \<Longrightarrow> weight P v (set_thr i p c) j =
    (if j = i then of_bool (awake P v (sleepers c v) i p) + count_list (sends p) (NotifyOne v) else weight P v c j)"
  by (simp add: weight_def nth_list_update)

text \<open>The total weight after a step of thread \<open>i\<close> that lets no other thread fall asleep on \<open>v\<close>.\<close>

lemma total_weight:
  assumes "i < length (thr c)" and "thr c' = (thr c)[i := p]" and "set (sleepers c' v) \<subseteq> insert i (set (sleepers c v))"
  shows "(\<Sum>j<length (thr c). weight P v c j) + weight P v c' i \<le> (\<Sum>j<length (thr c'). weight P v c' j) + weight P v c i"
proof -
  have "weight P v c j \<le> weight P v c' j" if "j < length (thr c)" "j \<noteq> i" for j
  proof -
    have "thr c' ! j = thr c ! j" using assms(2) that by simp
    moreover have "awake P v (sleepers c v) j q \<Longrightarrow> awake P v (sleepers c' v) j q" for q
      using assms(3) that(2) by (cases q) auto
    ultimately show ?thesis by (simp add: weight_def)
  qed
  then show ?thesis using assms(1,2) sum_less_upd [of i "length (thr c)" "weight P v c" "weight P v c'"] by simp
qed

lemma all_pending_keep:
  "all_pending v c \<Longrightarrow> i < length (thr c) \<Longrightarrow> thr c' = (thr c)[i := p]
    \<Longrightarrow> (NotifyAll v \<in> set (sends (thr c ! i)) \<Longrightarrow> NotifyAll v \<in> set (sends p)) \<Longrightarrow> all_pending v c'"
  unfolding all_pending_def by (metis length_list_update nth_list_update_eq nth_list_update_neq)

lemma enat_balance:
  fixes a a' :: enat and w w' W W' :: nat
  assumes "a \<le> enat W" "a' + enat w \<le> a + enat w'" "W + w' \<le> W' + w"
  shows "a' \<le> enat W'"
  using assms by (cases a; cases a') auto

lemma wake_inv_cases:
  assumes "wake_inv P v avail c"
  obtains "sleepers c v = []" | "all_pending v c" | "avail (shared c) \<le> enat (\<Sum>i<length (thr c). weight P v c i)"
  using assms by (auto simp: wake_inv_def)

text \<open>A step that sends no notification on \<open>v\<close> and does not put a thread to sleep on it.\<close>

lemma wake_inv_keep:
  assumes inv: "wake_inv P v avail c" and i: "i < length (thr c)" "thr c' = (thr c)[i := p]"
    and sl: "set (sleepers c' v) \<subseteq> set (sleepers c v)"
    and av: "avail (shared c') + enat (weight P v c i) \<le> avail (shared c) + enat (weight P v c' i)"
    and all: "NotifyAll v \<in> set (sends (thr c ! i)) \<Longrightarrow> NotifyAll v \<in> set (sends p)"
  shows "wake_inv P v avail c'"
  using inv
proof (cases rule: wake_inv_cases)
  case 1 with sl show ?thesis by (simp add: wake_inv_def)
next
  case 2 with i all show ?thesis by (auto simp: wake_inv_def intro: all_pending_keep)
next
  case 3
  have "avail (shared c') \<le> enat (\<Sum>i<length (thr c'). weight P v c' i)"
    by (rule enat_balance [OF 3 av total_weight [OF i]]) (use sl in auto)
  then show ?thesis by (simp add: wake_inv_def)
qed

lemma wake_inv_keep_avail:
  assumes "wake_inv P v avail c" "i < length (thr c)" "thr c' = (thr c)[i := p]" "set (sleepers c' v) \<subseteq> set (sleepers c v)"
    and "shared c' = shared c" "weight P v c i \<le> weight P v c' i"
    and "NotifyAll v \<in> set (sends (thr c ! i)) \<Longrightarrow> NotifyAll v \<in> set (sends p)"
  shows "wake_inv P v avail c'"
  by (rule wake_inv_keep [OF assms(1-4)]) (use assms(5-) in \<open>auto intro: add_left_mono\<close>)

text \<open>Sending a notification.\<close>

lemma wake_one_total:
  assumes slp: "sleep_ok P c" and i: "i < length (thr c)" "\<And>l. thr c ! i \<noteq> Asleep l" and ne: "sleepers c v \<noteq> []"
    and d: "d = set_thr i p (c\<lparr>sleepers := wake (NotifyOne v) k (sleepers c)\<rparr>)"
  shows "Suc (\<Sum>j<length (thr c). weight P v c j) + weight P v d i \<le> (\<Sum>j<length (thr c). weight P v d j) + weight P v c i"
proof -
  define j where "j = sleepers c v ! (k mod length (sleepers c v))"
  have j: "j \<in> set (sleepers c v)" using ne by (simp add: j_def)
  then obtain l where l: "j < length (thr c)" "thr c ! j = Asleep l" "cv_of (P j l) = Some v"
    using slp by (auto elim: sleep_okD)
  have dist: "distinct (sleepers c v)" using slp by (simp add: sleep_ok_def)
  have ij: "i \<noteq> j" using i(2) l(2) by auto
  have sl: "sleepers d v = remove1 j (sleepers c v)" using ne by (simp add: d j_def)
  have "weight P v c j = 0" using j l by (simp add: weight_def)
  moreover have "weight P v d j = 1" using dist l ij ne by (simp add: weight_def d flip: j_def)
  moreover have "weight P v c q \<le> weight P v d q" if "q \<noteq> i" for q
    by (rule weight_mono) (use that sl set_remove1_subset in \<open>simp_all add: d\<close>)
  ultimately show ?thesis using i(1) l(1) ij by (intro sum_less_upd2 [of i _ j]) auto
qed

lemma wake_inv_wake:
  assumes inv: "wake_inv P v avail c" and slp: "sleep_ok P c" and i: "i < length (thr c)"
    and ph: "sends (thr c ! i) = n # sends p" "\<And>l. thr c ! i \<noteq> Asleep l" "\<not> awake P v (sleepers c v) i (thr c ! i)"
    and d: "d = set_thr i p (c\<lparr>sleepers := wake n k (sleepers c)\<rparr>)"
  shows "wake_inv P v avail d"
proof -
  have w: "weight P v c i = count_list (n # sends p) (NotifyOne v)" using ph by (simp add: weight_def)
  have w': "count_list (sends p) (NotifyOne v) \<le> weight P v d i" using i by (simp add: weight_def d)
  consider "n = NotifyAll v" | "n = NotifyOne v" "sleepers c v = []" | "n = NotifyOne v" "sleepers c v \<noteq> []"
    | "n \<noteq> NotifyAll v" "n \<noteq> NotifyOne v" by blast
  then show ?thesis
  proof cases
    case 4
    show ?thesis
      by (rule wake_inv_keep_avail [OF inv i]) (use 4 ph w w' in \<open>auto simp: d dest: set_wake\<close>)
  next
    case 3
    from inv show ?thesis
    proof (cases rule: wake_inv_cases)
      case 2
      then show ?thesis using i ph \<open>n = NotifyOne v\<close> all_pending_keep [of v c i d p]
        by (simp add: wake_inv_def d)
    next
      case avail: 3
      have "(\<Sum>j<length (thr c). weight P v c j) \<le> (\<Sum>j<length (thr d). weight P v d j)"
        using wake_one_total [OF slp i ph(2) 3(2) d [unfolded 3(1)]] w w' 3(1) by (simp add: d)
      then show ?thesis using avail
        by (auto simp: wake_inv_def d intro: order_trans)
    qed (use 3 in simp)
  qed (simp_all add: wake_inv_def d)
qed

text \<open>
  \<open>notify_one\<close> on \<open>v\<close> loses no wake-up when \<open>avail\<close> measures, in every state, how many
  waiters of \<open>v\<close> could proceed: the predicate of a waiter holds exactly when \<open>avail\<close> is not
  0, a waiter that proceeds uses up at least one (or passes it on), and whoever raises \<open>avail\<close>
  by \<open>n\<close> sends \<open>n\<close> notifications, or one to all.
\<close>

locale signalled = monitor_invariant P s0 ls0 I
  for P :: "('s, 'l) prog" and s0 ls0 I +
  fixes v :: nat and avail :: "'s \<Rightarrow> enat"
  assumes avail_pred: "I s ls \<Longrightarrow> i < length ls \<Longrightarrow> P i (ls ! i) = Monitor m (Some (v, p)) b \<Longrightarrow> p s \<longleftrightarrow> avail s \<noteq> 0"
    and avail_take: "I s ls \<Longrightarrow> i < length ls \<Longrightarrow> P i (ls ! i) = Monitor m (Some (v, p)) b \<Longrightarrow> p s
      \<Longrightarrow> b s = (s', l', pre, post)
      \<Longrightarrow> NotifyAll v \<in> set (pre @ post) \<or> avail s' + 1 \<le> avail s + enat (count_list (pre @ post) (NotifyOne v))"
    and avail_give: "I s ls \<Longrightarrow> i < length ls \<Longrightarrow> P i (ls ! i) = Monitor m w b \<Longrightarrow> cv_of (P i (ls ! i)) \<noteq> Some v
      \<Longrightarrow> ready w s \<Longrightarrow> b s = (s', l', pre, post)
      \<Longrightarrow> NotifyAll v \<in> set (pre @ post) \<or> avail s' \<le> avail s + enat (count_list (pre @ post) (NotifyOne v))"
    and avail_act: "I s ls \<Longrightarrow> i < length ls \<Longrightarrow> P i (ls ! i) = Act f \<Longrightarrow> (s', l') \<in> set (f s) \<Longrightarrow> avail s' \<le> avail s"

context signalled
begin

lemma wake_inv_start: "wake_inv P v avail (start s0 ls0)"
  by (simp add: wake_inv_def start_def)

lemma wake_inv_step:
  assumes st: "step P c (i, ch) = Some c'" and inv: "wake_inv P v avail c" and slp: "sleep_ok P c"
    and I: "I (shared c) (locs c)"
  shows "wake_inv P v avail c'"
  using st
proof (cases rule: step_cases)
  case (act k l f s' l')
  have "avail s' \<le> avail (shared c)"
    using avail_act [OF I, of i f s' l'] act nth_mem_eq [OF act(4,5)] by simp
  then show ?thesis
    by (intro wake_inv_keep [OF inv act(1)]) (use act in \<open>auto simp: weight_def intro: add_mono\<close>)
next
  case (acquire l m w b)
  show ?thesis
    by (rule wake_inv_keep_avail [OF inv acquire(1)]) (use acquire in \<open>auto simp: weight_def\<close>)
next
  case (body l m w b s' l' pre post)
  have w: "weight P v c i = of_bool (cv_of (P i l) = Some v)" "weight P v c' i = count_list (pre @ post) (NotifyOne v)"
    using body by (simp_all add: weight_def)
  have ready: "ready w (shared c)" using body(4) by (auto simp: ready_def split: option.splits)
  have "NotifyAll v \<in> set (pre @ post) \<or> avail s' + enat (weight P v c i) \<le> avail (shared c) + enat (weight P v c' i)"
  proof (cases "cv_of (P i l) = Some v")
    case True
    then obtain p where "w = Some (v, p)" using body(3) by (auto simp: cv_of_Some)
    then show ?thesis
      using avail_take [OF I, of i m p b s' l' pre post] body True w by (simp add: one_enat_def)
  next
    case False
    then show ?thesis using avail_give [OF I, of i m w b s' l' pre post] body w ready by (simp flip: zero_enat_def)
  qed
  then show ?thesis
  proof
    assume "NotifyAll v \<in> set (pre @ post)"
    then have "all_pending v c'" using body by (auto simp: all_pending_def)
    then show ?thesis by (simp add: wake_inv_def)
  next
    assume "avail s' + enat (weight P v c i) \<le> avail (shared c) + enat (weight P v c' i)"
    then show ?thesis
      by (intro wake_inv_keep [OF inv body(1)]) (use body in auto)
  qed
next
  case (doze l m u p b)
  show ?thesis
  proof (cases "u = v")
    case True
    then have "avail (shared c) = 0" using avail_pred [OF I, of i m p b] doze by auto
    with doze show ?thesis by (simp add: wake_inv_def)
  next
    case False
    then show ?thesis
      by (intro wake_inv_keep_avail [OF inv doze(1)]) (use doze in \<open>auto simp: weight_def\<close>)
  qed
next
  case (woken l m u p b)
  show ?thesis
    by (rule wake_inv_keep_avail [OF inv woken(1)]) (use woken in \<open>auto simp: weight_def\<close>)
next
  case (spurious l m u p b)
  show ?thesis
    by (rule wake_inv_keep_avail [OF inv spurious(1)]) (use spurious in \<open>auto simp: weight_def\<close>)
next
  case (notify_in k l m n pre post)
  show ?thesis
    by (rule wake_inv_wake [OF inv slp notify_in(1) _ _ _ notify_in(3)]) (use notify_in in auto)
next
  case (unlock l m post)
  show ?thesis
    by (rule wake_inv_keep_avail [OF inv unlock(1)]) (use unlock in \<open>auto simp: weight_def leave_def\<close>)
next
  case (notify_out k l ns ms)
  show ?thesis
  proof (cases ns)
    case Nil
    then show ?thesis
      by (intro wake_inv_keep_avail [OF inv notify_out(1)]) (use notify_out in \<open>auto simp: weight_def leave_def\<close>)
  next
    case (Cons n xs)
    show ?thesis
      by (rule wake_inv_wake [OF inv slp notify_out(1), of n "leave l ms" _ k]) (use notify_out Cons in auto)
  qed
qed

lemma wake_inv_reach:
  assumes "reach (step P) (start s0 ls0) c"
  shows "wake_inv P v avail c"
  using assms
proof (induction rule: reach.induct)
  case reach_refl
  show ?case by (rule wake_inv_start)
next
  case (reach_step c e c')
  then show ?case
    using wake_inv_step [of c "fst e" "snd e" c'] reach_ok(3) [OF reach_step(1)] I_reach [OF reach_step(1)] by simp
qed

text \<open>When nothing moves, no thread sleeps on \<open>v\<close> with a true predicate.\<close>

lemma no_lost_wakeup:
  assumes "reach (step P) (start s0 ls0) c" "stuck P c" "i < length (thr c)"
    and "thr c ! i = Asleep l" "P i l = Monitor m (Some (v, p)) b"
  shows "\<not> p (shared c)"
proof -
  note ok = reach_ok [OF assms(1)]
  have "i \<in> set (sleepers c v)"
    using assms(2,3) ok(1,2) by (cases rule: stuck_cases) (use assms(4,5) in auto)
  then have ne: "sleepers c v \<noteq> []" by auto
  have quiet: "sends (thr c ! j) = []" "\<not> awake P v (sleepers c v) j (thr c ! j)" if "j < length (thr c)" for j
    using assms(2) that ok(1,2) by (cases rule: stuck_cases; auto)+
  then have "\<not> all_pending v c" "(\<Sum>j<length (thr c). weight P v c j) = 0"
    by (auto simp: all_pending_def weight_def)
  then have "avail (shared c) = 0"
    using wake_inv_reach [OF assms(1)] ne by (simp add: wake_inv_def zero_enat_def [symmetric])
  then show ?thesis
    using avail_pred [OF I_reach [OF assms(1)], of i m p b] assms(3,4,5) by auto
qed

end

end
