(* ===== verification/Objects.thy ===== *)
theory Objects
  imports Threads
begin

text \<open>
  Classes whose methods lock the object's mutex and may wait on one of its condition variables
  (a monitor). A method is given by what its source body says: which mutex it locks, which
  condition variable and predicate it waits for, and what it then does; \<open>call\<close> is the call of
  a method on an object that is one field of the shared state of a program.
\<close>

record ('q, 'r) meth =
  mtx :: nat
  waits :: "(nat \<times> ('q \<Rightarrow> bool)) option"
  body :: "'q \<Rightarrow> 'q \<times> 'r \<times> notify list \<times> notify list"

text \<open>
  The result of \<open>body\<close>: the object afterwards, the value returned, the notifications sent
  under the mutex and those sent after it was released.
\<close>

definition call :: "('s \<Rightarrow> 'q) \<Rightarrow> (('q \<Rightarrow> 'q) \<Rightarrow> 's \<Rightarrow> 's) \<Rightarrow> ('q, 'r) meth \<Rightarrow> ('r \<Rightarrow> 'l) \<Rightarrow> ('s, 'l) stmt" where
  "call get upd m k = Monitor (mtx m) (map_option (\<lambda>(v, p). (v, \<lambda>s. p (get s))) (waits m))
     (\<lambda>s. case body m (get s) of (q, r, pre, post) \<Rightarrow> (upd (\<lambda>_. q) s, k r, pre, post))"

definition enabled :: "('q, 'r) meth \<Rightarrow> 'q \<Rightarrow> bool" where
  "enabled m q = ready (waits m) q"

lemma call_neq [simp]: "call get upd m k \<noteq> Fin" "call get upd m k \<noteq> Act f" "Fin \<noteq> call get upd m k" "Act f \<noteq> call get upd m k"
  by (simp_all add: call_def)

lemma ready_call: "ready (map_option (\<lambda>(v, p). (v, \<lambda>s. p (get s))) w) s = ready w (get s)"
  by (auto simp: ready_def split: option.splits)

lemma effects_call:
  "effects (call get upd m k) s = (if enabled m (get s)
    then (case body m (get s) of (q, r, pre, post) \<Rightarrow> [(upd (\<lambda>_. q) s, k r)]) else [])"
  unfolding call_def effects_simps ready_call enabled_def
  by (cases "body m (get s)") simp

lemma effects_callE [elim!]:
  assumes "(s', l') \<in> set (effects (call get upd m k) s)"
  obtains q r pre post where "enabled m (get s)" "body m (get s) = (q, r, pre, post)" "s' = upd (\<lambda>_. q) s" "l' = k r"
proof -
  obtain q r pre post where b: "body m (get s) = (q, r, pre, post)" by (rule prod_cases4)
  with assms have "enabled m (get s) \<and> s' = upd (\<lambda>_. q) s \<and> l' = k r"
    by (simp only: effects_call prod.case split: if_splits) simp_all
  with b that show thesis by blast
qed

lemma call_Monitor:
  "call get upd m k = Monitor m' w b \<longleftrightarrow> m' = mtx m \<and> w = map_option (\<lambda>(v, p). (v, \<lambda>s. p (get s))) (waits m) \<and>
    b = (\<lambda>s. case body m (get s) of (q, r, pre, post) \<Rightarrow> (upd (\<lambda>_. q) s, k r, pre, post))"
  by (auto simp: call_def)

text \<open>What the machine does with a call is what the method says.\<close>

lemma call_ready: "call get upd m k = Monitor m' w b \<Longrightarrow> ready w s = enabled m (get s)"
  by (simp add: call_Monitor ready_call enabled_def)

lemma call_body:
  assumes "call get upd m k = Monitor m' w b" "b s = (s', l', pre, post)"
  obtains q r where "body m (get s) = (q, r, pre, post)" "s' = upd (\<lambda>_. q) s" "l' = k r"
  using assms by (cases "body m (get s)") (auto simp: call_Monitor)

lemma cv_of_call [simp]: "cv_of (call get upd m k) = map_option fst (waits m)"
  by (auto simp: call_def cv_of_def split: option.splits)

lemma mtx_of_call [simp]: "mtx_of (call get upd m k) = Some (mtx m)"
  by (simp add: call_def)

end
