(* ===== verification/Queues.thy ===== *)
theory Queues
  imports Objects
begin

text \<open>
  The bounded queues of the repository: the contract they share (a blocking FIFO queue with a
  capacity that can be closed), the three C++ classes
  (\<open>BoundedQueue\<close>, \<open>Queue\<close>, \<open>BQ\<close>) and the C ring buffer \<open>queue_t\<close>, and the proofs that each
  meets the contract.
\<close>

subsection \<open>The contract\<close>

text \<open>
  \<open>e\<close> is the condition variable for "not empty", \<open>f\<close> the one for "not full". \<open>contents\<close> is the
  abstraction: the queued values in the order in which they will be popped. A push succeeds
  (as \<open>ok\<close> of its result says) unless the queue is closed.
\<close>

locale blocking_queue =
  fixes invar :: "'q \<Rightarrow> bool" and contents :: "'q \<Rightarrow> 'a list" and cap :: "'q \<Rightarrow> nat" and shut :: "'q \<Rightarrow> bool"
    and push :: "'a \<Rightarrow> ('q, 'r) meth" and pop :: "('q, 'b) meth" and got :: "'b \<Rightarrow> 'a option"
    and m e f :: nat
  assumes push_waits: "\<exists>p. waits (push x) = Some (f, p) \<and> (\<forall>q. invar q \<longrightarrow> p q = (shut q \<or> length (contents q) < cap q))"
    and push_mtx: "mtx (push x) = m"
    and push_open: "invar q \<Longrightarrow> \<not> shut q \<Longrightarrow> length (contents q) < cap q \<Longrightarrow> body (push x) q = (q', r, pre, post) \<Longrightarrow>
      invar q' \<and> contents q' = contents q @ [x] \<and> cap q' = cap q \<and> shut q' = shut q \<and> pre @ post = [NotifyOne e]"
    and push_closed: "invar q \<Longrightarrow> shut q \<Longrightarrow> body (push x) q = (q', r, pre, post) \<Longrightarrow> q' = q \<and> pre @ post = []"
    and pop_waits: "\<exists>p. waits pop = Some (e, p) \<and> (\<forall>q. invar q \<longrightarrow> p q = (shut q \<or> contents q \<noteq> []))"
    and pop_mtx: "mtx pop = m"
    and pop_some: "invar q \<Longrightarrow> contents q = x # xs \<Longrightarrow> body pop q = (q', b, pre, post) \<Longrightarrow>
      invar q' \<and> got b = Some x \<and> contents q' = xs \<and> cap q' = cap q \<and> shut q' = shut q \<and> pre @ post = [NotifyOne f]"
    and pop_none: "invar q \<Longrightarrow> shut q \<Longrightarrow> contents q = [] \<Longrightarrow> body pop q = (q', b, pre, post) \<Longrightarrow>
      got b = None \<and> q' = q \<and> pre @ post = []"
    and cvs: "e \<noteq> f"
    and bounded: "invar q \<Longrightarrow> length (contents q) \<le> cap q"

locale closable_queue = blocking_queue invar contents cap shut push pop got m e f
  for invar :: "'q \<Rightarrow> bool" and contents :: "'q \<Rightarrow> 'a list" and cap shut
    and push :: "'a \<Rightarrow> ('q, 'r) meth" and pop :: "('q, 'b) meth" and got m e f +
  fixes close :: "('q, unit) meth"
  assumes close_waits: "waits close = None" and close_mtx: "mtx close = m"
    and close_body: "invar q \<Longrightarrow> body close q = (q', u, pre, post) \<Longrightarrow>
      invar q' \<and> shut q' \<and> contents q' = contents q \<and> cap q' = cap q \<and> pre @ post = [NotifyAll e, NotifyAll f]"

text \<open>How many consumers, and how many producers, could proceed.\<close>

definition avail_pop :: "('q \<Rightarrow> 'a list) \<Rightarrow> ('q \<Rightarrow> bool) \<Rightarrow> 'q \<Rightarrow> enat" where
  "avail_pop contents shut q = (if shut q then \<infinity> else enat (length (contents q)))"

definition avail_push :: "('q \<Rightarrow> 'a list) \<Rightarrow> ('q \<Rightarrow> nat) \<Rightarrow> ('q \<Rightarrow> bool) \<Rightarrow> 'q \<Rightarrow> enat" where
  "avail_push contents cap shut q = (if shut q then \<infinity> else enat (cap q - length (contents q)))"

context blocking_queue
begin

lemma push_enabled: "invar q \<Longrightarrow> enabled (push x) q \<longleftrightarrow> shut q \<or> length (contents q) < cap q"
  using push_waits [of x] by (auto simp: enabled_def)

lemma pop_enabled: "invar q \<Longrightarrow> enabled pop q \<longleftrightarrow> shut q \<or> contents q \<noteq> []"
  using pop_waits by (auto simp: enabled_def)

lemma push_cases:
  assumes "invar q" "enabled (push x) q" "body (push x) q = (q', r, pre, post)"
  obtains "shut q" "q' = q" "pre @ post = []"
  | "\<not> shut q" "length (contents q) < cap q" "invar q'" "contents q' = contents q @ [x]" "cap q' = cap q" "\<not> shut q'"
    "pre @ post = [NotifyOne e]"
  using assms push_open [OF assms(1) _ _ assms(3)] push_closed [OF assms(1) _ assms(3)] push_enabled [OF assms(1)]
  by metis

lemma pop_cases:
  assumes "invar q" "enabled pop q" "body pop q = (q', b, pre, post)"
  obtains "shut q" "contents q = []" "q' = q" "got b = None" "pre @ post = []"
  | x where "contents q = x # contents q'" "got b = Some x" "invar q'" "cap q' = cap q" "shut q' = shut q"
    "pre @ post = [NotifyOne f]"
proof (cases "contents q")
  case Nil
  then show thesis using assms pop_none [OF assms(1) _ Nil assms(3)] pop_enabled [OF assms(1)] that(1) by auto
next
  case (Cons x xs)
  then show thesis using pop_some [OF assms(1) Cons assms(3)] that(2) by auto
qed

text \<open>Every operation keeps the invariant and the capacity.\<close>

lemma push_invar:
  assumes "invar q" "enabled (push x) q" "body (push x) q = (q', r, pre, post)"
  shows "invar q' \<and> cap q' = cap q"
  by (rule push_cases [OF assms]) (use assms(1) in auto)

lemma pop_invar:
  assumes "invar q" "enabled pop q" "body pop q = (q', b, pre, post)"
  shows "invar q' \<and> cap q' = cap q"
  by (rule pop_cases [OF assms]) (use assms(1) in auto)

text \<open>The accounting that makes \<open>notify_one\<close> sufficient.\<close>

lemma avail_pop_enabled: "invar q \<Longrightarrow> enabled pop q \<longleftrightarrow> avail_pop contents shut q \<noteq> 0"
  by (auto simp: pop_enabled avail_pop_def zero_enat_def)

lemma avail_push_enabled: "invar q \<Longrightarrow> enabled (push x) q \<longleftrightarrow> avail_push contents cap shut q \<noteq> 0"
  by (auto simp: push_enabled avail_push_def zero_enat_def)

lemma push_gives:
  assumes "invar q" "enabled (push x) q" "body (push x) q = (q', r, pre, post)"
  shows "avail_pop contents shut q' \<le> avail_pop contents shut q + enat (count_list (pre @ post) (NotifyOne e))"
  by (rule push_cases [OF assms]) (auto simp: avail_pop_def simp del: count_list_append append_is_Nil_conv)

lemma pop_gives:
  assumes "invar q" "enabled pop q" "body pop q = (q', b, pre, post)"
  shows "avail_push contents cap shut q' \<le> avail_push contents cap shut q + enat (count_list (pre @ post) (NotifyOne f))"
  by (rule pop_cases [OF assms]) (auto simp: avail_push_def simp del: count_list_append append_is_Nil_conv)

lemma push_takes:
  assumes "invar q" "enabled (push x) q" "body (push x) q = (q', r, pre, post)"
  shows "avail_push contents cap shut q' + 1 \<le> avail_push contents cap shut q + enat (count_list (pre @ post) (NotifyOne f))"
  by (rule push_cases [OF assms])
    (use cvs in \<open>auto simp: avail_push_def one_enat_def simp del: count_list_append append_is_Nil_conv\<close>)

lemma pop_takes:
  assumes "invar q" "enabled pop q" "body pop q = (q', b, pre, post)"
  shows "avail_pop contents shut q' + 1 \<le> avail_pop contents shut q + enat (count_list (pre @ post) (NotifyOne e))"
  by (rule pop_cases [OF assms])
    (use cvs in \<open>auto simp: avail_pop_def one_enat_def simp del: count_list_append append_is_Nil_conv\<close>)

end

context closable_queue
begin

lemma close_gives:
  assumes "invar q" "body close q = (q', u, pre, post)"
  shows "NotifyAll e \<in> set (pre @ post)" "NotifyAll f \<in> set (pre @ post)"
  using close_body [OF assms] by auto

end

subsection \<open>Programs that use a queue\<close>

text \<open>
  How a statement of a program may touch the queue in field \<open>get\<close>: by a call of \<open>push\<close> or \<open>pop\<close>, or
  by an operation that does not wait on the queue's condition variables and either leaves the
  queue alone or wakes everybody (as \<open>close\<close> does).
\<close>

definition queue_stmt :: "('s \<Rightarrow> 'q) \<Rightarrow> (('q \<Rightarrow> 'q) \<Rightarrow> 's \<Rightarrow> 's) \<Rightarrow> ('a \<Rightarrow> ('q, 'r) meth) \<Rightarrow> ('q, 'b) meth \<Rightarrow> nat \<Rightarrow> nat
    \<Rightarrow> ('s, 'l) stmt \<Rightarrow> bool" where
  "queue_stmt get upd push pop e f st \<longleftrightarrow> (\<exists>x k. st = call get upd (push x) k) \<or> (\<exists>k. st = call get upd pop k) \<or>
     cv_of st \<noteq> Some e \<and> cv_of st \<noteq> Some f \<and>
     (\<forall>g. st = Act g \<longrightarrow> (\<forall>s s' l'. (s', l') \<in> set (g s) \<longrightarrow> get s' = get s)) \<and>
     (\<forall>n w b s s' l' pre post. st = Monitor n w b \<longrightarrow> b s = (s', l', pre, post) \<longrightarrow>
        get s' = get s \<or> NotifyAll e \<in> set (pre @ post) \<and> NotifyAll f \<in> set (pre @ post))"

named_theorems queue_stmt_intros

lemma queue_stmt_push [queue_stmt_intros]: "queue_stmt get upd push pop e f (call get upd (push x) k)"
  by (auto simp: queue_stmt_def)

lemma queue_stmt_pop [queue_stmt_intros]: "queue_stmt get upd push pop e f (call get upd pop k)"
  by (auto simp: queue_stmt_def)

lemma queue_stmt_Fin [queue_stmt_intros]: "queue_stmt get upd push pop e f Fin"
  by (simp add: queue_stmt_def)

lemma queue_stmt_Act [queue_stmt_intros]:
  "\<forall>s. \<forall>(s', l')\<in>set (g s). get s' = get s \<Longrightarrow> queue_stmt get upd push pop e f (Act g)"
  by (force simp: queue_stmt_def)

lemma queue_stmt_close:
  assumes "waits close = None"
    and "\<And>q q' u pre post. body close q = (q', u, pre, post) \<Longrightarrow> NotifyAll e \<in> set (pre @ post) \<and> NotifyAll f \<in> set (pre @ post)"
  shows "queue_stmt get upd push pop e f (call get upd close k)"
proof -
  have "NotifyAll e \<in> set (pre @ post) \<and> NotifyAll f \<in> set (pre @ post)"
    if "call get upd close k = Monitor n w b" "b s = (s', l', pre, post)" for n w b s s' l' pre post
    by (rule call_body [OF that]) (rule assms(2))
  then show ?thesis using assms(1) by (auto simp: queue_stmt_def)
qed

lemma queue_stmt_other:
  assumes "cv_of (call get' upd' mt k) \<noteq> Some e" "cv_of (call get' upd' mt k) \<noteq> Some f"
    and "\<forall>q s. get (upd' (\<lambda>_. q) s) = get s"
  shows "queue_stmt get upd push pop e f (call get' upd' mt k)"
proof -
  have "get s' = get s" if "call get' upd' mt k = Monitor n w b" "b s = (s', l', pre, post)" for n w b s s' l' pre post
    by (rule call_body [OF that]) (simp add: assms(3))
  then show ?thesis using assms(1,2) by (simp add: queue_stmt_def)
qed

text \<open>
  A program whose statements all do so, with an invariant that includes the one of the queue.
  Both condition variables of the queue are then signalled often enough.
\<close>

locale queue_client =
  monitor_invariant P s0 ls0 I + blocking_queue invar contents cap shut push pop got m e f
  for P :: "('s, 'l) prog" and s0 ls0 I
    and invar :: "'q \<Rightarrow> bool" and contents :: "'q \<Rightarrow> 'a list" and cap shut
    and push :: "'a \<Rightarrow> ('q, 'r) meth" and pop :: "('q, 'b) meth" and got m e f +
  fixes get :: "'s \<Rightarrow> 'q" and upd :: "('q \<Rightarrow> 'q) \<Rightarrow> 's \<Rightarrow> 's"
  assumes get_upd: "get (upd (\<lambda>_. q) s) = q"
    and I_invar: "I s ls \<Longrightarrow> invar (get s)"
    and client_stmt: "I s ls \<Longrightarrow> i < length ls \<Longrightarrow> queue_stmt get upd push pop e f (P i (ls ! i))"
begin

lemma cv_push: "cv_of (call get upd (push x) k) = Some f"
  using push_waits [of x] by auto

lemma cv_pop: "cv_of (call get upd pop k) = Some e"
  using pop_waits by auto

lemma client_cases [consumes 3, case_names push pop other]:
  assumes "I s ls" "i < length ls" "P i (ls ! i) = Monitor n w b"
  obtains (push) x k where "call get upd (push x) k = Monitor n w b"
  | (pop) k where "call get upd pop k = Monitor n w b"
  | (other) "cv_of (Monitor n w b) \<noteq> Some e" "cv_of (Monitor n w b) \<noteq> Some f"
      "\<And>s' l' pre post. b s = (s', l', pre, post) \<Longrightarrow>
        get s' = get s \<or> NotifyAll e \<in> set (pre @ post) \<and> NotifyAll f \<in> set (pre @ post)"
  using client_stmt [OF assms(1,2)] assms(3) unfolding queue_stmt_def by metis

lemma client_act: "I s ls \<Longrightarrow> i < length ls \<Longrightarrow> P i (ls ! i) = Act g \<Longrightarrow> (s', l') \<in> set (g s) \<Longrightarrow> get s' = get s"
  using client_stmt [of s ls i] unfolding queue_stmt_def by (metis call_neq(2))

lemma waits_pop:
  assumes "I s ls" "i < length ls" "P i (ls ! i) = Monitor n (Some (e, p)) b"
  obtains k where "call get upd pop k = Monitor n (Some (e, p)) b"
  using assms
proof (cases rule: client_cases)
  case (push x k)
  then have "Some f = Some e" using cv_push [of x k] by simp
  then show ?thesis using cvs by simp
qed (use that in simp_all)

lemma waits_push:
  assumes "I s ls" "i < length ls" "P i (ls ! i) = Monitor n (Some (f, p)) b"
  obtains x k where "call get upd (push x) k = Monitor n (Some (f, p)) b"
  using assms
proof (cases rule: client_cases)
  case (pop k)
  then have "Some e = Some f" using cv_pop [of k] by simp
  then show ?thesis using cvs by simp
qed (use that in simp_all)

end

sublocale queue_client \<subseteq> not_empty: signalled P s0 ls0 I e "\<lambda>s. avail_pop contents shut (get s)"
proof
  fix s ls i n p b assume a: "I s ls" "i < length ls" "P i (ls ! i) = Monitor n (Some (e, p)) b"
  note q = I_invar [OF a(1)]
  obtain k where c: "call get upd pop k = Monitor n (Some (e, p)) b" using a by (rule waits_pop)
  note r = call_ready [OF c, of s, unfolded ready_simps]
  then show "p s \<longleftrightarrow> avail_pop contents shut (get s) \<noteq> 0" using avail_pop_enabled [OF q] by simp
  fix s' l' pre post assume "p s" "b s = (s', l', pre, post)"
  with r show "NotifyAll e \<in> set (pre @ post) \<or>
      avail_pop contents shut (get s') + 1 \<le> avail_pop contents shut (get s) + enat (count_list (pre @ post) (NotifyOne e))"
    by (intro disjI2, elim call_body [OF c]) (simp add: get_upd pop_takes [OF q] del: count_list_append)
next
  fix s ls i n w b s' l' pre post
  assume a: "I s ls" "i < length ls" "P i (ls ! i) = Monitor n w b" "cv_of (P i (ls ! i)) \<noteq> Some e" "ready w s"
    and b: "b s = (s', l', pre, post)"
  note q = I_invar [OF a(1)]
  from a(1-3) show "NotifyAll e \<in> set (pre @ post) \<or>
      avail_pop contents shut (get s') \<le> avail_pop contents shut (get s) + enat (count_list (pre @ post) (NotifyOne e))"
  proof (cases rule: client_cases)
    case (push x k)
    show ?thesis
      by (rule call_body [OF push b], rule disjI2)
        (use a(5) call_ready [OF push, of s] in \<open>simp add: get_upd push_gives [OF q] del: count_list_append\<close>)
  next
    case (pop k)
    then show ?thesis using a(3,4) cv_pop [of k] by simp
  next
    case other
    then show ?thesis using other(3) [OF b] by auto
  qed
qed (auto dest: client_act)

sublocale queue_client \<subseteq> not_full: signalled P s0 ls0 I f "\<lambda>s. avail_push contents cap shut (get s)"
proof
  fix s ls i n p b assume a: "I s ls" "i < length ls" "P i (ls ! i) = Monitor n (Some (f, p)) b"
  note q = I_invar [OF a(1)]
  obtain x k where c: "call get upd (push x) k = Monitor n (Some (f, p)) b" using a by (rule waits_push)
  note r = call_ready [OF c, of s, unfolded ready_simps]
  then show "p s \<longleftrightarrow> avail_push contents cap shut (get s) \<noteq> 0" using avail_push_enabled [OF q] by simp
  fix s' l' pre post assume "p s" "b s = (s', l', pre, post)"
  with r show "NotifyAll f \<in> set (pre @ post) \<or>
      avail_push contents cap shut (get s') + 1 \<le> avail_push contents cap shut (get s) + enat (count_list (pre @ post) (NotifyOne f))"
    by (intro disjI2, elim call_body [OF c]) (simp add: get_upd push_takes [OF q] del: count_list_append)
next
  fix s ls i n w b s' l' pre post
  assume a: "I s ls" "i < length ls" "P i (ls ! i) = Monitor n w b" "cv_of (P i (ls ! i)) \<noteq> Some f" "ready w s"
    and b: "b s = (s', l', pre, post)"
  note q = I_invar [OF a(1)]
  from a(1-3) show "NotifyAll f \<in> set (pre @ post) \<or>
      avail_push contents cap shut (get s') \<le> avail_push contents cap shut (get s) + enat (count_list (pre @ post) (NotifyOne f))"
  proof (cases rule: client_cases)
    case (push x k)
    then show ?thesis using a(3,4) cv_push [of x k] by simp
  next
    case (pop k)
    show ?thesis
      by (rule call_body [OF pop b], rule disjI2)
        (use a(5) call_ready [OF pop, of s] in \<open>simp add: get_upd pop_gives [OF q] del: count_list_append\<close>)
  next
    case other
    then show ?thesis using other(3) [OF b] by auto
  qed
qed (auto dest: client_act)

context queue_client
begin

text \<open>Who sleeps when nothing moves, sleeps for a reason.\<close>

lemma stuck_pop:
  assumes r: "reach (step P) (start s0 ls0) c" "stuck P c" "i < length (thr c)"
    and l: "thr c ! i = Asleep l" "P i l = call get upd pop k"
  shows "\<not> shut (get (shared c))" "contents (get (shared c)) = []"
proof -
  obtain p where p: "waits pop = Some (e, p)" using pop_waits by blast
  then have "P i l = Monitor m (Some (e, \<lambda>s. p (get s))) (\<lambda>s. case body pop (get s) of (q, r, pre, post) \<Rightarrow> (upd (\<lambda>_. q) s, k r, pre, post))"
    using l(2) by (simp add: call_Monitor pop_mtx)
  from not_empty.no_lost_wakeup [OF r l(1) this] have "\<not> enabled pop (get (shared c))"
    using p by (simp add: enabled_def)
  then show "\<not> shut (get (shared c))" "contents (get (shared c)) = []"
    using pop_enabled [OF I_invar [OF I_reach [OF r(1)]]] by auto
qed

lemma stuck_push:
  assumes r: "reach (step P) (start s0 ls0) c" "stuck P c" "i < length (thr c)"
    and l: "thr c ! i = Asleep l" "P i l = call get upd (push x) k"
  shows "\<not> shut (get (shared c))" "length (contents (get (shared c))) = cap (get (shared c))"
proof -
  obtain p where p: "waits (push x) = Some (f, p)" using push_waits by blast
  then have "P i l = Monitor m (Some (f, \<lambda>s. p (get s))) (\<lambda>s. case body (push x) (get s) of (q, r, pre, post) \<Rightarrow> (upd (\<lambda>_. q) s, k r, pre, post))"
    using l(2) by (simp add: call_Monitor push_mtx)
  from not_full.no_lost_wakeup [OF r l(1) this] have "\<not> enabled (push x) (get (shared c))"
    using p by (simp add: enabled_def)
  then show "\<not> shut (get (shared c))" "length (contents (get (shared c))) = cap (get (shared c))"
    using push_enabled [OF I_invar [OF I_reach [OF r(1)]]] bounded [OF I_invar [OF I_reach [OF r(1)]]] by fastforce+
qed

end

subsection \<open>The class BoundedQueue\<close>

text \<open>
  \<open>examples/02_cpp11_threads/03_condition_variables/02_producer_consumer.cpp\<close>. The object's
  mutex \<open>m_\<close> and its condition variables \<open>not_full_\<close> and \<open>not_empty_\<close> are numbered by the
  object. \<open>push\<close> and \<open>pop\<close> unlock before they notify.
\<close>

record 'a BoundedQueue =
  bq_q :: "'a list"
  bq_cap :: nat
  bq_done :: bool

definition bq_new :: "nat \<Rightarrow> 'a BoundedQueue" where
  "bq_new cap = \<lparr>bq_q = [], bq_cap = cap, bq_done = False\<rparr>"

definition bq_push :: "nat \<Rightarrow> nat \<Rightarrow> nat \<Rightarrow> 'a \<Rightarrow> ('a BoundedQueue, unit) meth" where
  "bq_push m not_full not_empty v = \<lparr>mtx = m,
     waits = Some (not_full, \<lambda>q. length (bq_q q) < bq_cap q \<or> bq_done q),
     body = (\<lambda>q. if bq_done q then (q, (), [], [])
       else (q\<lparr>bq_q := bq_q q @ [v]\<rparr>, (), [], [NotifyOne not_empty]))\<rparr>"

definition bq_pop :: "nat \<Rightarrow> nat \<Rightarrow> nat \<Rightarrow> ('a BoundedQueue, 'a option) meth" where
  "bq_pop m not_full not_empty = \<lparr>mtx = m,
     waits = Some (not_empty, \<lambda>q. bq_q q \<noteq> [] \<or> bq_done q),
     body = (\<lambda>q. case bq_q q of
         [] \<Rightarrow> (q, None, [], [])
       | v # vs \<Rightarrow> (q\<lparr>bq_q := vs\<rparr>, Some v, [], [NotifyOne not_full]))\<rparr>"

definition bq_close :: "nat \<Rightarrow> nat \<Rightarrow> nat \<Rightarrow> ('a BoundedQueue, unit) meth" where
  "bq_close m not_full not_empty = \<lparr>mtx = m, waits = None,
     body = (\<lambda>q. (q\<lparr>bq_done := True\<rparr>, (), [], [NotifyAll not_empty, NotifyAll not_full]))\<rparr>"

definition bq_invar :: "'a BoundedQueue \<Rightarrow> bool" where
  "bq_invar q \<longleftrightarrow> length (bq_q q) \<le> bq_cap q"

lemma bq_closable:
  "e \<noteq> f \<Longrightarrow> closable_queue bq_invar bq_q bq_cap bq_done (bq_push m f e) (bq_pop m f e) (\<lambda>r. r) m e f (bq_close m f e)"
  by unfold_locales (auto simp: bq_push_def bq_pop_def bq_close_def bq_invar_def)

interpretation bq: closable_queue bq_invar bq_q bq_cap bq_done "bq_push 0 1 2" "bq_pop 0 1 2" "\<lambda>r. r" 0 2 1 "bq_close 0 1 2"
  by (rule bq_closable) simp

subsection \<open>The class Queue\<close>

text \<open>
  \<open>examples/03_patterns/02_producer_consumer.cpp\<close>. \<open>push\<close> reports whether the value was
  queued; \<open>push\<close> and \<open>pop\<close> notify while they hold the mutex.
\<close>

record 'a Queue =
  pq_q :: "'a list"
  pq_cap :: nat
  pq_closed :: bool

definition pq_new :: "nat \<Rightarrow> 'a Queue" where
  "pq_new cap = \<lparr>pq_q = [], pq_cap = cap, pq_closed = False\<rparr>"

definition pq_push :: "nat \<Rightarrow> nat \<Rightarrow> nat \<Rightarrow> 'a \<Rightarrow> ('a Queue, bool) meth" where
  "pq_push m cv_full cv_empty v = \<lparr>mtx = m,
     waits = Some (cv_full, \<lambda>q. pq_closed q \<or> length (pq_q q) < pq_cap q),
     body = (\<lambda>q. if pq_closed q then (q, False, [], [])
       else (q\<lparr>pq_q := pq_q q @ [v]\<rparr>, True, [NotifyOne cv_empty], []))\<rparr>"

definition pq_pop :: "nat \<Rightarrow> nat \<Rightarrow> nat \<Rightarrow> ('a Queue, 'a option) meth" where
  "pq_pop m cv_full cv_empty = \<lparr>mtx = m,
     waits = Some (cv_empty, \<lambda>q. pq_closed q \<or> pq_q q \<noteq> []),
     body = (\<lambda>q. case pq_q q of
         [] \<Rightarrow> (q, None, [], [])
       | v # vs \<Rightarrow> (q\<lparr>pq_q := vs\<rparr>, Some v, [NotifyOne cv_full], []))\<rparr>"

definition pq_close :: "nat \<Rightarrow> nat \<Rightarrow> nat \<Rightarrow> ('a Queue, unit) meth" where
  "pq_close m cv_full cv_empty = \<lparr>mtx = m, waits = None,
     body = (\<lambda>q. (q\<lparr>pq_closed := True\<rparr>, (), [], [NotifyAll cv_empty, NotifyAll cv_full]))\<rparr>"

definition pq_invar :: "'a Queue \<Rightarrow> bool" where
  "pq_invar q \<longleftrightarrow> length (pq_q q) \<le> pq_cap q"

lemma pq_closable:
  "e \<noteq> f \<Longrightarrow> closable_queue pq_invar pq_q pq_cap pq_closed (pq_push m f e) (pq_pop m f e) (\<lambda>r. r) m e f (pq_close m f e)"
  by unfold_locales (auto simp: pq_push_def pq_pop_def pq_close_def pq_invar_def)

interpretation pq: closable_queue pq_invar pq_q pq_cap pq_closed "pq_push 0 1 2" "pq_pop 0 1 2" "\<lambda>r. r" 0 2 1 "pq_close 0 1 2"
  by (rule pq_closable) simp

subsection \<open>The class BQ\<close>

text \<open>\<open>examples/03_patterns/06_pipeline.cpp\<close>: the queue between two stages of the pipeline.\<close>

record 'a BQ =
  st_q :: "'a list"
  st_cap :: nat
  st_closed :: bool

definition st_new :: "nat \<Rightarrow> 'a BQ" where
  "st_new cap = \<lparr>st_q = [], st_cap = cap, st_closed = False\<rparr>"

definition st_push :: "nat \<Rightarrow> nat \<Rightarrow> nat \<Rightarrow> 'a \<Rightarrow> ('a BQ, unit) meth" where
  "st_push m cv_full cv_empty v = \<lparr>mtx = m,
     waits = Some (cv_full, \<lambda>q. length (st_q q) < st_cap q \<or> st_closed q),
     body = (\<lambda>q. if st_closed q then (q, (), [], [])
       else (q\<lparr>st_q := st_q q @ [v]\<rparr>, (), [NotifyOne cv_empty], []))\<rparr>"

definition st_pop :: "nat \<Rightarrow> nat \<Rightarrow> nat \<Rightarrow> ('a BQ, 'a option) meth" where
  "st_pop m cv_full cv_empty = \<lparr>mtx = m,
     waits = Some (cv_empty, \<lambda>q. st_q q \<noteq> [] \<or> st_closed q),
     body = (\<lambda>q. case st_q q of
         [] \<Rightarrow> (q, None, [], [])
       | v # vs \<Rightarrow> (q\<lparr>st_q := vs\<rparr>, Some v, [NotifyOne cv_full], []))\<rparr>"

definition st_close :: "nat \<Rightarrow> nat \<Rightarrow> nat \<Rightarrow> ('a BQ, unit) meth" where
  "st_close m cv_full cv_empty = \<lparr>mtx = m, waits = None,
     body = (\<lambda>q. (q\<lparr>st_closed := True\<rparr>, (), [], [NotifyAll cv_empty, NotifyAll cv_full]))\<rparr>"

definition st_invar :: "'a BQ \<Rightarrow> bool" where
  "st_invar q \<longleftrightarrow> length (st_q q) \<le> st_cap q"

lemma st_closable:
  "e \<noteq> f \<Longrightarrow> closable_queue st_invar st_q st_cap st_closed (st_push m f e) (st_pop m f e) (\<lambda>r. r) m e f (st_close m f e)"
  by unfold_locales (auto simp: st_push_def st_pop_def st_close_def st_invar_def)

text \<open>The three queues of the pipeline, with their mutexes and condition variables.\<close>

interpretation st1: closable_queue st_invar st_q st_cap st_closed "st_push 0 0 1" "st_pop 0 0 1" "\<lambda>r. r" 0 1 0 "st_close 0 0 1"
  by (rule st_closable) simp

interpretation st2: closable_queue st_invar st_q st_cap st_closed "st_push 1 2 3" "st_pop 1 2 3" "\<lambda>r. r" 1 3 2 "st_close 1 2 3"
  by (rule st_closable) simp

interpretation st3: closable_queue st_invar st_q st_cap st_closed "st_push 2 4 5" "st_pop 2 4 5" "\<lambda>r. r" 2 5 4 "st_close 2 4 5"
  by (rule st_closable) simp

end
