(* ===== verification/Progress.thy ===== *)
theory Progress
  imports Threads
begin

text \<open>
  Termination of threaded programs. A program whose atomic steps lower a potential makes, under
  every schedule, a bounded number of steps: locking, going to sleep, being woken and sending
  notifications cost only as much as the atomic steps pay for. Spurious wake-ups, which the
  library may deliver at any time, add three steps each.
\<close>

text \<open>
  The steps the machine still owes in a phase, besides atomic steps; \<open>n\<close> is the number of
  threads, each of which a notification may wake.
\<close>

fun owed :: "nat \<Rightarrow> ('s, 'l) prog \<Rightarrow> (nat \<Rightarrow> nat list) \<Rightarrow> nat \<Rightarrow> 'l phase \<Rightarrow> nat" where
  "owed n P sl i (At l) = 2"
| "owed n P sl i (In l) = 1"
| "owed n P sl i (Asleep l) = (case cv_of (P i l) of None \<Rightarrow> 0 | Some v \<Rightarrow> if i \<in> set (sl v) then 0 else 3)"
| "owed n P sl i (Out l m pre post) = 4 + (length pre + length post) * (3 * n + 1)"
| "owed n P sl i (Post l ns) = 3 + length ns * (3 * n + 1)"

lemma owed_leave_less: "owed n P sl i (leave l ns) < 4 + length ns * (3 * n + 1)"
  by (simp add: leave_def)

definition total_owed :: "('s, 'l) prog \<Rightarrow> ('s, 'l) cfg \<Rightarrow> nat" where
  "total_owed P c = (\<Sum>i<length (thr c). owed (length (thr c)) P (sleepers c) i (thr c ! i))"

lemma total_owed_keep:
  assumes i: "i < length (thr c)" "thr d = (thr c)[i := p]"
    and sl: "\<And>j v. j \<noteq> i \<Longrightarrow> j \<in> set (sleepers c v) \<Longrightarrow> j \<in> set (sleepers d v)"
  shows "total_owed P d + owed (length (thr c)) P (sleepers c) i (thr c ! i)
    \<le> total_owed P c + owed (length (thr c)) P (sleepers d) i p"
proof -
  let ?n = "length (thr c)"
  have "owed ?n P (sleepers d) j (thr d ! j) \<le> owed ?n P (sleepers c) j (thr c ! j)" if "j \<noteq> i" for j
    using i that sl [OF that] by (cases "thr c ! j") (auto split: option.splits)
  then show ?thesis
    using sum_less_upd [OF i(1), of "\<lambda>j. owed ?n P (sleepers d) j (thr d ! j)" "\<lambda>j. owed ?n P (sleepers c) j (thr c ! j)"] i
    by (simp add: total_owed_def)
qed

text \<open>A notification wakes at most \<open>n\<close> threads, which owe three steps each.\<close>

lemma total_owed_wake:
  assumes i: "i < length (thr c)" "\<And>l. thr c ! i \<noteq> Asleep l" "\<And>l. p \<noteq> Asleep l" "thr d = (thr c)[i := p]"
  shows "total_owed P d + owed (length (thr c)) P (sleepers c) i (thr c ! i)
    \<le> total_owed P c + owed (length (thr c)) P (sleepers d) i p + 3 * length (thr c)"
proof -
  let ?n = "length (thr c)"
  have "owed ?n P (sleepers d) j (thr d ! j) \<le> owed ?n P (sleepers c) j (thr c ! j) + 3" if "j \<noteq> i" for j
    using i that by (cases "thr c ! j") (auto split: option.splits)
  then have "(\<Sum>j<?n. owed ?n P (sleepers d) j (thr d ! j)) + (owed ?n P (sleepers c) i (thr c ! i) + 3)
     \<le> (\<Sum>j<?n. owed ?n P (sleepers c) j (thr c ! j) + 3) + owed ?n P (sleepers d) i (thr d ! i)"
    using i(1) by (intro sum_less_upd) auto
  then show ?thesis using i by (simp add: total_owed_def sum.distrib)
qed

lemma total_owed_notify:
  assumes i: "i < length (thr c)" "\<And>l. thr c ! i \<noteq> Asleep l" "\<And>l. p \<noteq> Asleep l" "thr d = (thr c)[i := p]"
    and less: "owed (length (thr c)) P (sleepers d) i p + 3 * length (thr c) < owed (length (thr c)) P (sleepers c) i (thr c ! i)"
  shows "total_owed P d < total_owed P c"
  using total_owed_wake [OF i, of P] less by simp

lemma total_owed_less:
  assumes i: "i < length (thr c)" "thr d = (thr c)[i := p]"
    and sl: "\<And>j v. j \<noteq> i \<Longrightarrow> j \<in> set (sleepers c v) \<Longrightarrow> j \<in> set (sleepers d v)"
    and less: "owed (length (thr c)) P (sleepers d) i p < owed (length (thr c)) P (sleepers c) i (thr c ! i)"
  shows "total_owed P d < total_owed P c"
  using total_owed_keep [OF i sl, of P] less by simp

text \<open>Steps that are not atomic steps of the program.\<close>

definition spurs :: "(nat \<times> choice) list \<Rightarrow> nat" where
  "spurs es = length (filter (\<lambda>e. snd e = Spur) es)"

lemma spurs_simps [simp]: "spurs [] = 0" "spurs (e # es) = (if snd e = Spur then Suc (spurs es) else spurs es)"
  by (simp_all add: spurs_def)

locale terminating = monitor_invariant P s0 ls0 I
  for P :: "('s, 'l) prog" and s0 ls0 I +
  fixes pot :: "'s \<Rightarrow> 'l list \<Rightarrow> nat" and D :: nat
  assumes pot_step: "I s ls \<Longrightarrow> i < length ls \<Longrightarrow> (s', l') \<in> set (effects (P i (ls ! i)) s) \<Longrightarrow> pot s' (ls[i := l']) < pot s ls"
    and few_notes: "I s ls \<Longrightarrow> i < length ls \<Longrightarrow> P i (ls ! i) = Monitor m w b \<Longrightarrow> ready w s \<Longrightarrow>
      b s = (s', l', pre, post) \<Longrightarrow> length pre + length post \<le> D"
begin

definition fee :: "nat \<Rightarrow> nat" where
  "fee n = 4 + D * (3 * n + 1)"

definition budget :: "('s, 'l) cfg \<Rightarrow> nat" where
  "budget c = fee (length (thr c)) * pot (shared c) (locs c) + total_owed P c"

lemma budget_other:
  assumes "shared d = shared c" "locs d = locs c" "total_owed P d < total_owed P c"
  shows "budget d < budget c"
proof -
  have "length (thr d) = length (thr c)" using assms(2) by (metis length_locs)
  with assms show ?thesis by (simp add: budget_def)
qed

lemma budget_atomic:
  assumes "pot (shared d) (locs d) < pot (shared c) (locs c)" "length (thr d) = length (thr c)"
    and "total_owed P d < total_owed P c + fee (length (thr c))"
  shows "budget d < budget c"
proof -
  have "fee (length (thr c)) * Suc (pot (shared d) (locs d)) \<le> fee (length (thr c)) * pot (shared c) (locs c)"
    using assms(1) by (intro mult_le_mono2) simp
  then show ?thesis using assms by (simp add: budget_def)
qed

lemma budget_step:
  assumes I: "I (shared c) (locs c)" and slp: "sleep_ok P c" and st: "step P c (i, ch) = Some c'"
  shows "ch \<noteq> Spur \<Longrightarrow> budget c' < budget c" "ch = Spur \<Longrightarrow> budget c' \<le> budget c + 2"
proof -
  note out = sleep_ok_not_asleep [OF slp]
  have "(ch \<noteq> Spur \<longrightarrow> budget c' < budget c) \<and> (ch = Spur \<longrightarrow> budget c' \<le> budget c + 2)"
    using st
  proof (cases rule: step_cases)
    case (act k l f s' l')
    have "total_owed P c' + 2 \<le> total_owed P c + 2"
      using total_owed_keep [of i c c' "At l'" P] act by simp
    moreover have "pot (shared c') (locs c') < pot (shared c) (locs c)"
      using pot_step [OF I, of i s' l'] act nth_mem_eq [OF act(4,5)] by simp
    ultimately have "budget c' < budget c" by (intro budget_atomic) (use act in \<open>auto simp: fee_def\<close>)
    then show ?thesis using act by simp
  next
    case (acquire l m w b)
    have "budget c' < budget c"
      by (intro budget_other total_owed_less [OF acquire(1)]) (use acquire in \<open>auto simp: locs_upd_same [where p = "At l", simplified]\<close>)
    then show ?thesis using st acquire by (cases ch) (auto simp: step_def)
  next
    case (body l m w b s' l' pre post)
    have ready: "ready w (shared c)" using body(4) by (auto simp: ready_def split: option.splits)
    then have D: "length pre + length post \<le> D" using few_notes [OF I, of i m w b s' l' pre post] body by simp
    from ready have "pot (shared c') (locs c') < pot (shared c) (locs c)"
      using pot_step [OF I, of i s' l'] body by simp
    moreover have "(length pre + length post) * (3 * length (thr c) + 1) \<le> D * (3 * length (thr c) + 1)"
      using D by (rule mult_le_mono1)
    then have "total_owed P c' < total_owed P c + fee (length (thr c))"
      using total_owed_keep [of i c c' "Out l' m pre post" P] body by (simp add: fee_def)
    ultimately have "budget c' < budget c" by (intro budget_atomic) (use body in auto)
    then show ?thesis using st body by (cases ch) (auto simp: step_def)
  next
    case (doze l m u p b)
    have "budget c' < budget c"
      by (intro budget_other total_owed_less [OF doze(1)]) (use doze in \<open>auto simp: locs_upd_same [where p = "In l", simplified]\<close>)
    then show ?thesis using st doze by (cases ch) (auto simp: step_def)
  next
    case (woken l m u p b)
    have "budget c' < budget c"
      by (intro budget_other total_owed_less [OF woken(1)]) (use woken in \<open>auto simp: locs_upd_same [where p = "Asleep l", simplified]\<close>)
    then show ?thesis using st woken by (cases ch) (auto simp: step_def step_asleep_def)
  next
    case (spurious l m u p b)
    have spur: "j \<noteq> i \<Longrightarrow> j \<in> set (sleepers c v) \<Longrightarrow> j \<in> set (sleepers c' v)" for j v
      using spurious by auto
    have "total_owed P c' \<le> total_owed P c + 2"
    proof -
      have "total_owed P c' + 0 \<le> total_owed P c + 2"
        using total_owed_keep [OF spurious(1), of c' "At l" P, OF _ spur] spurious by simp
      then show ?thesis by simp
    qed
    moreover have "locs c' = locs c" using spurious by (simp add: locs_upd_same [where p = "Asleep l", simplified])
    ultimately show ?thesis using spurious by (simp add: budget_def)
  next
    case (notify_in k l m n pre post)
    have "total_owed P c' < total_owed P c"
      by (rule total_owed_notify [OF notify_in(1)]) (use notify_in in auto)
    then have "budget c' < budget c"
      by (intro budget_other) (use notify_in in \<open>auto simp: locs_upd_same [where p = "Out l m (n # pre) post", simplified]\<close>)
    then show ?thesis using st notify_in by (cases ch) (auto simp: step_def)
  next
    case (unlock l m post)
    have "total_owed P c' < total_owed P c"
    proof (rule total_owed_less [OF unlock(1)])
      show "owed (length (thr c)) P (sleepers c') i (leave l post) < owed (length (thr c)) P (sleepers c) i (thr c ! i)"
        using unlock owed_leave_less [of "length (thr c)" P "sleepers c'" i l post] by simp
    qed (use unlock in auto)
    then have "budget c' < budget c"
      by (intro budget_other) (use unlock in \<open>auto simp: locs_upd_same [where p = "Out l m [] post", simplified]\<close>)
    then show ?thesis using st unlock by (cases ch) (auto simp: step_def)
  next
    case (notify_out k l ns ms)
    have "total_owed P c' < total_owed P c"
    proof (cases ns)
      case Nil
      show ?thesis by (rule total_owed_less [OF notify_out(1)]) (use notify_out Nil in \<open>auto simp: leave_def\<close>)
    next
      case (Cons n xs)
      show ?thesis
        by (rule total_owed_notify [OF notify_out(1)])
          (use notify_out Cons in \<open>auto simp: leave_def\<close>)
    qed
    then have "budget c' < budget c"
      by (intro budget_other) (use notify_out in \<open>auto simp: locs_upd_same [where p = "Post l ns", simplified]\<close>)
    then show ?thesis using st notify_out by (cases ch) (auto simp: step_def)
  qed
  then show "ch \<noteq> Spur \<Longrightarrow> budget c' < budget c" "ch = Spur \<Longrightarrow> budget c' \<le> budget c + 2" by auto
qed

lemma run_budget:
  assumes "reach (step P) (start s0 ls0) c" "run (step P) c es = Some c'"
  shows "budget c' + length es \<le> budget c + 3 * spurs es"
  using assms
proof (induction es arbitrary: c)
  case (Cons e es)
  then obtain d where d: "step P c e = Some d" "run (step P) d es = Some c'" by (auto split: option.splits)
  have "budget c' + length es \<le> budget d + 3 * spurs es"
    using Cons.IH [OF reach_step [OF Cons.prems(1) d(1)] d(2)] .
  moreover have "snd e \<noteq> Spur \<Longrightarrow> budget d < budget c" "snd e = Spur \<Longrightarrow> budget d \<le> budget c + 2"
    using budget_step [OF I_reach reach_ok(3), OF Cons.prems(1,1), of "fst e" "snd e" d] d(1)
    by (metis prod.collapse)+
  ultimately show ?case by (cases "snd e = Spur") auto
qed simp

text \<open>The number of steps of a run is bounded.\<close>

lemma run_bounded:
  assumes "run (step P) (start s0 ls0) es = Some c"
  shows "length es \<le> fee (length ls0) * pot s0 ls0 + 2 * length ls0 + 3 * spurs es"
proof -
  have "budget (start s0 ls0) = fee (length ls0) * pot s0 ls0 + 2 * length ls0"
    by (simp add: budget_def start_def locs_def comp_def total_owed_def)
  then show ?thesis using run_budget [OF reach_refl assms] by simp
qed

end

end
