(* ===== verification/ProdCons.thy ===== *)
theory ProdCons
  imports Queues Progress
begin

text \<open>
  The multi-producer, multi-consumer program of
  \<open>examples/03_patterns/02_producer_consumer.cpp\<close>: \<open>NP\<close> producers push \<open>K\<close> items each into a
  \<open>Queue\<close>, the last one to finish closes it, \<open>NC\<close> consumers pop until the queue is closed and
  drained.
\<close>

subsection \<open>The program\<close>

text \<open>The locals of \<open>main\<close> the threads share, and what the consumers have printed.\<close>

record pc_state =
  pc_queue :: "int Queue"
  pc_produced :: nat
  pc_consumed :: nat
  pc_producers_done :: nat
  pc_printed :: "(nat \<times> int) list"

datatype pc_loc =
    PushItem nat nat
  | CountProduced nat nat
  | FinishProducer nat
  | CloseQueue nat
  | ProducerDone nat
  | PopItem nat
  | PrintItem nat int
  | CountConsumed nat
  | ConsumerDone nat

definition pc_item :: "nat \<Rightarrow> nat \<Rightarrow> int" where
  "pc_item p i = int p * 1000 + int i"

text \<open>The two thread functions of \<open>main\<close>; the mutex of \<open>q\<close> is 0, \<open>cv_full_\<close> 1, \<open>cv_empty_\<close> 2.\<close>

fun pc_thread :: "nat \<Rightarrow> nat \<Rightarrow> pc_loc \<Rightarrow> (pc_state, pc_loc) stmt" where
  "pc_thread NP K (PushItem p i) =
     (if i < K then call pc_queue pc_queue_update (pq_push 0 1 2 (pc_item p i)) (\<lambda>_. CountProduced p i)
      else Act (\<lambda>s. [(s, FinishProducer p)]))"
| "pc_thread NP K (CountProduced p i) =
     Act (\<lambda>s. [(s\<lparr>pc_produced := pc_produced s + 1\<rparr>, PushItem p (i + 1))])"
| "pc_thread NP K (FinishProducer p) =
     Act (\<lambda>s. [(s\<lparr>pc_producers_done := pc_producers_done s + 1\<rparr>,
       if pc_producers_done s + 1 = NP then CloseQueue p else ProducerDone p)])"
| "pc_thread NP K (CloseQueue p) = call pc_queue pc_queue_update (pq_close 0 1 2) (\<lambda>_. ProducerDone p)"
| "pc_thread NP K (ProducerDone p) = Fin"
| "pc_thread NP K (PopItem c) =
     call pc_queue pc_queue_update (pq_pop 0 1 2) (\<lambda>r. case r of None \<Rightarrow> ConsumerDone c | Some v \<Rightarrow> PrintItem c v)"
| "pc_thread NP K (PrintItem c v) = Act (\<lambda>s. [(s\<lparr>pc_printed := pc_printed s @ [(c, v)]\<rparr>, CountConsumed c)])"
| "pc_thread NP K (CountConsumed c) = Act (\<lambda>s. [(s\<lparr>pc_consumed := pc_consumed s + 1\<rparr>, PopItem c)])"
| "pc_thread NP K (ConsumerDone c) = Fin"

definition pc_init :: "nat \<Rightarrow> pc_state" where
  "pc_init cap = \<lparr>pc_queue = pq_new cap, pc_produced = 0, pc_consumed = 0, pc_producers_done = 0, pc_printed = []\<rparr>"

definition pc_threads :: "nat \<Rightarrow> nat \<Rightarrow> pc_loc list" where
  "pc_threads NP NC = map (\<lambda>p. PushItem p 0) [0..<NP] @ map PopItem [0..<NC]"

definition pc_step :: "nat \<Rightarrow> nat \<Rightarrow> (pc_state, pc_loc) cfg \<Rightarrow> nat \<times> choice \<Rightarrow> (pc_state, pc_loc) cfg option" where
  "pc_step NP K = step (\<lambda>_. pc_thread NP K)"

definition pc_start :: "nat \<Rightarrow> nat \<Rightarrow> nat \<Rightarrow> (pc_state, pc_loc) cfg" where
  "pc_start NP NC cap = start (pc_init cap) (pc_threads NP NC)"

text \<open>\<open>main\<close>: \<open>NP = 3\<close>, \<open>NC = 4\<close>, \<open>ITEMS_PER_P = 10\<close>, a queue of capacity 8.\<close>

definition pc_main :: "(pc_state, pc_loc) cfg" where
  "pc_main = pc_start 3 4 8"

subsection \<open>The invariant\<close>

fun pc_role :: "pc_loc \<Rightarrow> nat + nat" where
  "pc_role (PushItem p i) = Inl p"
| "pc_role (CountProduced p i) = Inl p"
| "pc_role (FinishProducer p) = Inl p"
| "pc_role (CloseQueue p) = Inl p"
| "pc_role (ProducerDone p) = Inl p"
| "pc_role (PopItem c) = Inr c"
| "pc_role (PrintItem c v) = Inr c"
| "pc_role (CountConsumed c) = Inr c"
| "pc_role (ConsumerDone c) = Inr c"

text \<open>The items a producer at a program point has pushed, and the item a consumer holds.\<close>

fun pc_pushed :: "nat \<Rightarrow> pc_loc \<Rightarrow> int multiset" where
  "pc_pushed K (PushItem p i) = mset (map (pc_item p) [0..<i])"
| "pc_pushed K (CountProduced p i) = mset (map (pc_item p) [0..<Suc i])"
| "pc_pushed K (FinishProducer p) = mset (map (pc_item p) [0..<K])"
| "pc_pushed K (CloseQueue p) = mset (map (pc_item p) [0..<K])"
| "pc_pushed K (ProducerDone p) = mset (map (pc_item p) [0..<K])"
| "pc_pushed K _ = {#}"

fun pc_held :: "pc_loc \<Rightarrow> int multiset" where
  "pc_held (PrintItem c v) = {#v#}"
| "pc_held _ = {#}"

fun pc_past :: "pc_loc \<Rightarrow> nat" where
  "pc_past (CloseQueue p) = 1"
| "pc_past (ProducerDone p) = 1"
| "pc_past _ = 0"

fun pc_prod :: "pc_loc \<Rightarrow> nat" where
  "pc_prod l = (case pc_role l of Inl p \<Rightarrow> 1 | Inr c \<Rightarrow> 0)"

fun pc_pending_p :: "pc_loc \<Rightarrow> nat" where
  "pc_pending_p (CountProduced p i) = 1"
| "pc_pending_p _ = 0"

fun pc_pending_c :: "pc_loc \<Rightarrow> nat" where
  "pc_pending_c (CountConsumed c) = 1"
| "pc_pending_c _ = 0"

fun pc_bound :: "nat \<Rightarrow> pc_loc \<Rightarrow> bool" where
  "pc_bound K (PushItem p i) = (i \<le> K)"
| "pc_bound K (CountProduced p i) = (i < K)"
| "pc_bound K _ = True"

text \<open>What has been pushed is queued, held by a consumer, or printed.\<close>

definition pc_flow :: "nat \<Rightarrow> pc_state \<Rightarrow> pc_loc list \<Rightarrow> bool" where
  "pc_flow K s ls \<longleftrightarrow> mset (pq_q (pc_queue s)) + mset (map snd (pc_printed s)) + sum_list (map pc_held ls) =
     sum_list (map (pc_pushed K) ls)"

definition pc_counts :: "nat \<Rightarrow> pc_state \<Rightarrow> pc_loc list \<Rightarrow> bool" where
  "pc_counts K s ls \<longleftrightarrow> pc_produced s + sum_list (map pc_pending_p ls) = sum_list (map (\<lambda>l. size (pc_pushed K l)) ls)
     \<and> pc_consumed s + sum_list (map pc_pending_c ls) = length (pc_printed s)"

fun pc_closer :: "pc_loc \<Rightarrow> nat" where
  "pc_closer (CloseQueue p) = 1"
| "pc_closer _ = 0"

fun pc_gone :: "pc_loc \<Rightarrow> nat" where
  "pc_gone (ConsumerDone c) = 1"
| "pc_gone _ = 0"

text \<open>The queue is closed by the last producer, when nothing will be pushed any more.\<close>

definition pc_closing :: "nat \<Rightarrow> pc_state \<Rightarrow> pc_loc list \<Rightarrow> bool" where
  "pc_closing NP s ls \<longleftrightarrow> pc_producers_done s = sum_list (map pc_past ls)
     \<and> (0 < sum_list (map pc_closer ls) \<longrightarrow> pc_producers_done s = NP)
     \<and> (pq_closed (pc_queue s) \<longrightarrow> pc_producers_done s = NP)
     \<and> (pc_producers_done s = NP \<longrightarrow> 0 < NP \<longrightarrow> pq_closed (pc_queue s) \<or> 0 < sum_list (map pc_closer ls))
     \<and> (0 < sum_list (map pc_gone ls) \<longrightarrow> pq_closed (pc_queue s) \<and> pq_q (pc_queue s) = [])"

definition pc_shape :: "nat \<Rightarrow> nat \<Rightarrow> nat \<Rightarrow> nat \<Rightarrow> pc_state \<Rightarrow> pc_loc list \<Rightarrow> bool" where
  "pc_shape NP NC K cap s ls \<longleftrightarrow> map pc_role ls = map Inl [0..<NP] @ map Inr [0..<NC]
     \<and> pq_invar (pc_queue s) \<and> pq_cap (pc_queue s) = cap \<and> (\<forall>l\<in>set ls. pc_bound K l)"

definition pc_inv :: "nat \<Rightarrow> nat \<Rightarrow> nat \<Rightarrow> nat \<Rightarrow> pc_state \<Rightarrow> pc_loc list \<Rightarrow> bool" where
  "pc_inv NP NC K cap s ls \<longleftrightarrow> pc_shape NP NC K cap s ls \<and> pc_flow K s ls \<and> pc_counts K s ls \<and> pc_closing NP s ls"

lemma pc_prod_total: "map pc_role ls = map Inl [0..<NP] @ map Inr [0..<NC] \<Longrightarrow> sum_list (map pc_prod ls) = NP"
proof -
  assume r: "map pc_role ls = map Inl [0..<NP] @ map Inr [0..<NC]"
  have "map pc_prod ls = map (\<lambda>r. case r of Inl p \<Rightarrow> 1 | Inr c \<Rightarrow> 0) (map pc_role ls)"
    by (simp add: comp_def)
  then show ?thesis by (simp add: r comp_def sum_list_triv)
qed

lemma pc_past_le: "pc_past l \<le> pc_prod l"
  by (cases l) auto

text \<open>While a producer has not finished, the queue is open.\<close>

lemma pc_still_open:
  assumes inv: "pc_shape NP NC K cap s ls" "pc_closing NP s ls" and l: "l \<in> set ls" "pc_prod l = 1" "pc_past l = 0"
  shows "\<not> pq_closed (pc_queue s)" "pc_producers_done s < NP"
proof -
  have le: "sum_list (map pc_past ls) \<le> sum_list (map pc_prod ls)" by (intro sum_list_mono) (rule pc_past_le)
  have NP: "sum_list (map pc_prod ls) = NP" using inv pc_prod_total [of ls NP NC] by (simp add: pc_shape_def)
  have "sum_list (map pc_past ls) \<noteq> sum_list (map pc_prod ls)"
    using sum_list_le_eqD [of pc_past ls pc_prod l] pc_past_le l by auto
  with le NP inv(2) show "pc_producers_done s < NP" by (simp add: pc_closing_def)
  with inv(2) show "\<not> pq_closed (pc_queue s)" by (auto simp: pc_closing_def)
qed

text \<open>The effect of the three calls on the queue.\<close>

lemma pc_push_effect:
  assumes "(s', l') \<in> set (effects (call pc_queue pc_queue_update (pq_push 0 1 2 v) k) s)" "\<not> pq_closed (pc_queue s)"
    "pq_invar (pc_queue s)"
  obtains q where "s' = s\<lparr>pc_queue := q\<rparr>" "l' = k True" "pq_invar q" "pq_q q = pq_q (pc_queue s) @ [v]"
    "pq_cap q = pq_cap (pc_queue s)" "\<not> pq_closed q"
proof (rule effects_callE [OF assms(1)])
  fix q r pre post
  assume a: "enabled (pq_push 0 1 2 v) (pc_queue s)" "body (pq_push 0 1 2 v) (pc_queue s) = (q, r, pre, post)"
    "s' = pc_queue_update (\<lambda>_. q) s" "l' = k r"
  then have "r = True" using assms(2) by (simp add: pq_push_def)
  with a show thesis using assms(2) that by (elim pq.push_cases [OF assms(3)]) auto
qed

lemma pc_pop_effect:
  assumes "(s', l') \<in> set (effects (call pc_queue pc_queue_update (pq_pop 0 1 2) k) s)" "pq_invar (pc_queue s)"
  obtains "s' = s" "l' = k None" "pq_closed (pc_queue s)" "pq_q (pc_queue s) = []"
  | q v where "s' = s\<lparr>pc_queue := q\<rparr>" "l' = k (Some v)" "pq_invar q" "pq_q (pc_queue s) = v # pq_q q"
    "pq_cap q = pq_cap (pc_queue s)" "pq_closed q = pq_closed (pc_queue s)"
proof (rule effects_callE [OF assms(1)])
  fix q r pre post
  assume a: "enabled (pq_pop 0 1 2) (pc_queue s)" "body (pq_pop 0 1 2) (pc_queue s) = (q, r, pre, post)"
    "s' = pc_queue_update (\<lambda>_. q) s" "l' = k r"
  from assms(2) a(1,2) show thesis by (rule pq.pop_cases) (use a(3,4) that in auto)
qed

lemma pc_close_effect:
  assumes "(s', l') \<in> set (effects (call pc_queue pc_queue_update (pq_close 0 1 2) k) s)" "pq_invar (pc_queue s)"
  obtains q where "s' = s\<lparr>pc_queue := q\<rparr>" "l' = k ()" "pq_invar q" "pq_q q = pq_q (pc_queue s)"
    "pq_cap q = pq_cap (pc_queue s)" "pq_closed q"
proof (rule effects_callE [OF assms(1)])
  fix q r pre post
  assume a: "body (pq_close 0 1 2) (pc_queue s) = (q, r, pre, post)" "s' = pc_queue_update (\<lambda>_. q) s" "l' = k r"
  with pq.close_body [OF assms(2) a(1)] that show thesis by auto
qed

text \<open>The nine kinds of atomic steps of the program.\<close>

lemma pc_cases [consumes 2, case_names push stop count finish close pop_none pop_some print countc]:
  assumes e: "(s', l') \<in> set (effects (pc_thread NP K l) s)" and q: "pq_invar (pc_queue s)"
    and opn: "\<And>p k. l = PushItem p k \<Longrightarrow> \<not> pq_closed (pc_queue s)"
  obtains (push) p k q where "l = PushItem p k" "k < K" "l' = CountProduced p k" "s' = s\<lparr>pc_queue := q\<rparr>" "pq_invar q"
      "pq_q q = pq_q (pc_queue s) @ [pc_item p k]" "pq_cap q = pq_cap (pc_queue s)" "\<not> pq_closed q" "\<not> pq_closed (pc_queue s)"
  | (stop) p k where "l = PushItem p k" "\<not> k < K" "l' = FinishProducer p" "s' = s"
  | (count) p k where "l = CountProduced p k" "l' = PushItem p (k + 1)" "s' = s\<lparr>pc_produced := pc_produced s + 1\<rparr>"
  | (finish) p where "l = FinishProducer p" "l' = (if pc_producers_done s + 1 = NP then CloseQueue p else ProducerDone p)"
      "s' = s\<lparr>pc_producers_done := pc_producers_done s + 1\<rparr>"
  | (close) p q where "l = CloseQueue p" "l' = ProducerDone p" "s' = s\<lparr>pc_queue := q\<rparr>" "pq_invar q"
      "pq_q q = pq_q (pc_queue s)" "pq_cap q = pq_cap (pc_queue s)" "pq_closed q"
  | (pop_none) c where "l = PopItem c" "l' = ConsumerDone c" "s' = s" "pq_closed (pc_queue s)" "pq_q (pc_queue s) = []"
  | (pop_some) c q v where "l = PopItem c" "l' = PrintItem c v" "s' = s\<lparr>pc_queue := q\<rparr>" "pq_invar q"
      "pq_q (pc_queue s) = v # pq_q q" "pq_cap q = pq_cap (pc_queue s)" "pq_closed q = pq_closed (pc_queue s)"
  | (print) c v where "l = PrintItem c v" "l' = CountConsumed c" "s' = s\<lparr>pc_printed := pc_printed s @ [(c, v)]\<rparr>"
  | (countc) c where "l = CountConsumed c" "l' = PopItem c" "s' = s\<lparr>pc_consumed := pc_consumed s + 1\<rparr>"
proof (cases l)
  case (PushItem p k)
  show thesis
  proof (cases "k < K")
    case True
    with PushItem e have "(s', l') \<in> set (effects (call pc_queue pc_queue_update (pq_push 0 1 2 (pc_item p k)) (\<lambda>_. CountProduced p k)) s)"
      by simp
    then show thesis by (rule pc_push_effect [OF _ opn [OF PushItem] q]) (use push PushItem True opn in auto)
  qed (use PushItem e stop in auto)
next
  case (CloseQueue p)
  with e have "(s', l') \<in> set (effects (call pc_queue pc_queue_update (pq_close 0 1 2) (\<lambda>_. ProducerDone p)) s)"
    by simp
  then show thesis by (rule pc_close_effect [OF _ q]) (use close CloseQueue in auto)
next
  case (PopItem c)
  with e have "(s', l') \<in> set (effects (call pc_queue pc_queue_update (pq_pop 0 1 2)
      (\<lambda>r. case r of None \<Rightarrow> ConsumerDone c | Some v \<Rightarrow> PrintItem c v)) s)" by simp
  then show thesis by (rule pc_pop_effect [OF _ q]) (use pop_none pop_some PopItem in auto)
qed (use e count finish print countc in auto)

lemma pc_shape_step:
  assumes inv: "pc_shape NP NC K cap s ls" "pc_closing NP s ls" and i: "i < length ls"
    and e: "(s', l') \<in> set (effects (pc_thread NP K (ls ! i)) s)"
  shows "pc_shape NP NC K cap s' (ls[i := l'])"
proof -
  have mem: "ls ! i \<in> set ls" using i by simp
  have q: "pq_invar (pc_queue s)" and b: "pc_bound K (ls ! i)" using inv mem by (auto simp: pc_shape_def)
  have opn: "ls ! i = PushItem p k \<Longrightarrow> \<not> pq_closed (pc_queue s)" for p k
    using pc_still_open [OF inv mem] by auto
  have "pc_role l' = pc_role (ls ! i) \<and> pc_bound K l' \<and> pq_invar (pc_queue s') \<and> pq_cap (pc_queue s') = pq_cap (pc_queue s)"
    using e q opn by (cases rule: pc_cases) (use b q in auto)
  then show ?thesis using inv(1) by (auto simp: pc_shape_def map_upd_same dest: set_updD)
qed

lemma pc_flow_step:
  assumes inv: "pc_shape NP NC K cap s ls" "pc_closing NP s ls" "pc_flow K s ls" and i: "i < length ls"
    and e: "(s', l') \<in> set (effects (pc_thread NP K (ls ! i)) s)"
  shows "pc_flow K s' (ls[i := l'])"
proof -
  have mem: "ls ! i \<in> set ls" using i by simp
  have q: "pq_invar (pc_queue s)" and b: "pc_bound K (ls ! i)" using inv mem by (auto simp: pc_shape_def)
  have opn: "ls ! i = PushItem p k \<Longrightarrow> \<not> pq_closed (pc_queue s)" for p k
    using pc_still_open [OF inv(1,2) mem] by auto
  obtain R1 where R1: "sum_list (map pc_held ls) = R1 + pc_held (ls ! i)"
    "\<And>x. sum_list (map pc_held (ls[i := x])) = R1 + pc_held x" using sum_list_split [OF i] by blast
  obtain R2 where R2: "sum_list (map (pc_pushed K) ls) = R2 + pc_pushed K (ls ! i)"
    "\<And>x. sum_list (map (pc_pushed K) (ls[i := x])) = R2 + pc_pushed K x" using sum_list_split [OF i] by blast
  show ?thesis using e q opn
    by (cases rule: pc_cases) (use inv(3) b in \<open>auto simp: pc_flow_def R1 R2 le_antisym\<close>)
qed

lemma pc_counts_step:
  assumes inv: "pc_shape NP NC K cap s ls" "pc_closing NP s ls" "pc_counts K s ls" and i: "i < length ls"
    and e: "(s', l') \<in> set (effects (pc_thread NP K (ls ! i)) s)"
  shows "pc_counts K s' (ls[i := l'])"
proof -
  have mem: "ls ! i \<in> set ls" using i by simp
  have q: "pq_invar (pc_queue s)" and b: "pc_bound K (ls ! i)" using inv mem by (auto simp: pc_shape_def)
  have opn: "ls ! i = PushItem p k \<Longrightarrow> \<not> pq_closed (pc_queue s)" for p k
    using pc_still_open [OF inv(1,2) mem] by auto
  obtain R4 where R4: "sum_list (map pc_pending_p ls) = R4 + pc_pending_p (ls ! i)"
    "\<And>x. sum_list (map pc_pending_p (ls[i := x])) = R4 + pc_pending_p x" using sum_list_split [OF i] by blast
  obtain R5 where R5: "sum_list (map pc_pending_c ls) = R5 + pc_pending_c (ls ! i)"
    "\<And>x. sum_list (map pc_pending_c (ls[i := x])) = R5 + pc_pending_c x" using sum_list_split [OF i] by blast
  obtain R6 where R6: "sum_list (map (\<lambda>l. size (pc_pushed K l)) ls) = R6 + size (pc_pushed K (ls ! i))"
    "\<And>x. sum_list (map (\<lambda>l. size (pc_pushed K l)) (ls[i := x])) = R6 + size (pc_pushed K x)"
    using sum_list_split [OF i] by blast
  show ?thesis using e q opn
    by (cases rule: pc_cases) (use inv(3) b in \<open>auto simp: pc_counts_def R4 R5 R6\<close>)
qed

lemma pc_closing_step:
  assumes inv: "pc_shape NP NC K cap s ls" "pc_closing NP s ls" and i: "i < length ls"
    and e: "(s', l') \<in> set (effects (pc_thread NP K (ls ! i)) s)"
  shows "pc_closing NP s' (ls[i := l'])"
proof -
  have mem: "ls ! i \<in> set ls" using i by simp
  have q: "pq_invar (pc_queue s)" using inv by (auto simp: pc_shape_def)
  have opn: "ls ! i = PushItem p k \<Longrightarrow> \<not> pq_closed (pc_queue s)"
    and less: "ls ! i = FinishProducer p \<Longrightarrow> pc_producers_done s < NP \<and> \<not> pq_closed (pc_queue s)" for p k
    using pc_still_open [OF inv(1,2) mem] by auto
  obtain R1 where R1: "sum_list (map pc_past ls) = R1 + pc_past (ls ! i)"
    "\<And>x. sum_list (map pc_past (ls[i := x])) = R1 + pc_past x" using sum_list_split [OF i] by blast
  obtain R2 where R2: "sum_list (map pc_closer ls) = R2 + pc_closer (ls ! i)"
    "\<And>x. sum_list (map pc_closer (ls[i := x])) = R2 + pc_closer x" using sum_list_split [OF i] by blast
  obtain R3 where R3: "sum_list (map pc_gone ls) = R3 + pc_gone (ls ! i)"
    "\<And>x. sum_list (map pc_gone (ls[i := x])) = R3 + pc_gone x" using sum_list_split [OF i] by blast
  show ?thesis using e q opn
    by (cases rule: pc_cases) (use inv(2) less in \<open>auto simp: pc_closing_def R1 R2 R3\<close>)
qed

lemma pc_inv_step:
  assumes "pc_inv NP NC K cap s ls" "i < length ls" "(s', l') \<in> set (effects (pc_thread NP K (ls ! i)) s)"
  shows "pc_inv NP NC K cap s' (ls[i := l'])"
  using assms unfolding pc_inv_def
  by (blast intro: pc_shape_step pc_flow_step pc_counts_step pc_closing_step)

lemma pc_inv_init: "pc_inv NP NC K cap (pc_init cap) (pc_threads NP NC)"
  by (auto simp: pc_inv_def pc_shape_def pc_flow_def pc_counts_def pc_closing_def pc_init_def pc_threads_def pq_new_def
      pq_invar_def comp_def)

subsection \<open>Wake-ups\<close>

lemma pc_monitor_cases [consumes 1, case_names push close pop]:
  assumes "pc_thread NP K l = Monitor m w b"
  obtains (push) p i where "l = PushItem p i" "i < K"
      "call pc_queue pc_queue_update (pq_push 0 1 2 (pc_item p i)) (\<lambda>_. CountProduced p i) = Monitor m w b"
  | (close) p where "l = CloseQueue p" "call pc_queue pc_queue_update (pq_close 0 1 2) (\<lambda>_. ProducerDone p) = Monitor m w b"
  | (pop) c where "l = PopItem c" "call pc_queue pc_queue_update (pq_pop 0 1 2)
      (\<lambda>r. case r of None \<Rightarrow> ConsumerDone c | Some v \<Rightarrow> PrintItem c v) = Monitor m w b"
  using assms by (cases l) (auto split: if_splits)

lemma pc_inv_queue: "pc_inv NP NC K cap s ls \<Longrightarrow> pq_invar (pc_queue s)"
  by (simp add: pc_inv_def pc_shape_def)

lemma pc_queue_stmt: "queue_stmt pc_queue pc_queue_update (pq_push 0 1 2) (pq_pop 0 1 2) 2 1 (pc_thread NP K l)"
proof (cases l)
  case (CloseQueue p)
  have "queue_stmt pc_queue pc_queue_update (pq_push 0 1 2) (pq_pop 0 1 2) 2 1
      (call pc_queue pc_queue_update (pq_close 0 1 2) (\<lambda>_. ProducerDone p))"
    by (rule queue_stmt_close) (auto simp: pq_close_def)
  with CloseQueue show ?thesis by simp
qed (auto intro!: queue_stmt_intros)

interpretation pc: queue_client "\<lambda>_. pc_thread NP K" "pc_init cap" "pc_threads NP NC" "pc_inv NP NC K cap"
    pq_invar pq_q pq_cap pq_closed "pq_push 0 1 2" "pq_pop 0 1 2" "\<lambda>r. r" 0 2 1 pc_queue pc_queue_update
  for NP NC K cap
  by unfold_locales (simp_all add: pc_inv_init pc_inv_step pc_inv_queue pc_queue_stmt del: One_nat_def)

subsection \<open>Termination\<close>

text \<open>What is left to do: every item still to be pushed, queued or held costs a few more steps.\<close>

fun pc_todo :: "nat \<Rightarrow> pc_loc \<Rightarrow> nat" where
  "pc_todo K (PushItem p i) = 5 * (K - i) + 3"
| "pc_todo K (CountProduced p i) = 5 * (K - Suc i) + 4"
| "pc_todo K (FinishProducer p) = 2"
| "pc_todo K (CloseQueue p) = 1"
| "pc_todo K (ProducerDone p) = 0"
| "pc_todo K (PopItem c) = 1"
| "pc_todo K (PrintItem c v) = 3"
| "pc_todo K (CountConsumed c) = 2"
| "pc_todo K (ConsumerDone c) = 0"

definition pc_pot :: "nat \<Rightarrow> pc_state \<Rightarrow> pc_loc list \<Rightarrow> nat" where
  "pc_pot K s ls = 3 * length (pq_q (pc_queue s)) + sum_list (map (pc_todo K) ls)"

lemma pc_pot_step:
  assumes inv: "pc_inv NP NC K cap s ls" and i: "i < length ls"
    and e: "(s', l') \<in> set (effects (pc_thread NP K (ls ! i)) s)"
  shows "pc_pot K s' (ls[i := l']) < pc_pot K s ls"
proof -
  have mem: "ls ! i \<in> set ls" using i by simp
  have opn: "ls ! i = PushItem p k \<Longrightarrow> \<not> pq_closed (pc_queue s)" for p k
    using inv pc_still_open [OF _ _ mem] by (auto simp: pc_inv_def)
  obtain R where R: "sum_list (map (pc_todo K) ls) = R + pc_todo K (ls ! i)"
    "\<And>x. sum_list (map (pc_todo K) (ls[i := x])) = R + pc_todo K x" using sum_list_split [OF i] by blast
  show ?thesis using e pc_inv_queue [OF inv] opn
    by (cases rule: pc_cases) (auto simp: pc_pot_def R)
qed

interpretation pc: terminating "\<lambda>_. pc_thread NP K" "pc_init cap" "pc_threads NP NC" "pc_inv NP NC K cap" "pc_pot K" 2
  for NP NC K cap
proof
  fix s ls i s' l' assume "pc_inv NP NC K cap s ls" "i < length ls" "(s', l') \<in> set (effects (pc_thread NP K (ls ! i)) s)"
  then show "pc_pot K s' (ls[i := l']) < pc_pot K s ls" by (rule pc_pot_step)
next
  fix l m w b and s s' :: pc_state and l' pre post assume "pc_thread NP K l = Monitor m w b" "b s = (s', l', pre, post)"
  then show "length pre + length post \<le> 2"
    by (cases rule: pc_monitor_cases; elim call_body)
      (auto simp: pq_push_def pq_pop_def pq_close_def split: list.splits if_splits)
qed

subsection \<open>Final states\<close>

definition pc_items :: "nat \<Rightarrow> nat \<Rightarrow> int multiset" where
  "pc_items NP K = (\<Sum>p\<leftarrow>[0..<NP]. mset (map (pc_item p) [0..<K]))"

lemma pc_reach: "reach (pc_step NP K) (pc_start NP NC cap) c \<Longrightarrow> reach (step (\<lambda>_. pc_thread NP K)) (start (pc_init cap) (pc_threads NP NC)) c"
  by (simp add: pc_step_def [abs_def] pc_start_def)

lemma pc_stuck_locs:
  assumes r: "reach (pc_step NP K) (pc_start NP NC cap) c" "stuck (\<lambda>_. pc_thread NP K) c" and i: "i < length (thr c)"
  obtains (producer) p where "thr c ! i = At (ProducerDone p)" | (consumer) k where "thr c ! i = At (ConsumerDone k)"
  | (full) p k where "loc (thr c ! i) = PushItem p k" "\<not> pq_closed (pc_queue (shared c))" "length (pq_q (pc_queue (shared c))) = cap"
  | (empty) k where "loc (thr c ! i) = PopItem k" "\<not> pq_closed (pc_queue (shared c))" "pq_q (pc_queue (shared c)) = []"
proof -
  note r1 = pc_reach [OF r(1)]
  note ok = reach_ok [OF r1]
  have cap: "pq_cap (pc_queue (shared c)) = cap"
    using pc.I_reach [OF r1] by (simp add: pc_inv_def pc_shape_def)
  from r(2) i ok(1,2) show thesis
  proof (cases rule: stuck_cases)
    case (fin l)
    then show thesis using producer consumer by (cases l) (auto split: if_splits)
  next
    case (blocked l f)
    then show thesis by (cases l) (auto split: if_splits)
  next
    case (asleep l m v p b)
    from asleep(2) show thesis
    proof (cases rule: pc_monitor_cases)
      case (push p k)
      then show thesis using full pc.stuck_push [OF r1 r(2) i asleep(1)] asleep cap by simp
    next
      case (pop k)
      then show thesis using empty pc.stuck_pop [OF r1 r(2) i asleep(1)] asleep by simp
    qed (use asleep(2) in \<open>simp add: call_Monitor pq_close_def\<close>)
  qed
qed

lemma pc_stuck_fin:
  assumes r: "reach (pc_step NP K) (pc_start NP NC cap) c" "stuck (\<lambda>_. pc_thread NP K) c"
    and pos: "0 < NP" "0 < NC" "0 < cap"
  shows "all_fin (\<lambda>_. pc_thread NP K) c"
proof -
  let ?q = "pc_queue (shared c)" and ?ls = "locs c"
  have I: "pc_inv NP NC K cap (shared c) ?ls" using pc.I_reach [OF pc_reach [OF r(1)]] .
  then have roles: "map pc_role ?ls = map Inl [0..<NP] @ map Inr [0..<NC]" and closing: "pc_closing NP (shared c) ?ls"
    by (auto simp: pc_inv_def pc_shape_def)
  have gone: "pq_closed ?q \<and> pq_q ?q = []" if "thr c ! i = At (ConsumerDone k)" "i < length (thr c)" for i k
  proof -
    have "1 \<le> sum_list (map pc_gone ?ls)"
      using member_le_sum_list_nat [of i ?ls pc_gone] that by simp
    then show ?thesis using closing by (simp add: pc_closing_def)
  qed
  have consumer: "pq_q ?q = []"
  proof -
    have "Inr 0 \<in> set (map pc_role ?ls)" using roles pos by simp
    then obtain i where i: "i < length (thr c)" "pc_role (loc (thr c ! i)) = Inr 0"
      by (auto simp: in_set_conv_nth)
    from r i(1) show ?thesis
      by (cases rule: pc_stuck_locs) (use i gone in auto)
  qed
  have past: "pc_past l = pc_prod l \<and> pc_closer l = 0" if l: "l \<in> set ?ls" for l
  proof -
    from l obtain i where i: "i < length (thr c)" "l = loc (thr c ! i)" by (auto simp: in_set_conv_nth)
    from r i(1) show ?thesis by (cases rule: pc_stuck_locs) (use i consumer pos in auto)
  qed
  then have "map pc_past ?ls = map pc_prod ?ls" by (intro map_cong) blast+
  then have "sum_list (map pc_past ?ls) = NP" using pc_prod_total [OF roles] by (simp only:)
  moreover have "sum_list (map pc_closer ?ls) = 0" using past by (intro sum_list_map_zero) simp
  ultimately have "pq_closed ?q"
    using closing pos unfolding pc_closing_def by (metis not_gr_zero)
  then have "\<exists>l. thr c ! i = At l \<and> pc_thread NP K l = Fin" if "i < length (thr c)" for i
    by (cases rule: pc_stuck_locs [OF r that]) auto
  then show ?thesis by (simp add: all_fin_def)
qed

text \<open>What a thread pushes in all.\<close>

fun pc_quota :: "nat \<Rightarrow> nat + nat \<Rightarrow> int multiset" where
  "pc_quota K (Inl p) = mset (map (pc_item p) [0..<K])"
| "pc_quota K (Inr c) = {#}"

lemma mset_map_upt: "i \<le> K \<Longrightarrow> mset (map f [0..<i]) \<subseteq># mset (map f [0..<K])"
  by (metis le_add_diff_inverse map_append mset_append mset_subset_eq_add_left upt_add_eq_append zero_le)

lemma pc_fin_result:
  assumes r: "reach (pc_step NP K) (pc_start NP NC cap) c" "all_fin (\<lambda>_. pc_thread NP K) c" and NC: "0 < NC"
  shows "mset (map snd (pc_printed (shared c))) = pc_items NP K" "pq_q (pc_queue (shared c)) = []"
    "pc_produced (shared c) = NP * K" "pc_consumed (shared c) = NP * K"
proof -
  let ?q = "pc_queue (shared c)" and ?ls = "locs c"
  have I: "pc_inv NP NC K cap (shared c) ?ls" using pc.I_reach [OF pc_reach [OF r(1)]] .
  then have roles: "map pc_role ?ls = map Inl [0..<NP] @ map Inr [0..<NC]"
    and flow: "pc_flow K (shared c) ?ls" and counts: "pc_counts K (shared c) ?ls" and closing: "pc_closing NP (shared c) ?ls"
    by (auto simp: pc_inv_def pc_shape_def)
  have fin: "(\<exists>p. l = ProducerDone p) \<or> (\<exists>k. l = ConsumerDone k)" if "l \<in> set ?ls" for l
  proof -
    from that obtain i where "i < length (thr c)" "l = loc (thr c ! i)" by (auto simp: in_set_conv_nth)
    then have "pc_thread NP K l = Fin" using r(2) by (auto simp: all_fin_def)
    then show ?thesis by (cases l) (auto split: if_splits)
  qed
  have "Inr 0 \<in> set (map pc_role ?ls)" using roles NC by simp
  then obtain l where "l \<in> set ?ls" "pc_role l = Inr 0" by auto
  then have "0 < sum_list (map pc_gone ?ls)" using fin [of l] by (intro sum_list_pos [of l]) auto
  with closing show empty: "pq_q ?q = []" by (simp add: pc_closing_def)
  have "map (pc_pushed K) ?ls = map (pc_quota K) (map pc_role ?ls)" using fin by force
  then have pushed: "sum_list (map (pc_pushed K) ?ls) = pc_items NP K"
    by (simp add: roles comp_def pc_items_def sum_list_map_zero)
  have held: "sum_list (map pc_held ?ls) = {#}" using fin by (intro sum_list_map_zero) force
  show printed: "mset (map snd (pc_printed (shared c))) = pc_items NP K"
    using flow pushed held empty by (simp add: pc_flow_def)
  have size: "size (pc_items NP K) = NP * K"
    by (simp add: pc_items_def size_sum_list_mset comp_def sum_list_triv)
  have "sum_list (map pc_pending_p ?ls) = 0" "sum_list (map pc_pending_c ?ls) = 0"
    using fin by (intro sum_list_map_zero; force)+
  moreover have "sum_list (map (\<lambda>l. size (pc_pushed K l)) ?ls) = NP * K"
    using pushed size by (metis (no_types, lifting) size_sum_list_mset map_map comp_apply map_eq_conv)
  moreover have "length (pc_printed (shared c)) = NP * K"
    using arg_cong [OF printed, of size] size by simp
  ultimately show "pc_produced (shared c) = NP * K" "pc_consumed (shared c) = NP * K"
    using counts unfolding pc_counts_def by (simp_all only: add_0_right)
qed

subsection \<open>Properties\<close>

text \<open>every schedule of the producer/consumer program ends. A run of \<open>NP\<close> producers with \<open>K\<close> items
  each and \<open>NC\<close> consumers has a bounded number of steps, up to three for each spurious wake-up
  the library delivers.\<close>

theorem prodcons_terminates:
  assumes "run (pc_step NP K) (pc_start NP NC cap) es = Some c"
  shows "length es \<le> (6 * (NP + NC) + 6) * (NP * (5 * K + 3) + NC) + 2 * (NP + NC) + 3 * spurs es"
proof -
  have "pc_pot K (pc_init cap) (pc_threads NP NC) = NP * (5 * K + 3) + NC"
    by (simp add: pc_pot_def pc_init_def pc_threads_def pq_new_def comp_def sum_list_triv)
  moreover have "pc.fee (length (pc_threads NP NC)) = 6 * (NP + NC) + 6"
    by (simp add: pc.fee_def pc_threads_def)
  ultimately show ?thesis
    using pc.run_bounded [of NP K cap NC es c] assms by (simp add: pc_step_def [abs_def] pc_start_def pc_threads_def)
qed

text \<open>A complete run with one producer, one item and one consumer, who goes to sleep first.\<close>

definition pc_demo :: "(nat \<times> choice) list \<times> (pc_state, pc_loc) cfg" where
  "pc_demo = drive (\<lambda>_. pc_thread 1 1) [1, 0] 40 (pc_start 1 1 1)"

lemma pc_demo_fin: "all_finb (\<lambda>_. pc_thread 1 1) (snd pc_demo)"
  by code_simp

lemma pc_demo_reach: "run (pc_step 1 1) (pc_start 1 1 1) (fst pc_demo) = Some (snd pc_demo)"
  unfolding pc_demo_def pc_step_def by (rule drive_run) simp

theorem prodcons_terminates_witness: "length (fst pc_demo) \<le> 18 * 9 + 4 + 3 * spurs (fst pc_demo)"
  using prodcons_terminates [OF pc_demo_reach] by simp

text \<open>C1: the program always ends, and with the right result: under every schedule its number of steps is bounded (up to three more for each
  spurious wake-up that the library delivers), it does not get stuck before all threads have returned, and then every
  item of every producer has been printed by a consumer exactly once and the counters agree.\<close>

theorem prodcons_completes:
  assumes "run (pc_step NP K) (pc_start NP NC cap) es = Some c" "0 < NP" "0 < NC" "0 < cap"
  shows "length es \<le> (6 * (NP + NC) + 6) * (NP * (5 * K + 3) + NC) + 2 * (NP + NC) + 3 * spurs es \<and>
    (stuck (\<lambda>_. pc_thread NP K) c \<longrightarrow> all_fin (\<lambda>_. pc_thread NP K) c \<and> mset (map snd (pc_printed (shared c))) = pc_items NP K \<and>
      pq_q (pc_queue (shared c)) = [] \<and> pc_produced (shared c) = NP * K \<and> pc_consumed (shared c) = NP * K)"
proof -
  have r: "reach (pc_step NP K) (pc_start NP NC cap) c" by (rule run_reach [OF assms(1)])
  show ?thesis using prodcons_terminates [OF assms(1)] pc_stuck_fin [OF r _ assms(2-4)] pc_fin_result [OF r _ assms(3)] by simp
qed

theorem prodcons_completes_witness: "\<exists>c. pc_consumed (shared c) = 1 \<and> all_fin (\<lambda>_. pc_thread 1 1) c"
  using prodcons_completes [OF pc_demo_reach] pc_demo_fin by (auto simp: all_finb intro: all_fin_stuck)

text \<open>at every moment the queue holds at most \<open>cap\<close> values, and the values queued, held by
  a consumer or printed are, as a multiset, among the items: nothing is duplicated or made up.\<close>

theorem prodcons_safe:
  assumes "reach (pc_step NP K) (pc_start NP NC cap) c"
  shows "length (pq_q (pc_queue (shared c))) \<le> cap \<and>
    mset (pq_q (pc_queue (shared c))) + mset (map snd (pc_printed (shared c))) + sum_list (map pc_held (locs c)) \<subseteq># pc_items NP K"
proof -
  let ?ls = "locs c"
  have I: "pc_inv NP NC K cap (shared c) ?ls" using pc.I_reach [OF pc_reach [OF assms]] .
  then have roles: "map pc_role ?ls = map Inl [0..<NP] @ map Inr [0..<NC]" and bound: "\<forall>l\<in>set ?ls. pc_bound K l"
    and q: "length (pq_q (pc_queue (shared c))) \<le> cap" and flow: "pc_flow K (shared c) ?ls"
    by (auto simp: pc_inv_def pc_shape_def pq_invar_def)
  have "pc_pushed K l \<subseteq># pc_quota K (pc_role l)" if "pc_bound K l" for l
  proof (cases l)
    case (PushItem p i)
    with that show ?thesis by (simp only: pc_pushed.simps pc_role.simps pc_quota.simps pc_bound.simps mset_map_upt)
  next
    case (CountProduced p i)
    with that show ?thesis
      by (simp only: pc_pushed.simps pc_role.simps pc_quota.simps pc_bound.simps mset_map_upt Suc_leI)
  qed simp_all
  then have "sum_list (map (pc_pushed K) ?ls) \<subseteq># sum_list (map (pc_quota K) (map pc_role ?ls))"
    using bound by (intro sum_list_subset_mset) simp
  then show ?thesis using q flow by (simp add: roles comp_def pc_flow_def pc_items_def sum_list_map_zero)
qed

theorem prodcons_safe_witness: "length (pq_q (pc_queue (shared (snd pc_demo)))) \<le> 1"
  using prodcons_safe [OF run_reach [OF pc_demo_reach]] by simp

end
