(* ===== verification/BoundedMain.thy ===== *)
theory BoundedMain
  imports Queues Progress
begin

text \<open>
  The program of \<open>examples/02_cpp11_threads/03_condition_variables/02_producer_consumer.cpp\<close>: one producer pushes the
  numbers 0 to \<open>K - 1\<close> into a \<open>BoundedQueue\<close> and closes it, the consumers pop until it is closed and
  drained. With a single producer the first-in first-out order of the queue is visible in the
  output of each consumer.
\<close>

record bm_state =
  bm_q :: "int BoundedQueue"
  bm_said :: "int list"
  bm_out :: "nat \<Rightarrow> int list"
  bm_finished :: "nat list"

datatype bm_loc =
    BPush nat
  | BSay nat
  | BClose
  | BProdEnd
  | BPop nat
  | BGot nat int
  | BEmpty nat
  | BConsEnd nat

fun bm_thread :: "nat \<Rightarrow> bm_loc \<Rightarrow> (bm_state, bm_loc) stmt" where
  "bm_thread K (BPush i) = (if i < K then call bm_q bm_q_update (bq_push 0 1 2 (int i)) (\<lambda>_. BSay i) else Act (\<lambda>s. [(s, BClose)]))"
| "bm_thread K (BSay i) = Act (\<lambda>s. [(s\<lparr>bm_said := bm_said s @ [int i]\<rparr>, BPush (Suc i))])"
| "bm_thread K BClose = call bm_q bm_q_update (bq_close 0 1 2) (\<lambda>_. BProdEnd)"
| "bm_thread K BProdEnd = Fin"
| "bm_thread K (BPop c) = call bm_q bm_q_update (bq_pop 0 1 2) (\<lambda>r. case r of None \<Rightarrow> BEmpty c | Some v \<Rightarrow> BGot c v)"
| "bm_thread K (BGot c v) = Act (\<lambda>s. [(s\<lparr>bm_out := (bm_out s)(c := bm_out s c @ [v])\<rparr>, BPop c)])"
| "bm_thread K (BEmpty c) = Act (\<lambda>s. [(s\<lparr>bm_finished := bm_finished s @ [c]\<rparr>, BConsEnd c)])"
| "bm_thread K (BConsEnd c) = Fin"

definition bm_init :: "nat \<Rightarrow> bm_state" where
  "bm_init cap = \<lparr>bm_q = bq_new cap, bm_said = [], bm_out = (\<lambda>_. []), bm_finished = []\<rparr>"

definition bm_threads :: "nat \<Rightarrow> bm_loc list" where
  "bm_threads NC = BPush 0 # map BPop [0..<NC]"

definition bm_prog :: "nat \<Rightarrow> nat \<Rightarrow> bm_loc \<Rightarrow> (bm_state, bm_loc) stmt" where
  "bm_prog K = (\<lambda>_. bm_thread K)"

definition bm_start :: "nat \<Rightarrow> nat \<Rightarrow> (bm_state, bm_loc) cfg" where
  "bm_start cap NC = start (bm_init cap) (bm_threads NC)"

text \<open>\<open>main\<close>: capacity 4, 20 items, three consumers.\<close>

definition bm_main :: "(bm_state, bm_loc) cfg" where
  "bm_main = bm_start 4 3"

definition bm_main_prog :: "nat \<Rightarrow> bm_loc \<Rightarrow> (bm_state, bm_loc) stmt" where
  "bm_main_prog = bm_prog 20"

subsection \<open>The invariant\<close>

text \<open>How many items the producer has pushed.\<close>

fun bm_pushed :: "nat \<Rightarrow> bm_loc \<Rightarrow> nat" where
  "bm_pushed K (BPush i) = i"
| "bm_pushed K (BSay i) = Suc i"
| "bm_pushed K _ = K"

fun bm_producer :: "nat \<Rightarrow> bm_loc \<Rightarrow> bool" where
  "bm_producer K (BPush i) = (i \<le> K)"
| "bm_producer K (BSay i) = (i < K)"
| "bm_producer K BClose = True"
| "bm_producer K BProdEnd = True"
| "bm_producer K _ = False"

fun bm_consumer :: "nat \<Rightarrow> bm_loc \<Rightarrow> bool" where
  "bm_consumer c (BPop d) = (d = c)"
| "bm_consumer c (BGot d v) = (d = c)"
| "bm_consumer c (BEmpty d) = (d = c)"
| "bm_consumer c (BConsEnd d) = (d = c)"
| "bm_consumer c _ = False"

fun bm_held :: "bm_loc \<Rightarrow> int list" where
  "bm_held (BGot c v) = [v]"
| "bm_held _ = []"

fun bm_leaving :: "bm_loc \<Rightarrow> bool" where
  "bm_leaving (BEmpty c) = True"
| "bm_leaving (BConsEnd c) = True"
| "bm_leaving _ = False"

text \<open>What consumer \<open>c\<close> has taken out of the queue; \<open>t\<close> items have been taken in all.\<close>

definition bm_taken :: "bm_state \<Rightarrow> bm_loc list \<Rightarrow> nat \<Rightarrow> int list" where
  "bm_taken s cs c = bm_out s c @ bm_held (cs ! c)"

definition bm_flow :: "nat \<Rightarrow> nat \<Rightarrow> (nat \<Rightarrow> int list) \<Rightarrow> bool" where
  "bm_flow NC t tk \<longleftrightarrow> (\<Sum>c<NC. mset (tk c)) = mset (map int [0..<t]) \<and> (\<forall>c<NC. sorted_wrt (<) (tk c) \<and> (\<forall>v\<in>set (tk c). v < int t))"

definition sorted_lists :: "nat \<Rightarrow> (nat \<Rightarrow> int list) \<Rightarrow> bool" where
  "sorted_lists NC out \<longleftrightarrow> list_all (\<lambda>k. sorted_wrt (<) (out k)) [0..<NC]"

lemma bm_flow_cong: "(\<And>c. c < NC \<Longrightarrow> tk c = tk' c) \<Longrightarrow> bm_flow NC t tk = bm_flow NC t tk'"
  by (simp add: bm_flow_def)

lemma bm_flow_take:
  assumes "bm_flow NC t tk" "c < NC"
  shows "bm_flow NC (Suc t) (tk(c := tk c @ [int t]))"
proof -
  have "(\<Sum>d<NC. mset ((tk(c := tk c @ [int t])) d)) + mset (tk c) = (\<Sum>d<NC. mset (tk d)) + mset (tk c @ [int t])"
    by (rule sum_fun_upd [OF assms(2)])
  then have "(\<Sum>d<NC. mset ((tk(c := tk c @ [int t])) d)) = (\<Sum>d<NC. mset (tk d)) + {#int t#}" by simp
  moreover have "v < 1 + int t" if "d < NC" "v \<in> set (tk d)" for d v
    using assms(1) that unfolding bm_flow_def by (metis add.commute zless_add1_eq)
  ultimately show ?thesis using assms by (auto simp: bm_flow_def sorted_wrt_append)
qed

definition bm_inv :: "nat \<Rightarrow> nat \<Rightarrow> nat \<Rightarrow> bm_state \<Rightarrow> bm_loc list \<Rightarrow> bool" where
  "bm_inv K NC cap s ls \<longleftrightarrow> (\<exists>p cs t. ls = p # cs \<and> length cs = NC \<and> bm_producer K p \<and> (\<forall>c<NC. bm_consumer c (cs ! c)) \<and>
     bq_invar (bm_q s) \<and> bq_cap (bm_q s) = cap \<and> bq_done (bm_q s) = (p = BProdEnd) \<and>
     t \<le> bm_pushed K p \<and> bq_q (bm_q s) = map int [t..<bm_pushed K p] \<and> bm_flow NC t (bm_taken s cs) \<and>
     (\<forall>c<NC. bm_leaving (cs ! c) \<longrightarrow> p = BProdEnd \<and> bq_q (bm_q s) = []))"

lemma bm_push_effect:
  assumes "(s', l') \<in> set (effects (call bm_q bm_q_update (bq_push 0 1 2 v) k) s)" "\<not> bq_done (bm_q s)" "bq_invar (bm_q s)"
  obtains q where "s' = s\<lparr>bm_q := q\<rparr>" "l' = k ()" "bq_invar q" "bq_q q = bq_q (bm_q s) @ [v]" "bq_cap q = bq_cap (bm_q s)" "\<not> bq_done q"
proof (rule effects_callE [OF assms(1)])
  fix q r pre post
  assume a: "enabled (bq_push 0 1 2 v) (bm_q s)" "body (bq_push 0 1 2 v) (bm_q s) = (q, r, pre, post)" "s' = bm_q_update (\<lambda>_. q) s" "l' = k r"
  then show thesis using assms(2) that by (elim bq.push_cases [OF assms(3)]) auto
qed

lemma bm_pop_effect:
  assumes "(s', l') \<in> set (effects (call bm_q bm_q_update (bq_pop 0 1 2) k) s)" "bq_invar (bm_q s)"
  obtains "s' = s" "l' = k None" "bq_done (bm_q s)" "bq_q (bm_q s) = []"
  | q v where "s' = s\<lparr>bm_q := q\<rparr>" "l' = k (Some v)" "bq_invar q" "bq_q (bm_q s) = v # bq_q q"
    "bq_cap q = bq_cap (bm_q s)" "bq_done q = bq_done (bm_q s)"
proof (rule effects_callE [OF assms(1)])
  fix q r pre post
  assume a: "enabled (bq_pop 0 1 2) (bm_q s)" "body (bq_pop 0 1 2) (bm_q s) = (q, r, pre, post)" "s' = bm_q_update (\<lambda>_. q) s" "l' = k r"
  from assms(2) a(1,2) show thesis by (rule bq.pop_cases) (use a(3,4) that in auto)
qed

lemma bm_close_effect:
  assumes "(s', l') \<in> set (effects (call bm_q bm_q_update (bq_close 0 1 2) k) s)" "bq_invar (bm_q s)"
  obtains q where "s' = s\<lparr>bm_q := q\<rparr>" "l' = k ()" "bq_invar q" "bq_q q = bq_q (bm_q s)" "bq_cap q = bq_cap (bm_q s)" "bq_done q"
proof (rule effects_callE [OF assms(1)])
  fix q r pre post
  assume a: "body (bq_close 0 1 2) (bm_q s) = (q, r, pre, post)" "s' = bm_q_update (\<lambda>_. q) s" "l' = k r"
  with bq.close_body [OF assms(2) a(1)] that show thesis by auto
qed

lemma bm_inv_step:
  assumes inv: "bm_inv K NC cap s ls" and i: "i < length ls" and e: "(s', l') \<in> set (effects (bm_thread K (ls ! i)) s)"
  shows "bm_inv K NC cap s' (ls[i := l'])"
proof -
  from inv obtain p cs t where ls: "ls = p # cs" "length cs = NC" and k: "bm_producer K p" "\<And>c. c < NC \<Longrightarrow> bm_consumer c (cs ! c)"
    and q: "bq_invar (bm_q s)" "bq_cap (bm_q s) = cap" "bq_done (bm_q s) = (p = BProdEnd)"
    and t: "t \<le> bm_pushed K p" "bq_q (bm_q s) = map int [t..<bm_pushed K p]" and flow: "bm_flow NC t (bm_taken s cs)"
    and lv: "\<And>c. c < NC \<Longrightarrow> bm_leaving (cs ! c) \<Longrightarrow> p = BProdEnd \<and> bq_q (bm_q s) = []"
    unfolding bm_inv_def by blast
  show ?thesis
  proof (cases i)
    case 0
    have e: "(s', l') \<in> set (effects (bm_thread K p) s)" using e ls 0 by simp
    have keep: "bm_inv K NC cap s' (ls[i := l'])"
      if "bm_producer K l'" "bq_invar (bm_q s')" "bq_cap (bm_q s') = cap" "bq_done (bm_q s') = (l' = BProdEnd)"
        "bm_pushed K p \<le> bm_pushed K l'" "bq_q (bm_q s') = map int [t..<bm_pushed K l']" "bm_out s' = bm_out s" "p \<noteq> BProdEnd"
    proof -
      have "\<not> bm_leaving (cs ! c)" if "c < NC" for c using lv that \<open>p \<noteq> BProdEnd\<close> by blast
      moreover have "bm_taken s' cs = bm_taken s cs" using that(7) by (simp add: bm_taken_def [abs_def])
      ultimately show ?thesis unfolding bm_inv_def using ls k(2) that t(1) flow 0
        by (intro exI [where x = l'] exI [where x = cs] exI [where x = t]) simp
    qed
    show ?thesis
    proof (cases p)
      case (BPush j)
      show ?thesis
      proof (cases "j < K")
        case True
        with e BPush have c: "(s', l') \<in> set (effects (call bm_q bm_q_update (bq_push 0 1 2 (int j)) (\<lambda>_. BSay j)) s)" by simp
        show ?thesis
          by (rule bm_push_effect [OF c]; (rule keep)?) (use q t BPush True in auto)
      next
        case False
        show ?thesis by (rule keep) (use e q t k(1) BPush False in auto)
      qed
    next
      case (BSay j)
      show ?thesis by (rule keep) (use e q t k(1) BSay in auto)
    next
      case BClose
      with e have c: "(s', l') \<in> set (effects (call bm_q bm_q_update (bq_close 0 1 2) (\<lambda>_. BProdEnd)) s)" by simp
      show ?thesis by (rule bm_close_effect [OF c q(1)], rule keep) (use q t BClose in auto)
    qed (use e k(1) in auto)
  next
    case (Suc c)
    have c: "c < NC" "c < length cs" using Suc i ls by auto
    have e: "(s', l') \<in> set (effects (bm_thread K (cs ! c)) s)" using e ls Suc by simp
    have keep: "bm_inv K NC cap s' (ls[i := l'])"
      if "bm_consumer c l'" "bq_invar (bm_q s')" "bq_cap (bm_q s') = cap" "bq_done (bm_q s') = bq_done (bm_q s)" "t \<le> u" "u \<le> bm_pushed K p"
        "bq_q (bm_q s') = map int [u..<bm_pushed K p]" "bm_flow NC u (bm_taken s' (cs[c := l']))"
        "bm_leaving l' \<Longrightarrow> p = BProdEnd \<and> bq_q (bm_q s') = []" for u
    proof -
      have "bq_q (bm_q s) = [] \<Longrightarrow> bq_q (bm_q s') = []" using that(5,7) t(2) by auto
      then have "p = BProdEnd \<and> bq_q (bm_q s') = []" if "d < NC" "bm_leaving (cs[c := l'] ! d)" for d
        using lv [OF that(1)] that \<open>bm_leaving l' \<Longrightarrow> _\<close> c(2) by (cases "d = c") auto
      moreover have "bm_consumer d (cs[c := l'] ! d)" if "d < NC" for d using k(2) [OF that] \<open>bm_consumer c l'\<close> c(2) by (cases "d = c") auto
      moreover have "bq_done (bm_q s') = (p = BProdEnd)" using that(4) q(3) by simp
      moreover have "ls[i := l'] = p # cs[c := l'] \<and> length (cs[c := l']) = NC" using ls Suc by simp
      ultimately show ?thesis unfolding bm_inv_def using k(1) that
        by (intro exI [where x = p] exI [where x = "cs[c := l']"] exI [where x = u]) blast
    qed
    show ?thesis
    proof (cases "cs ! c")
      case (BPop d)
      then have d: "d = c" using k(2) [OF c(1)] by simp
      with e BPop have pe: "(s', l') \<in> set (effects (call bm_q bm_q_update (bq_pop 0 1 2) (\<lambda>r. case r of None \<Rightarrow> BEmpty c | Some v \<Rightarrow> BGot c v)) s)" by simp
      show ?thesis
      proof (rule bm_pop_effect [OF pe q(1)])
        assume a: "s' = s" "l' = (case None of None \<Rightarrow> BEmpty c | Some v \<Rightarrow> BGot c v)" "bq_done (bm_q s)" "bq_q (bm_q s) = []"
        have "bm_flow NC t (bm_taken s' (cs[c := l']))"
          using flow a BPop c(2) by (subst bm_flow_cong [of _ _ "bm_taken s cs"]) (auto simp: bm_taken_def nth_list_update)
        then show ?thesis by (intro keep [of t]) (use a q t in auto)
      next
        fix qq v assume a: "s' = s\<lparr>bm_q := qq\<rparr>" "l' = (case Some v of None \<Rightarrow> BEmpty c | Some v \<Rightarrow> BGot c v)" "bq_invar qq"
          "bq_q (bm_q s) = v # bq_q qq" "bq_cap qq = bq_cap (bm_q s)" "bq_done qq = bq_done (bm_q s)"
        then have v: "v = int t" "bq_q qq = map int [Suc t..<bm_pushed K p]" "Suc t \<le> bm_pushed K p"
          using t by (cases "t < bm_pushed K p"; simp add: upt_conv_Cons)+
        have "bm_flow NC (Suc t) (bm_taken s' (cs[c := l']))"
          using bm_flow_take [OF flow c(1)] a v(1) BPop c(2)
          by (subst bm_flow_cong [of _ _ "(bm_taken s cs)(c := bm_taken s cs c @ [int t])"]) (auto simp: bm_taken_def nth_list_update)
        then show ?thesis by (intro keep [of "Suc t"]) (use a v q in auto)
      qed
    next
      case (BGot d v)
      then have d: "d = c" using k(2) [OF c(1)] by simp
      then have a: "s' = s\<lparr>bm_out := (bm_out s)(c := bm_out s c @ [v])\<rparr>" "l' = BPop c" using e BGot by auto
      have "bm_flow NC t (bm_taken s' (cs[c := l']))"
        using flow a BGot d c(2) by (subst bm_flow_cong [of _ _ "bm_taken s cs"]) (auto simp: bm_taken_def nth_list_update)
      then show ?thesis by (intro keep [of t]) (use a q t in auto)
    next
      case (BEmpty d)
      then have d: "d = c" using k(2) [OF c(1)] by simp
      then have a: "s' = s\<lparr>bm_finished := bm_finished s @ [c]\<rparr>" "l' = BConsEnd c" using e BEmpty by auto
      have "bm_flow NC t (bm_taken s' (cs[c := l']))"
        using flow a BEmpty d c(2) by (subst bm_flow_cong [of _ _ "bm_taken s cs"]) (auto simp: bm_taken_def nth_list_update)
      then show ?thesis by (intro keep [of t]) (use a q t lv [OF c(1)] BEmpty in auto)
    qed (use e k(2) [OF c(1)] in auto)
  qed
qed

lemma bm_inv_init: "bm_inv K NC cap (bm_init cap) (bm_threads NC)"
proof -
  have "bm_taken (bm_init cap) (map BPop [0..<NC]) c = []" if "c < NC" for c
    using that by (simp add: bm_taken_def bm_init_def)
  then have "bm_flow NC 0 (bm_taken (bm_init cap) (map BPop [0..<NC]))" by (simp add: bm_flow_def)
  then show ?thesis unfolding bm_inv_def
    by (intro exI [where x = "BPush 0"] exI [where x = "map BPop [0..<NC]"] exI [where x = 0])
      (simp add: bm_init_def bm_threads_def bq_new_def bq_invar_def)
qed

lemma bm_inv_queue: "bm_inv K NC cap s ls \<Longrightarrow> bq_invar (bm_q s)"
  by (auto simp: bm_inv_def)

subsection \<open>Wake-ups\<close>

lemma bm_queue_stmt: "queue_stmt bm_q bm_q_update (bq_push 0 1 2) (bq_pop 0 1 2) 2 1 (bm_thread K l)"
proof (cases l)
  case BClose
  have "queue_stmt bm_q bm_q_update (bq_push 0 1 2) (bq_pop 0 1 2) 2 1
      (call bm_q bm_q_update (bq_close 0 1 2) (\<lambda>_. BProdEnd))"
    by (rule queue_stmt_close) (auto simp: bq_close_def)
  with BClose show ?thesis by simp
qed (auto intro!: queue_stmt_intros)

interpretation bm: queue_client "\<lambda>_. bm_thread K" "bm_init cap" "bm_threads NC" "bm_inv K NC cap"
    bq_invar bq_q bq_cap bq_done "bq_push 0 1 2" "bq_pop 0 1 2" "\<lambda>r. r" 0 2 1 bm_q bm_q_update
  for K NC cap
  by unfold_locales (simp_all add: bm_inv_init bm_inv_step bm_inv_queue bm_queue_stmt del: One_nat_def)

lemma bm_monitor_cases [consumes 1, case_names push close pop]:
  assumes "bm_thread K l = Monitor m w b"
  obtains (push) i where "l = BPush i" "i < K" "call bm_q bm_q_update (bq_push 0 1 2 (int i)) (\<lambda>_. BSay i) = Monitor m w b"
  | (close) "l = BClose" "call bm_q bm_q_update (bq_close 0 1 2) (\<lambda>_. BProdEnd) = Monitor m w b"
  | (pop) c where "l = BPop c" "call bm_q bm_q_update (bq_pop 0 1 2)
      (\<lambda>r. case r of None \<Rightarrow> BEmpty c | Some v \<Rightarrow> BGot c v) = Monitor m w b"
  using assms by (cases l) (auto split: if_splits)

subsection \<open>Termination\<close>

text \<open>What is left to do: a queued item still costs the two steps of the consumer that takes it.\<close>

fun bm_todo :: "nat \<Rightarrow> bm_loc \<Rightarrow> nat" where
  "bm_todo K (BPush i) = 4 * (K - i) + 2"
| "bm_todo K (BSay i) = 4 * (K - Suc i) + 3"
| "bm_todo K BClose = 1"
| "bm_todo K BProdEnd = 0"
| "bm_todo K (BPop c) = 2"
| "bm_todo K (BGot c v) = 3"
| "bm_todo K (BEmpty c) = 1"
| "bm_todo K (BConsEnd c) = 0"

definition bm_pot :: "nat \<Rightarrow> bm_state \<Rightarrow> bm_loc list \<Rightarrow> nat" where
  "bm_pot K s ls = 2 * length (bq_q (bm_q s)) + sum_list (map (bm_todo K) ls)"

lemma bm_todo_step:
  assumes "(s', l') \<in> set (effects (bm_thread K l) s)"
  shows "2 * length (bq_q (bm_q s')) + bm_todo K l' < 2 * length (bq_q (bm_q s)) + bm_todo K l"
  using assms
  by (cases l) (auto simp: bq_push_def bq_pop_def bq_close_def elim!: effects_callE split: list.splits if_splits)

lemma bm_pot_step:
  assumes "i < length ls" "(s', l') \<in> set (effects (bm_thread K (ls ! i)) s)"
  shows "bm_pot K s' (ls[i := l']) < bm_pot K s ls"
proof -
  obtain R where "sum_list (map (bm_todo K) ls) = R + bm_todo K (ls ! i)"
    "\<And>x. sum_list (map (bm_todo K) (ls[i := x])) = R + bm_todo K x" using sum_list_split [OF assms(1)] by blast
  then show ?thesis using bm_todo_step [OF assms(2)] by (simp add: bm_pot_def)
qed

lemma bm_notes: "bm_thread K l = Monitor m w b \<Longrightarrow> b s = (s', l', pre, post) \<Longrightarrow> length pre + length post \<le> 2"
  by (cases rule: bm_monitor_cases, assumption; elim call_body)
    (auto simp: bq_push_def bq_pop_def bq_close_def split: list.splits if_splits)

interpretation bm: terminating "\<lambda>_. bm_thread K" "bm_init cap" "bm_threads NC" "bm_inv K NC cap" "bm_pot K" 2
  for K NC cap
  by unfold_locales (auto simp: bm_pot_step intro: bm_notes)

lemma bm_bounded:
  assumes "run (step (bm_prog K)) (bm_start cap NC) es = Some c"
  shows "length es \<le> (6 * NC + 12) * (4 * K + 2 * NC + 2) + 2 * NC + 2 + 3 * spurs es"
proof -
  have "bm_pot K (bm_init cap) (bm_threads NC) = 4 * K + 2 * NC + 2"
    by (simp add: bm_pot_def bm_init_def bm_threads_def bq_new_def comp_def sum_list_triv)
  moreover have "bm.fee (length (bm_threads NC)) = 6 * NC + 12"
    by (simp add: bm.fee_def bm_threads_def)
  ultimately show ?thesis
    using bm.run_bounded [of K cap NC es c] assms by (simp add: bm_prog_def bm_start_def bm_threads_def)
qed

subsection \<open>States in which nothing moves\<close>

lemma bm_stuck_locs:
  assumes r: "reach (step (\<lambda>_. bm_thread K)) (start (bm_init cap) (bm_threads NC)) c" "stuck (\<lambda>_. bm_thread K) c"
    and i: "i < length (thr c)"
  obtains (producer) "thr c ! i = At BProdEnd" | (consumer) k where "thr c ! i = At (BConsEnd k)"
  | (full) k where "loc (thr c ! i) = BPush k" "\<not> bq_done (bm_q (shared c))" "length (bq_q (bm_q (shared c))) = cap"
  | (empty) k where "loc (thr c ! i) = BPop k" "\<not> bq_done (bm_q (shared c))" "bq_q (bm_q (shared c)) = []"
proof -
  note ok = reach_ok [OF r(1)]
  have cap: "bq_cap (bm_q (shared c)) = cap"
    using bm.I_reach [OF r(1)] by (auto simp: bm_inv_def)
  from r(2) i ok(1,2) show thesis
  proof (cases rule: stuck_cases)
    case (fin l)
    then show thesis using producer consumer by (cases l) (auto split: if_splits)
  next
    case (blocked l f)
    then show thesis by (cases l) (auto split: if_splits)
  next
    case (asleep l m v p b)
    from asleep(2) show thesis
    proof (cases rule: bm_monitor_cases)
      case (push k)
      then show thesis using full bm.stuck_push [OF r(1) r(2) i asleep(1)] asleep cap by simp
    next
      case (pop k)
      then show thesis using empty bm.stuck_pop [OF r(1) r(2) i asleep(1)] asleep by simp
    qed (use asleep(2) in \<open>simp add: call_Monitor bq_close_def\<close>)
  qed
qed

lemma bm_stuck_fin:
  assumes r: "reach (step (\<lambda>_. bm_thread K)) (start (bm_init cap) (bm_threads NC)) c" "stuck (\<lambda>_. bm_thread K) c"
    and pos: "0 < NC" "0 < cap"
  shows "all_fin (\<lambda>_. bm_thread K) c"
proof -
  let ?q = "bm_q (shared c)"
  obtain p cs where ls: "locs c = p # cs" "length cs = NC" and k: "bm_producer K p" "\<And>c. c < NC \<Longrightarrow> bm_consumer c (cs ! c)"
    and d: "bq_done ?q = (p = BProdEnd)" and lv: "\<And>c. c < NC \<Longrightarrow> bm_leaving (cs ! c) \<Longrightarrow> p = BProdEnd \<and> bq_q ?q = []"
    using bm.I_reach [OF r(1)] unfolding bm_inv_def by blast
  have len: "length (thr c) = Suc NC" using arg_cong [OF ls(1), of length] ls(2) by simp
  have loc0: "loc (thr c ! 0) = p" and locS: "\<And>j. j < NC \<Longrightarrow> loc (thr c ! Suc j) = cs ! j"
  proof -
    have "loc (thr c ! i) = (p # cs) ! i" if "i < Suc NC" for i
      using that len arg_cong [OF ls(1), of "\<lambda>xs. xs ! i"] by simp
    from this [of 0] this [of "Suc _"] show "loc (thr c ! 0) = p" "\<And>j. j < NC \<Longrightarrow> loc (thr c ! Suc j) = cs ! j"
      by simp_all
  qed
  have "p = BProdEnd"
  proof (rule ccontr)
    assume np: "p \<noteq> BProdEnd"
    have full: "length (bq_q ?q) = cap"
      by (rule bm_stuck_locs [OF r, of 0]) (use len loc0 np k(1) in auto)
    show False
      by (rule bm_stuck_locs [OF r, of 1]) (use len locS [of 0] pos k(2) [of 0] lv [of 0] np full in \<open>auto dest: sym\<close>)
  qed
  with d have "bq_done ?q" by simp
  then have "\<exists>l. thr c ! i = At l \<and> bm_thread K l = Fin" if "i < length (thr c)" for i
    by (cases rule: bm_stuck_locs [OF r that]) auto
  then show ?thesis by (simp add: all_fin_def)
qed

lemma bm_stuck_result:
  assumes "reach (step (bm_prog K)) (bm_start cap NC) c" "stuck (bm_prog K) c" "0 < NC" "0 < cap"
  shows "all_fin (bm_prog K) c \<and> (\<Sum>k<NC. mset (bm_out (shared c) k)) = mset (map int [0..<K]) \<and>
    sorted_lists NC (bm_out (shared c))"
proof -
  have r: "reach (step (\<lambda>_. bm_thread K)) (start (bm_init cap) (bm_threads NC)) c" and st: "stuck (\<lambda>_. bm_thread K) c"
    using assms(1,2) by (simp_all add: bm_prog_def bm_start_def)
  have fin: "all_fin (\<lambda>_. bm_thread K) c" by (rule bm_stuck_fin [OF r st assms(3,4)])
  obtain p cs t where ls: "locs c = p # cs" "length cs = NC" and k: "bm_producer K p" "\<And>c. c < NC \<Longrightarrow> bm_consumer c (cs ! c)"
    and t: "t \<le> bm_pushed K p" "bq_q (bm_q (shared c)) = map int [t..<bm_pushed K p]" and flow: "bm_flow NC t (bm_taken (shared c) cs)"
    and lv: "\<And>d. d < NC \<Longrightarrow> bm_leaving (cs ! d) \<Longrightarrow> p = BProdEnd \<and> bq_q (bm_q (shared c)) = []"
    using bm.I_reach [OF r] unfolding bm_inv_def by blast
  have ends: "cs ! d = BConsEnd d" if "d < NC" for d
  proof -
    have "cs ! d \<in> set (locs c)" using ls that by simp
    then obtain i where "i < length (thr c)" "cs ! d = loc (thr c ! i)" by (auto simp: in_set_conv_nth)
    then have "bm_thread K (cs ! d) = Fin" using fin by (auto simp: all_fin_def)
    then show ?thesis using k(2) [OF that] by (cases "cs ! d") auto
  qed
  then have "p = BProdEnd" "bq_q (bm_q (shared c)) = []" using lv [of 0] assms(3) by simp_all
  then have "t = K" using t by auto
  moreover have "bm_flow NC t (bm_out (shared c))"
    using flow ends by (subst bm_flow_cong [of _ _ "bm_taken (shared c) cs"]) (simp_all add: bm_taken_def)
  ultimately show ?thesis using fin by (auto simp: bm_prog_def bm_flow_def sorted_lists_def list_all_iff)
qed

text \<open>C24: every run of the bounded queue's \<open>main\<close> ends after a bounded number of steps, the producer and the consumers
  never get stuck before they are all finished, and then every number from 0 to \<open>K - 1\<close> was consumed exactly once and
  each consumer printed its numbers in increasing order.\<close>

theorem bounded_queue_fifo:
  assumes "run (step (bm_prog K)) (bm_start cap NC) es = Some c" "0 < NC" "0 < cap"
  shows "length es \<le> (6 * NC + 12) * (4 * K + 2 * NC + 2) + 2 * NC + 2 + 3 * spurs es \<and>
    (stuck (bm_prog K) c \<longrightarrow> all_fin (bm_prog K) c \<and> (\<Sum>k<NC. mset (bm_out (shared c) k)) = mset (map int [0..<K]) \<and>
      sorted_lists NC (bm_out (shared c)))"
  using bm_bounded [OF assms(1)] bm_stuck_result [OF run_reach [OF assms(1)] _ assms(2,3)] by blast

text \<open>Two consumers and three items.\<close>

definition bm_demo :: "(nat \<times> choice) list \<times> (bm_state, bm_loc) cfg" where
  "bm_demo = drive (\<lambda>_. bm_thread 3) [1, 0, 2] 60 (bm_start 2 2)"

lemma bm_demo_fin: "all_finb (bm_prog 3) (snd bm_demo)"
  by code_simp

lemma bm_demo_run: "run (step (bm_prog 3)) (bm_start 2 2) (fst bm_demo) = Some (snd bm_demo)"
  unfolding bm_demo_def bm_prog_def by (rule drive_run) simp

theorem bounded_queue_fifo_witness: "(\<Sum>k<2. mset (bm_out (shared (snd bm_demo)) k)) = mset (map int [0..<3])"
  using bounded_queue_fifo [OF bm_demo_run] bm_demo_fin by (auto simp: all_finb intro: all_fin_stuck)

end
