(* ===== verification/Pipeline.thy ===== *)
theory Pipeline
  imports Queues Progress
begin

text \<open>
  \<open>examples/03_patterns/06_pipeline.cpp\<close>: a source, two stages and a sink, connected by three
  bounded queues. The theory shows that the sink prints exactly the images of the source's
  values, in order, that the pipeline shuts down stage by stage, and that it always ends.
\<close>

subsection \<open>The program\<close>

text \<open>\<open>std::to_string\<close> on a non-negative number.\<close>

fun string_of_nat :: "nat \<Rightarrow> string" where
  "string_of_nat n = (if n < 10 then [char_of (48 + n)] else string_of_nat (n div 10) @ [char_of (48 + n mod 10)])"

declare string_of_nat.simps [simp del]

definition to_string :: "int \<Rightarrow> string" where
  "to_string i = (if i < 0 then CHR ''-'' # string_of_nat (nat (- i)) else string_of_nat (nat i))"

definition square :: "int \<Rightarrow> int" where
  "square v = v * v"

definition in_parens :: "int \<Rightarrow> string" where
  "in_parens v = ''('' @ to_string v @ '')''"

record pipe_state =
  pp_q1 :: "int BQ"
  pp_q2 :: "int BQ"
  pp_q3 :: "string BQ"
  pp_out :: "string list"

datatype pipe_loc =
    Source nat
  | SourceEnd
  | Stage1
  | Stage1Push int
  | Stage1Close
  | Stage1End
  | Stage2
  | Stage2Push int
  | Stage2Close
  | Stage2End
  | Sink
  | SinkPrint string
  | SinkEnd

text \<open>The four threads; queue \<open>k\<close> has mutex \<open>k - 1\<close> and condition variables \<open>2 k - 2\<close>, \<open>2 k - 1\<close>.\<close>

fun pipe_thread :: "nat \<Rightarrow> pipe_loc \<Rightarrow> (pipe_state, pipe_loc) stmt" where
  "pipe_thread N (Source i) = (if i \<le> N then call pp_q1 pp_q1_update (st_push 0 0 1 (int i)) (\<lambda>_. Source (Suc i))
     else call pp_q1 pp_q1_update (st_close 0 0 1) (\<lambda>_. SourceEnd))"
| "pipe_thread N SourceEnd = Fin"
| "pipe_thread N Stage1 = call pp_q1 pp_q1_update (st_pop 0 0 1) (\<lambda>r. case r of Some v \<Rightarrow> Stage1Push v | None \<Rightarrow> Stage1Close)"
| "pipe_thread N (Stage1Push v) = call pp_q2 pp_q2_update (st_push 1 2 3 (square v)) (\<lambda>_. Stage1)"
| "pipe_thread N Stage1Close = call pp_q2 pp_q2_update (st_close 1 2 3) (\<lambda>_. Stage1End)"
| "pipe_thread N Stage1End = Fin"
| "pipe_thread N Stage2 = call pp_q2 pp_q2_update (st_pop 1 2 3) (\<lambda>r. case r of Some v \<Rightarrow> Stage2Push v | None \<Rightarrow> Stage2Close)"
| "pipe_thread N (Stage2Push v) = call pp_q3 pp_q3_update (st_push 2 4 5 (in_parens v)) (\<lambda>_. Stage2)"
| "pipe_thread N Stage2Close = call pp_q3 pp_q3_update (st_close 2 4 5) (\<lambda>_. Stage2End)"
| "pipe_thread N Stage2End = Fin"
| "pipe_thread N Sink = call pp_q3 pp_q3_update (st_pop 2 4 5) (\<lambda>r. case r of Some s \<Rightarrow> SinkPrint s | None \<Rightarrow> SinkEnd)"
| "pipe_thread N (SinkPrint s) = Act (\<lambda>st. [(st\<lparr>pp_out := pp_out st @ [s]\<rparr>, Sink)])"
| "pipe_thread N SinkEnd = Fin"

definition pipe_init :: "nat \<Rightarrow> pipe_state" where
  "pipe_init cap = \<lparr>pp_q1 = st_new cap, pp_q2 = st_new cap, pp_q3 = st_new cap, pp_out = []\<rparr>"

definition pipe_threads :: "pipe_loc list" where
  "pipe_threads = [Source 1, Stage1, Stage2, Sink]"

text \<open>\<open>main\<close>: twelve items, queues of capacity 4.\<close>

definition pipe_main :: "(pipe_state, pipe_loc) cfg" where
  "pipe_main = start (pipe_init 4) pipe_threads"

subsection \<open>Effects of the calls\<close>

lemma st_push_effect:
  assumes "(s', l') \<in> set (effects (call get upd (st_push m f e x) k) s)" "\<not> st_closed (get s)" "st_invar (get s)"
  obtains q where "s' = upd (\<lambda>_. q) s" "l' = k ()" "st_invar q" "st_q q = st_q (get s) @ [x]" "\<not> st_closed q" "st_cap q = st_cap (get s)"
  using assms(1)
proof (rule effects_callE)
  fix q r pre post
  assume a: "enabled (st_push m f e x) (get s)" "body (st_push m f e x) (get s) = (q, r, pre, post)" "s' = upd (\<lambda>_. q) s" "l' = k r"
  then have "q = (get s)\<lparr>st_q := st_q (get s) @ [x]\<rparr>" "length (st_q (get s)) < st_cap (get s)"
    using assms(2) by (auto simp: st_push_def enabled_def)
  with a assms(2) that show thesis by (simp add: st_invar_def)
qed

lemma st_pop_effect:
  assumes "(s', l') \<in> set (effects (call get upd (st_pop m f e) k) s)" "st_invar (get s)"
  obtains "s' = upd (\<lambda>_. get s) s" "l' = k None" "st_closed (get s)" "st_q (get s) = []"
  | q v where "s' = upd (\<lambda>_. q) s" "l' = k (Some v)" "st_invar q" "st_q (get s) = v # st_q q" "st_closed q = st_closed (get s)"
     "st_cap q = st_cap (get s)"
  using assms(1)
proof (rule effects_callE)
  fix q r pre post
  assume a: "enabled (st_pop m f e) (get s)" "body (st_pop m f e) (get s) = (q, r, pre, post)" "s' = upd (\<lambda>_. q) s" "l' = k r"
  show thesis
  proof (cases "st_q (get s)")
    case Nil
    with a have "q = get s" "r = None" "st_closed (get s)" by (auto simp: st_pop_def enabled_def)
    with a Nil that(1) show thesis by simp
  next
    case (Cons v vs)
    with a have "q = (get s)\<lparr>st_q := vs\<rparr>" "r = Some v" by (auto simp: st_pop_def)
    with a Cons assms(2) show thesis by (intro that(2) [of q v]) (simp_all add: st_invar_def)
  qed
qed

lemma st_close_effect:
  assumes "(s', l') \<in> set (effects (call get upd (st_close m f e) k) s)" "st_invar (get s)"
  obtains q where "s' = upd (\<lambda>_. q) s" "l' = k ()" "st_invar q" "st_q q = st_q (get s)" "st_closed q" "st_cap q = st_cap (get s)"
  using assms(1)
  by (rule effects_callE) (use assms(2) that in \<open>auto simp: st_close_def st_invar_def\<close>)

subsection \<open>The invariant\<close>

fun src_next :: "nat \<Rightarrow> pipe_loc \<Rightarrow> nat" where
  "src_next N (Source i) = i"
| "src_next N _ = Suc N"

fun hold1 :: "pipe_loc \<Rightarrow> int list" where
  "hold1 (Stage1Push v) = [v]"
| "hold1 _ = []"

fun hold2 :: "pipe_loc \<Rightarrow> int list" where
  "hold2 (Stage2Push v) = [v]"
| "hold2 _ = []"

fun hold3 :: "pipe_loc \<Rightarrow> string list" where
  "hold3 (SinkPrint s) = [s]"
| "hold3 _ = []"

text \<open>What the source has pushed so far is somewhere in the pipeline, in order.\<close>

definition pipe_flow :: "nat \<Rightarrow> pipe_state \<Rightarrow> pipe_loc \<Rightarrow> pipe_loc \<Rightarrow> pipe_loc \<Rightarrow> pipe_loc \<Rightarrow> bool" where
  "pipe_flow N s l0 l1 l2 l3 \<longleftrightarrow> pp_out s @ hold3 l3 @ st_q (pp_q3 s) @
     map in_parens (hold2 l2 @ st_q (pp_q2 s) @ map square (hold1 l1 @ st_q (pp_q1 s))) =
     map (\<lambda>i. in_parens (square (int i))) [1..<src_next N l0]"

definition src_ok :: "nat \<Rightarrow> pipe_state \<Rightarrow> pipe_loc \<Rightarrow> bool" where
  "src_ok N s l0 \<longleftrightarrow> ((\<exists>i. l0 = Source i \<and> 1 \<le> i \<and> i \<le> Suc N) \<or> l0 = SourceEnd) \<and> (st_closed (pp_q1 s) \<longleftrightarrow> l0 = SourceEnd)"

definition stage1_ok :: "pipe_state \<Rightarrow> pipe_loc \<Rightarrow> bool" where
  "stage1_ok s l1 \<longleftrightarrow> (l1 = Stage1 \<or> (\<exists>v. l1 = Stage1Push v) \<or> (l1 = Stage1Close \<or> l1 = Stage1End) \<and> st_closed (pp_q1 s) \<and> st_q (pp_q1 s) = [])
     \<and> (st_closed (pp_q2 s) \<longleftrightarrow> l1 = Stage1End)"

definition stage2_ok :: "pipe_state \<Rightarrow> pipe_loc \<Rightarrow> bool" where
  "stage2_ok s l2 \<longleftrightarrow> (l2 = Stage2 \<or> (\<exists>v. l2 = Stage2Push v) \<or> (l2 = Stage2Close \<or> l2 = Stage2End) \<and> st_closed (pp_q2 s) \<and> st_q (pp_q2 s) = [])
     \<and> (st_closed (pp_q3 s) \<longleftrightarrow> l2 = Stage2End)"

definition sink_ok :: "pipe_state \<Rightarrow> pipe_loc \<Rightarrow> bool" where
  "sink_ok s l3 \<longleftrightarrow> l3 = Sink \<or> (\<exists>v. l3 = SinkPrint v) \<or> l3 = SinkEnd \<and> st_closed (pp_q3 s) \<and> st_q (pp_q3 s) = []"

definition queues_ok :: "nat \<Rightarrow> pipe_state \<Rightarrow> bool" where
  "queues_ok cap s \<longleftrightarrow> st_invar (pp_q1 s) \<and> st_invar (pp_q2 s) \<and> st_invar (pp_q3 s) \<and>
     st_cap (pp_q1 s) = cap \<and> st_cap (pp_q2 s) = cap \<and> st_cap (pp_q3 s) = cap"

definition pipe_inv :: "nat \<Rightarrow> nat \<Rightarrow> pipe_state \<Rightarrow> pipe_loc list \<Rightarrow> bool" where
  "pipe_inv N cap s ls \<longleftrightarrow> (\<exists>l0 l1 l2 l3. ls = [l0, l1, l2, l3] \<and> pipe_flow N s l0 l1 l2 l3 \<and> src_ok N s l0 \<and> stage1_ok s l1
     \<and> stage2_ok s l2 \<and> sink_ok s l3 \<and> queues_ok cap s)"

lemmas pipe_defs = pipe_flow_def src_ok_def stage1_ok_def stage2_ok_def sink_ok_def queues_ok_def

lemma pipe_inv_init: "pipe_inv N cap (pipe_init cap) pipe_threads"
  by (simp add: pipe_inv_def pipe_threads_def pipe_init_def pipe_defs st_new_def st_invar_def)

text \<open>What is left to do: a value costs more steps the earlier in the pipeline it is.\<close>

fun pipe_todo :: "nat \<Rightarrow> pipe_loc \<Rightarrow> nat" where
  "pipe_todo N (Source i) = 7 * (Suc N - i) + 1"
| "pipe_todo N Stage1 = 2"
| "pipe_todo N (Stage1Push v) = 7"
| "pipe_todo N Stage1Close = 1"
| "pipe_todo N Stage2 = 2"
| "pipe_todo N (Stage2Push v) = 5"
| "pipe_todo N Stage2Close = 1"
| "pipe_todo N Sink = 1"
| "pipe_todo N (SinkPrint s) = 2"
| "pipe_todo N _ = 0"

definition pipe_pot :: "nat \<Rightarrow> pipe_state \<Rightarrow> pipe_loc list \<Rightarrow> nat" where
  "pipe_pot N s ls = 6 * length (st_q (pp_q1 s)) + 4 * length (st_q (pp_q2 s)) + 2 * length (st_q (pp_q3 s)) + sum_list (map (pipe_todo N) ls)"

lemma source_step:
  assumes "(s', l') \<in> set (effects (pipe_thread N l0) s)" "pipe_inv N cap s [l0, l1, l2, l3]"
  shows "pipe_inv N cap s' [l', l1, l2, l3] \<and> pipe_pot N s' [l', l1, l2, l3] < pipe_pot N s [l0, l1, l2, l3]"
proof -
  have inv: "src_ok N s l0" "queues_ok cap s" using assms(2) by (auto simp: pipe_inv_def)
  then consider i where "l0 = Source i" "1 \<le> i" "i \<le> N" | i where "l0 = Source i" "i = Suc N" using assms(1)
    by (auto simp: src_ok_def split: if_splits)
  then show ?thesis
  proof cases
    case 1
    with assms(1) have "(s', l') \<in> set (effects (call pp_q1 pp_q1_update (st_push 0 0 1 (int i)) (\<lambda>_. Source (Suc i))) s)" by simp
    then show ?thesis
      by (rule st_push_effect) (use inv 1 assms(2) in \<open>auto simp: pipe_inv_def pipe_defs pipe_pot_def Suc_diff_le\<close>)
  next
    case 2
    with assms(1) have "(s', l') \<in> set (effects (call pp_q1 pp_q1_update (st_close 0 0 1) (\<lambda>_. SourceEnd)) s)" by simp
    then show ?thesis
      by (rule st_close_effect) (use inv 2 assms(2) in \<open>auto simp: pipe_inv_def pipe_defs pipe_pot_def\<close>)
  qed
qed

lemma stage1_step:
  assumes "(s', l') \<in> set (effects (pipe_thread N l1) s)" "pipe_inv N cap s [l0, l1, l2, l3]"
  shows "pipe_inv N cap s' [l0, l', l2, l3] \<and> pipe_pot N s' [l0, l', l2, l3] < pipe_pot N s [l0, l1, l2, l3]"
proof -
  have inv: "stage1_ok s l1" "queues_ok cap s" using assms(2) by (auto simp: pipe_inv_def)
  then consider "l1 = Stage1" | v where "l1 = Stage1Push v" | "l1 = Stage1Close" using assms(1)
    by (auto simp: stage1_ok_def split: if_splits)
  then show ?thesis
  proof cases
    case 1
    with assms(1) have "(s', l') \<in> set (effects (call pp_q1 pp_q1_update (st_pop 0 0 1)
      (\<lambda>r. case r of Some v \<Rightarrow> Stage1Push v | None \<Rightarrow> Stage1Close)) s)" by simp
    then show ?thesis
      by (rule st_pop_effect) (use inv 1 assms(2) in \<open>auto simp: pipe_inv_def pipe_defs pipe_pot_def\<close>)
  next
    case (2 v)
    with assms(1) have "(s', l') \<in> set (effects (call pp_q2 pp_q2_update (st_push 1 2 3 (square v)) (\<lambda>_. Stage1)) s)" by simp
    then show ?thesis
      by (rule st_push_effect) (use inv 2 assms(2) in \<open>auto simp: pipe_inv_def pipe_defs pipe_pot_def\<close>)
  next
    case 3
    with assms(1) have "(s', l') \<in> set (effects (call pp_q2 pp_q2_update (st_close 1 2 3) (\<lambda>_. Stage1End)) s)" by simp
    then show ?thesis
      by (rule st_close_effect) (use inv 3 assms(2) in \<open>auto simp: pipe_inv_def pipe_defs pipe_pot_def\<close>)
  qed
qed

lemma stage2_step:
  assumes "(s', l') \<in> set (effects (pipe_thread N l2) s)" "pipe_inv N cap s [l0, l1, l2, l3]"
  shows "pipe_inv N cap s' [l0, l1, l', l3] \<and> pipe_pot N s' [l0, l1, l', l3] < pipe_pot N s [l0, l1, l2, l3]"
proof -
  have inv: "stage2_ok s l2" "queues_ok cap s" using assms(2) by (auto simp: pipe_inv_def)
  then consider "l2 = Stage2" | v where "l2 = Stage2Push v" | "l2 = Stage2Close" using assms(1)
    by (auto simp: stage2_ok_def split: if_splits)
  then show ?thesis
  proof cases
    case 1
    with assms(1) have "(s', l') \<in> set (effects (call pp_q2 pp_q2_update (st_pop 1 2 3)
      (\<lambda>r. case r of Some v \<Rightarrow> Stage2Push v | None \<Rightarrow> Stage2Close)) s)" by simp
    then show ?thesis
      by (rule st_pop_effect) (use inv 1 assms(2) in \<open>auto simp: pipe_inv_def pipe_defs pipe_pot_def\<close>)
  next
    case (2 v)
    with assms(1) have "(s', l') \<in> set (effects (call pp_q3 pp_q3_update (st_push 2 4 5 (in_parens v)) (\<lambda>_. Stage2)) s)" by simp
    then show ?thesis
      by (rule st_push_effect) (use inv 2 assms(2) in \<open>auto simp: pipe_inv_def pipe_defs pipe_pot_def\<close>)
  next
    case 3
    with assms(1) have "(s', l') \<in> set (effects (call pp_q3 pp_q3_update (st_close 2 4 5) (\<lambda>_. Stage2End)) s)" by simp
    then show ?thesis
      by (rule st_close_effect) (use inv 3 assms(2) in \<open>auto simp: pipe_inv_def pipe_defs pipe_pot_def\<close>)
  qed
qed

lemma sink_step:
  assumes "(s', l') \<in> set (effects (pipe_thread N l3) s)" "pipe_inv N cap s [l0, l1, l2, l3]"
  shows "pipe_inv N cap s' [l0, l1, l2, l'] \<and> pipe_pot N s' [l0, l1, l2, l'] < pipe_pot N s [l0, l1, l2, l3]"
proof -
  have inv: "sink_ok s l3" "queues_ok cap s" using assms(2) by (auto simp: pipe_inv_def)
  then consider "l3 = Sink" | v where "l3 = SinkPrint v" using assms(1)
    by (auto simp: sink_ok_def split: if_splits)
  then show ?thesis
  proof cases
    case 1
    with assms(1) have "(s', l') \<in> set (effects (call pp_q3 pp_q3_update (st_pop 2 4 5)
      (\<lambda>r. case r of Some s \<Rightarrow> SinkPrint s | None \<Rightarrow> SinkEnd)) s)" by simp
    then show ?thesis
      by (rule st_pop_effect) (use inv 1 assms(2) in \<open>auto simp: pipe_inv_def pipe_defs pipe_pot_def\<close>)
  next
    case (2 v)
    then show ?thesis using assms by (auto simp: pipe_inv_def pipe_defs pipe_pot_def)
  qed
qed

lemma pipe_step:
  assumes "pipe_inv N cap s ls" "i < length ls" "(s', l') \<in> set (effects (pipe_thread N (ls ! i)) s)"
  shows "pipe_inv N cap s' (ls[i := l']) \<and> pipe_pot N s' (ls[i := l']) < pipe_pot N s ls"
proof -
  obtain l0 l1 l2 l3 where ls: "ls = [l0, l1, l2, l3]" using assms(1) by (auto simp: pipe_inv_def)
  with assms(2) consider "i = 0" | "i = 1" | "i = 2" | "i = 3" by fastforce
  then show ?thesis
    by cases (use assms(1,3) ls source_step stage1_step stage2_step sink_step in \<open>simp_all add: numeral_2_eq_2 numeral_3_eq_3\<close>)
qed

subsection \<open>Wake-ups and termination\<close>

lemma st_waits [simp]:
  "waits (st_push m f e x) = Some (f, \<lambda>q. length (st_q q) < st_cap q \<or> st_closed q)"
  "waits (st_pop m f e) = Some (e, \<lambda>q. st_q q \<noteq> [] \<or> st_closed q)"
  "waits (st_close m f e) = None"
  by (simp_all add: st_push_def st_pop_def st_close_def)

lemma st_close_stmt: "queue_stmt get upd push pop e f (call get upd (st_close m f e) k)"
  by (rule queue_stmt_close) (auto simp: st_close_def)

lemma st_push_stmt: "queue_stmt get upd (st_push m f e) pop e f (call get upd (st_push m f e x) k)"
  by (rule queue_stmt_push)

lemmas st_stmts = st_push_stmt queue_stmt_pop st_close_stmt queue_stmt_Fin queue_stmt_Act

lemma pipe_stmts1: "queue_stmt pp_q1 pp_q1_update (st_push 0 0 1) (st_pop 0 0 1) 1 0 (pipe_thread N l)"
  by (cases l) (auto simp: st_stmts intro!: queue_stmt_other)

lemma pipe_stmts2: "queue_stmt pp_q2 pp_q2_update (st_push 1 2 3) (st_pop 1 2 3) 3 2 (pipe_thread N l)"
  by (cases l) (auto simp: st_stmts intro!: queue_stmt_other)

lemma pipe_stmts3: "queue_stmt pp_q3 pp_q3_update (st_push 2 4 5) (st_pop 2 4 5) 5 4 (pipe_thread N l)"
  by (cases l) (auto simp: st_stmts intro!: queue_stmt_other)

lemmas pipe_stmts = pipe_stmts1 pipe_stmts2 pipe_stmts3

lemma pipe_invars: "pipe_inv N cap s ls \<Longrightarrow> st_invar (pp_q1 s) \<and> st_invar (pp_q2 s) \<and> st_invar (pp_q3 s)"
  by (auto simp: pipe_inv_def queues_ok_def)

interpretation pipe1: queue_client "\<lambda>_. pipe_thread N" "pipe_init cap" pipe_threads "pipe_inv N cap"
    st_invar st_q st_cap st_closed "st_push 0 0 1" "st_pop 0 0 1" "\<lambda>r. r" 0 1 0 pp_q1 pp_q1_update for N cap
  by unfold_locales (simp_all add: pipe_invars pipe_step pipe_inv_init pipe_stmts del: One_nat_def)

interpretation pipe2: queue_client "\<lambda>_. pipe_thread N" "pipe_init cap" pipe_threads "pipe_inv N cap"
    st_invar st_q st_cap st_closed "st_push 1 2 3" "st_pop 1 2 3" "\<lambda>r. r" 1 3 2 pp_q2 pp_q2_update for N cap
  by unfold_locales (simp_all add: pipe_invars pipe_step pipe_inv_init pipe_stmts del: One_nat_def)

interpretation pipe3: queue_client "\<lambda>_. pipe_thread N" "pipe_init cap" pipe_threads "pipe_inv N cap"
    st_invar st_q st_cap st_closed "st_push 2 4 5" "st_pop 2 4 5" "\<lambda>r. r" 2 5 4 pp_q3 pp_q3_update for N cap
  by unfold_locales (simp_all add: pipe_invars pipe_step pipe_inv_init pipe_stmts del: One_nat_def)

lemma pipe_notes: "pipe_thread N l = Monitor m w b \<Longrightarrow> b s = (s', l', pre, post) \<Longrightarrow> length pre + length post \<le> 2"
  by (cases l; auto elim!: call_body split: if_splits; auto simp: st_push_def st_pop_def st_close_def split: list.splits if_splits)

interpretation pipe: terminating "\<lambda>_. pipe_thread N" "pipe_init cap" pipe_threads "pipe_inv N cap" "pipe_pot N" 2 for N cap
  by unfold_locales (auto simp: pipe_step intro: pipe_notes)

subsection \<open>Final states\<close>

text \<open>When nothing moves, a thread has returned, or waits at a full or at an empty queue.\<close>

lemma pipe_blocked:
  assumes r: "reach (step (\<lambda>_. pipe_thread N)) (start (pipe_init cap) pipe_threads) c" "stuck (\<lambda>_. pipe_thread N) c"
    and i: "i < length (thr c)"
  shows "case loc (thr c ! i) of
      Source k \<Rightarrow> \<not> st_closed (pp_q1 (shared c)) \<and> length (st_q (pp_q1 (shared c))) = cap
    | Stage1 \<Rightarrow> \<not> st_closed (pp_q1 (shared c)) \<and> st_q (pp_q1 (shared c)) = []
    | Stage1Push v \<Rightarrow> \<not> st_closed (pp_q2 (shared c)) \<and> length (st_q (pp_q2 (shared c))) = cap
    | Stage2 \<Rightarrow> \<not> st_closed (pp_q2 (shared c)) \<and> st_q (pp_q2 (shared c)) = []
    | Stage2Push v \<Rightarrow> \<not> st_closed (pp_q3 (shared c)) \<and> length (st_q (pp_q3 (shared c))) = cap
    | Sink \<Rightarrow> \<not> st_closed (pp_q3 (shared c)) \<and> st_q (pp_q3 (shared c)) = []
    | Stage1Close \<Rightarrow> False | Stage2Close \<Rightarrow> False | SinkPrint s \<Rightarrow> False
    | l \<Rightarrow> thr c ! i = At l"
proof -
  note ok = reach_ok [OF r(1)]
  have caps: "st_cap (pp_q1 (shared c)) = cap" "st_cap (pp_q2 (shared c)) = cap" "st_cap (pp_q3 (shared c)) = cap"
    using pipe1.I_reach [OF r(1)] by (auto simp: pipe_inv_def queues_ok_def)
  from r(2) i ok(1,2) show ?thesis
  proof (cases rule: stuck_cases)
    case (fin l)
    then show ?thesis by (cases l) (auto split: if_splits)
  next
    case (blocked l f)
    then show ?thesis by (cases l) (auto split: if_splits)
  next
    case (asleep l m v p b)
    note st = r i asleep(1)
    show ?thesis
    proof (cases l)
      case (Source k)
      with asleep(2) have "k \<le> N" by (auto simp: call_Monitor split: if_splits)
      with Source show ?thesis using pipe1.stuck_push [OF st] asleep(1) caps by simp
    next
      case Stage1
      then show ?thesis using pipe1.stuck_pop [OF st] asleep(1) by simp
    next
      case (Stage1Push x)
      then show ?thesis using pipe2.stuck_push [OF st] asleep(1) caps by simp
    next
      case Stage2
      then show ?thesis using pipe2.stuck_pop [OF st] asleep(1) by simp
    next
      case (Stage2Push x)
      then show ?thesis using pipe3.stuck_push [OF st] asleep(1) caps by simp
    next
      case Sink
      then show ?thesis using pipe3.stuck_pop [OF st] asleep(1) by simp
    qed (use asleep(2) in \<open>auto simp: call_Monitor\<close>)
  qed
qed

lemma pipe_stuck_fin:
  assumes r: "reach (step (\<lambda>_. pipe_thread N)) (start (pipe_init cap) pipe_threads) c" "stuck (\<lambda>_. pipe_thread N) c"
    and cap: "0 < cap"
  shows "all_fin (\<lambda>_. pipe_thread N) c" "pp_out (shared c) = map (\<lambda>i. in_parens (square (int i))) [1..<Suc N]"
proof -
  obtain l0 l1 l2 l3 where ls: "locs c = [l0, l1, l2, l3]" and flow: "pipe_flow N (shared c) l0 l1 l2 l3"
    and ok: "src_ok N (shared c) l0" "stage1_ok (shared c) l1" "stage2_ok (shared c) l2" "sink_ok (shared c) l3"
    using pipe1.I_reach [OF r(1)] by (auto simp: pipe_inv_def)
  have n: "length (thr c) = 4" using arg_cong [OF ls, of length] by simp
  have l: "loc (thr c ! 0) = l0" "loc (thr c ! 1) = l1" "loc (thr c ! 2) = l2" "loc (thr c ! 3) = l3"
    using nth_locs [of 0 c] nth_locs [of 1 c] nth_locs [of 2 c] nth_locs [of 3 c] ls n by (simp_all add: numeral_2_eq_2 numeral_3_eq_3)
  note b = pipe_blocked [OF r, of 0, unfolded l] pipe_blocked [OF r, of 1, unfolded l] pipe_blocked [OF r, of 2, unfolded l]
    pipe_blocked [OF r, of 3, unfolded l]
  have "l0 = SourceEnd \<and> l1 = Stage1End \<and> l2 = Stage2End \<and> l3 = SinkEnd"
    using ok b n cap unfolding src_ok_def stage1_ok_def stage2_ok_def sink_ok_def by auto
  note ends = this [THEN conjunct1] this [THEN conjunct2, THEN conjunct1] this [THEN conjunct2, THEN conjunct2]
  have "thr c ! i = At (locs c ! i) \<and> pipe_thread N (locs c ! i) = Fin" if "i < length (thr c)" for i
  proof -
    have "i = 0 \<or> i = 1 \<or> i = 2 \<or> i = 3" using that n by auto
    then show ?thesis using b n ends ls by (auto simp: numeral_2_eq_2 numeral_3_eq_3)
  qed
  then show "all_fin (\<lambda>_. pipe_thread N) c" by (auto simp: all_fin_def)
  show "pp_out (shared c) = map (\<lambda>i. in_parens (square (int i))) [1..<Suc N]"
    using flow ok ends by (simp add: pipe_defs)
qed

definition pipe_demo :: "(nat \<times> choice) list \<times> (pipe_state, pipe_loc) cfg" where
  "pipe_demo = drive (\<lambda>_. pipe_thread 3) [3, 1, 0, 2] 200 (start (pipe_init 1) pipe_threads)"

lemma pipe_demo_run: "run (step (\<lambda>_. pipe_thread 3)) (start (pipe_init 1) pipe_threads) (fst pipe_demo) = Some (snd pipe_demo)"
  unfolding pipe_demo_def by (rule drive_run) simp

lemma pipe_demo_fin: "all_finb (\<lambda>_. pipe_thread 3) (snd pipe_demo)"
  by code_simp

text \<open>every schedule of the pipeline ends, after a number of steps linear in the number of items.\<close>

theorem pipeline_terminates:
  assumes "run (step (\<lambda>_. pipe_thread N)) (start (pipe_init cap) pipe_threads) es = Some c"
  shows "length es \<le> 30 * (7 * N + 6) + 8 + 3 * spurs es"
proof -
  have "pipe_pot N (pipe_init cap) pipe_threads = 7 * N + 6"
    by (simp add: pipe_pot_def pipe_init_def pipe_threads_def st_new_def)
  moreover have "pipe.fee (length pipe_threads) = 30" unfolding pipe.fee_def by (simp add: pipe_threads_def)
  ultimately show ?thesis using pipe.run_bounded [OF assms] by (simp add: pipe_threads_def)
qed

theorem pipeline_terminates_witness: "length (fst pipe_demo) \<le> 818 + 3 * spurs (fst pipe_demo)"
  using pipeline_terminates [OF pipe_demo_run] by simp

text \<open>C4: the pipeline always ends, and is a map: under every schedule its number of steps is bounded, linearly in the number of
  items, it does not get stuck before all stages have returned, whatever the capacity of the queues, and the sink has then
  printed the squares of 1 to \<open>N\<close>, in order.\<close>

theorem pipeline_completes:
  assumes "run (step (\<lambda>_. pipe_thread N)) (start (pipe_init cap) pipe_threads) es = Some c" "0 < cap"
  shows "length es \<le> 30 * (7 * N + 6) + 8 + 3 * spurs es \<and>
    (stuck (\<lambda>_. pipe_thread N) c \<longrightarrow> all_fin (\<lambda>_. pipe_thread N) c \<and> pp_out (shared c) = map (\<lambda>i. in_parens (square (int i))) [1..<Suc N])"
  using pipe_stuck_fin [OF run_reach [OF assms(1)] _ assms(2)] pipeline_terminates [OF assms(1)] by simp

theorem pipeline_completes_witness: "\<exists>c. all_fin (\<lambda>_. pipe_thread 3) c \<and> pp_out (shared c) = [''(1)'', ''(4)'', ''(9)'']"
proof -
  have out: "map (\<lambda>i. in_parens (square (int i))) [1..<Suc 3] = [''(1)'', ''(4)'', ''(9)'']" by code_simp
  show ?thesis
    using pipeline_completes [OF pipe_demo_run] pipe_demo_fin out by (auto simp: all_finb intro: all_fin_stuck)
qed

text \<open>at every moment the sink has printed a prefix of that output: nothing is lost, duplicated or
  reordered on the way.\<close>

theorem pipeline_prefix:
  assumes "reach (step (\<lambda>_. pipe_thread N)) (start (pipe_init cap) pipe_threads) c"
  shows "\<exists>n \<le> N. pp_out (shared c) = map (\<lambda>i. in_parens (square (int i))) [1..<Suc n]"
proof -
  obtain l0 l1 l2 l3 where flow: "pipe_flow N (shared c) l0 l1 l2 l3" and ok: "src_ok N (shared c) l0"
    using pipe1.I_reach [OF assms] by (auto simp: pipe_inv_def)
  let ?f = "\<lambda>i. in_parens (square (int i))" and ?k = "length (pp_out (shared c))"
  have "pp_out (shared c) = take ?k (map ?f [1..<src_next N l0])"
    using flow unfolding pipe_flow_def by (metis append_eq_conv_conj)
  moreover have "?k \<le> src_next N l0 - 1"
    using flow unfolding pipe_flow_def by (metis diff_diff_cancel length_append length_map length_upt le_add1)
  moreover have "src_next N l0 \<le> Suc N" "1 \<le> src_next N l0" using ok by (auto simp: src_ok_def)
  ultimately show ?thesis by (intro exI [of _ ?k]) (auto simp: take_map)
qed

theorem pipeline_prefix_witness: "\<exists>n \<le> 3. pp_out (shared (snd pipe_demo)) = map (\<lambda>i. in_parens (square (int i))) [1..<Suc n]"
  by (rule pipeline_prefix [OF run_reach [OF pipe_demo_run]])

end
