(* ===== verification/Pools.thy ===== *)
theory Pools
  imports Objects Progress
begin

text \<open>
  Task queues served by worker threads: the contract of such a queue, the three classes that
  implement it (\<open>ThreadPool\<close>, \<open>TinyPool\<close>, \<open>Account\<close>), the worker loop, and a \<open>main\<close> that
  submits jobs, waits for their futures and destroys the pool. Jobs are numbered; the job
  number stands for the future the submitter keeps.
\<close>

subsection \<open>The contract\<close>

locale task_queue =
  fixes jobs :: "'q \<Rightarrow> 'j list" and stopped :: "'q \<Rightarrow> bool" and submit :: "'j \<Rightarrow> ('q, string + unit) meth"
    and grab :: "('q, 'j option) meth" and stop :: "('q, unit) meth" and m v :: nat
  assumes grab_waits: "\<exists>p. waits grab = Some (v, p) \<and> (\<forall>q. p q = (stopped q \<or> jobs q \<noteq> []))"
    and grab_some: "jobs q = j # js \<Longrightarrow> body grab q = (q', r, pre, post) \<Longrightarrow>
      r = Some j \<and> jobs q' = js \<and> stopped q' = stopped q \<and> pre @ post = []"
    and grab_none: "stopped q \<Longrightarrow> jobs q = [] \<Longrightarrow> body grab q = (q', r, pre, post) \<Longrightarrow> r = None \<and> q' = q \<and> pre @ post = []"
    and submit_waits: "waits (submit j) = None"
    and submit_body: "\<not> stopped q \<Longrightarrow> body (submit j) q = (q', e, pre, post) \<Longrightarrow>
      e = Inr () \<and> jobs q' = jobs q @ [j] \<and> \<not> stopped q' \<and> pre @ post = [NotifyOne v]"
    and submit_keeps: "body (submit j) q = (q', e, pre, post) \<Longrightarrow> stopped q' = stopped q \<and> length pre + length post \<le> 1"
    and stop_waits: "waits stop = None"
    and stop_body: "body stop q = (q', u, pre, post) \<Longrightarrow> stopped q' \<and> jobs q' = jobs q \<and> pre @ post = [NotifyAll v]"
    and same_mtx: "mtx grab = m" "mtx (submit j) = m" "mtx stop = m"

definition avail_jobs :: "('q \<Rightarrow> 'j list) \<Rightarrow> ('q \<Rightarrow> bool) \<Rightarrow> 'q \<Rightarrow> enat" where
  "avail_jobs jobs stopped q = (if stopped q then \<infinity> else enat (length (jobs q)))"

context task_queue
begin

lemma grab_enabled: "enabled grab q \<longleftrightarrow> stopped q \<or> jobs q \<noteq> []"
proof -
  obtain p where "waits grab = Some (v, p)" "\<forall>q. p q = (stopped q \<or> jobs q \<noteq> [])" using grab_waits by blast
  then show ?thesis by (simp add: enabled_def)
qed

lemma submit_enabled: "enabled (submit j) q" and stop_enabled: "enabled stop q"
  using submit_waits stop_waits by (auto simp: enabled_def)

lemma grab_cases:
  assumes "enabled grab q" "body grab q = (q', r, pre, post)"
  obtains "stopped q" "jobs q = []" "q' = q" "r = None" "pre @ post = []"
  | j where "jobs q = j # jobs q'" "r = Some j" "stopped q' = stopped q" "pre @ post = []"
  using assms grab_none [OF _ _ assms(2)] grab_some [OF _ assms(2)] grab_enabled [of q]
  by (cases "jobs q") auto

lemma cv_grab: "cv_of (call get upd grab k) = Some v"
  using grab_waits by auto

lemma avail_jobs_enabled: "enabled grab q \<longleftrightarrow> avail_jobs jobs stopped q \<noteq> 0"
  by (auto simp: grab_enabled avail_jobs_def zero_enat_def)

lemma grab_takes:
  assumes "enabled grab q" "body grab q = (q', r, pre, post)"
  shows "avail_jobs jobs stopped q' + 1 \<le> avail_jobs jobs stopped q + enat (count_list (pre @ post) n)"
  by (rule grab_cases [OF assms]) (auto simp: avail_jobs_def one_enat_def simp del: count_list_append append_is_Nil_conv)

lemma submit_gives:
  assumes "body (submit j) q = (q', r, pre, post)"
  shows "avail_jobs jobs stopped q' \<le> avail_jobs jobs stopped q + enat (count_list (pre @ post) (NotifyOne v))"
proof (cases "stopped q")
  case False
  from submit_body [OF this assms] False show ?thesis by (simp add: avail_jobs_def del: count_list_append append_is_Nil_conv)
qed (simp add: avail_jobs_def)

end

subsection \<open>The three classes\<close>

text \<open>
  \<open>examples/03_patterns/01_thread_pool.cpp\<close>: \<open>submit\<close> refuses a job once the pool is being
  destroyed. \<open>tp_grab\<close> is the part of \<open>worker_loop\<close> that holds the mutex, \<open>tp_stop\<close> the one of
  the destructor.
\<close>

record 'j ThreadPool =
  tp_tasks :: "'j list"
  tp_stopped :: bool

definition tp_submit :: "nat \<Rightarrow> nat \<Rightarrow> 'j \<Rightarrow> ('j ThreadPool, string + unit) meth" where
  "tp_submit mu cv j = \<lparr>mtx = mu, waits = None,
     body = (\<lambda>q. if tp_stopped q then (q, Inl ''pool shut down'', [], [])
       else (q\<lparr>tp_tasks := tp_tasks q @ [j]\<rparr>, Inr (), [], [NotifyOne cv]))\<rparr>"

definition tp_grab :: "nat \<Rightarrow> nat \<Rightarrow> ('j ThreadPool, 'j option) meth" where
  "tp_grab mu cv = \<lparr>mtx = mu, waits = Some (cv, \<lambda>q. tp_stopped q \<or> tp_tasks q \<noteq> []),
     body = (\<lambda>q. if tp_stopped q \<and> tp_tasks q = [] then (q, None, [], [])
       else (q\<lparr>tp_tasks := tl (tp_tasks q)\<rparr>, Some (hd (tp_tasks q)), [], []))\<rparr>"

definition tp_stop :: "nat \<Rightarrow> nat \<Rightarrow> ('j ThreadPool, unit) meth" where
  "tp_stop mu cv = \<lparr>mtx = mu, waits = None, body = (\<lambda>q. (q\<lparr>tp_stopped := True\<rparr>, (), [], [NotifyAll cv]))\<rparr>"

interpretation tp: task_queue tp_tasks tp_stopped "tp_submit 0 0" "tp_grab 0 0" "tp_stop 0 0" 0 0
  by unfold_locales (auto simp: tp_submit_def tp_grab_def tp_stop_def split: if_splits)

text \<open>\<open>examples/02_cpp11_threads/05_futures/03_packaged_task.cpp\<close>: \<open>submit\<close> does not look at \<open>stop_\<close>.\<close>

record 'j TinyPool =
  ty_q :: "'j list"
  ty_stop :: bool

definition ty_submit :: "nat \<Rightarrow> nat \<Rightarrow> 'j \<Rightarrow> ('j TinyPool, string + unit) meth" where
  "ty_submit m cv j = \<lparr>mtx = m, waits = None,
     body = (\<lambda>q. (q\<lparr>ty_q := ty_q q @ [j]\<rparr>, Inr (), [], [NotifyOne cv]))\<rparr>"

definition ty_grab :: "nat \<Rightarrow> nat \<Rightarrow> ('j TinyPool, 'j option) meth" where
  "ty_grab m cv = \<lparr>mtx = m, waits = Some (cv, \<lambda>q. ty_stop q \<or> ty_q q \<noteq> []),
     body = (\<lambda>q. if ty_stop q \<and> ty_q q = [] then (q, None, [], [])
       else (q\<lparr>ty_q := tl (ty_q q)\<rparr>, Some (hd (ty_q q)), [], []))\<rparr>"

definition ty_shutdown :: "nat \<Rightarrow> nat \<Rightarrow> ('j TinyPool, unit) meth" where
  "ty_shutdown m cv = \<lparr>mtx = m, waits = None, body = (\<lambda>q. (q\<lparr>ty_stop := True\<rparr>, (), [], [NotifyAll cv]))\<rparr>"

interpretation ty: task_queue ty_q ty_stop "ty_submit 0 0" "ty_grab 0 0" "ty_shutdown 0 0" 0 0
  by unfold_locales (auto simp: ty_submit_def ty_grab_def ty_shutdown_def split: if_splits)

text \<open>
  \<open>examples/03_patterns/05_active_object.cpp\<close>: the queue of an \<open>Account\<close>; the balance is not
  part of it, because only the worker thread touches it.
\<close>

record 'j Account =
  ac_q :: "'j list"
  ac_done :: bool

definition ac_post :: "nat \<Rightarrow> nat \<Rightarrow> 'j \<Rightarrow> ('j Account, string + unit) meth" where
  "ac_post m cv j = \<lparr>mtx = m, waits = None,
     body = (\<lambda>q. (q\<lparr>ac_q := ac_q q @ [j]\<rparr>, Inr (), [], [NotifyOne cv]))\<rparr>"

definition ac_grab :: "nat \<Rightarrow> nat \<Rightarrow> ('j Account, 'j option) meth" where
  "ac_grab m cv = \<lparr>mtx = m, waits = Some (cv, \<lambda>q. ac_done q \<or> ac_q q \<noteq> []),
     body = (\<lambda>q. if ac_done q \<and> ac_q q = [] then (q, None, [], [])
       else (q\<lparr>ac_q := tl (ac_q q)\<rparr>, Some (hd (ac_q q)), [], []))\<rparr>"

definition ac_destroy :: "nat \<Rightarrow> nat \<Rightarrow> ('j Account, unit) meth" where
  "ac_destroy m cv = \<lparr>mtx = m, waits = None, body = (\<lambda>q. (q\<lparr>ac_done := True\<rparr>, (), [], [NotifyAll cv]))\<rparr>"

interpretation ac: task_queue ac_q ac_done "ac_post 0 0" "ac_grab 0 0" "ac_destroy 0 0" 0 0
  by unfold_locales (auto simp: ac_post_def ac_grab_def ac_destroy_def split: if_splits)

subsection \<open>Workers and their main program\<close>

text \<open>
  What \<open>main\<close> does with a pool: submit a job and keep its future under a number, read a future
  (\<open>get\<close> blocks until the job has run) and print the value, and destroy the pool (stop it, then
  join its workers one by one).
\<close>

datatype 'j cmd = Submit nat 'j | Get nat | Stop | Join nat

datatype 'j pool_loc =
    Main nat
  | MainThrown string
  | Grab nat
  | RunJob nat "nat \<times> 'j"
  | Return nat
  | Exited nat

record ('q, 'd, 'r) pool_state =
  pl_obj :: 'q
  pl_data :: 'd
  pl_futs :: "nat \<Rightarrow> 'r option"
  pl_exited :: "nat \<Rightarrow> bool"
  pl_out :: "'r list"

text \<open>
  \<open>exec j d\<close> runs job \<open>j\<close> on the data \<open>d\<close> only the jobs touch: the data afterwards and the value
  the job's promise is set to.
\<close>

fun pool_thread :: "(nat \<times> 'j \<Rightarrow> ('q, string + unit) meth) \<Rightarrow> ('q, (nat \<times> 'j) option) meth \<Rightarrow> ('q, unit) meth
    \<Rightarrow> ('j \<Rightarrow> 'd \<Rightarrow> 'd \<times> 'r) \<Rightarrow> 'j cmd list \<Rightarrow> 'j pool_loc \<Rightarrow> (('q, 'd, 'r) pool_state, 'j pool_loc) stmt" where
  "pool_thread submit grab stop exec S (Main i) = (if i < length S then (case S ! i of
       Submit k j \<Rightarrow> call pl_obj pl_obj_update (submit (k, j)) (\<lambda>r. case r of Inl err \<Rightarrow> MainThrown err | Inr u \<Rightarrow> Main (Suc i))
     | Get k \<Rightarrow> Act (\<lambda>s. case pl_futs s k of None \<Rightarrow> [] | Some r \<Rightarrow> [(s\<lparr>pl_out := pl_out s @ [r]\<rparr>, Main (Suc i))])
     | Stop \<Rightarrow> call pl_obj pl_obj_update stop (\<lambda>_. Main (Suc i))
     | Join w \<Rightarrow> Act (\<lambda>s. if pl_exited s w then [(s, Main (Suc i))] else [])) else Fin)"
| "pool_thread submit grab stop exec S (MainThrown err) = Fin"
| "pool_thread submit grab stop exec S (Grab w) =
     call pl_obj pl_obj_update grab (\<lambda>r. case r of None \<Rightarrow> Return w | Some j \<Rightarrow> RunJob w j)"
| "pool_thread submit grab stop exec S (RunJob w kj) = Act (\<lambda>s. case exec (snd kj) (pl_data s) of (d, r) \<Rightarrow>
     [(s\<lparr>pl_data := d, pl_futs := (pl_futs s)(fst kj \<mapsto> r)\<rparr>, Grab w)])"
| "pool_thread submit grab stop exec S (Return w) = Act (\<lambda>s. [(s\<lparr>pl_exited := (pl_exited s)(w := True)\<rparr>, Exited w)])"
| "pool_thread submit grab stop exec S (Exited w) = Fin"

definition pool_init :: "'q \<Rightarrow> 'd \<Rightarrow> ('q, 'd, 'r) pool_state" where
  "pool_init q d = \<lparr>pl_obj = q, pl_data = d, pl_futs = (\<lambda>_. None), pl_exited = (\<lambda>_. False), pl_out = []\<rparr>"

definition pool_threads :: "nat \<Rightarrow> 'j pool_loc list" where
  "pool_threads nw = Main 0 # map Grab [0..<nw]"

text \<open>The scripts the theory is about: futures are numbered, read after they were made, and the pool is
  stopped once, after the last submit, before its workers are joined.\<close>

fun script_ok :: "nat \<Rightarrow> nat set \<Rightarrow> bool \<Rightarrow> 'j cmd list \<Rightarrow> bool" where
  "script_ok nw K st [] = st"
| "script_ok nw K st (Submit k j # cs) = (\<not> st \<and> k \<notin> K \<and> script_ok nw (insert k K) st cs)"
| "script_ok nw K st (Get k # cs) = (k \<in> K \<and> script_ok nw K st cs)"
| "script_ok nw K st (Stop # cs) = (\<not> st \<and> script_ok nw K True cs)"
| "script_ok nw K st (Join w # cs) = (st \<and> w < nw \<and> script_ok nw K st cs)"

fun submitted :: "'j cmd list \<Rightarrow> (nat \<times> 'j) list" where
  "submitted [] = []"
| "submitted (Submit k j # cs) = (k, j) # submitted cs"
| "submitted (c # cs) = submitted cs"

subsection \<open>The invariant\<close>

lemma submitted_append [simp]: "submitted (as @ bs) = submitted as @ submitted bs"
  by (induction as rule: submitted.induct) auto

lemma script_ok_distinct:
  "script_ok nw K st S \<Longrightarrow> distinct (map fst (submitted S)) \<and> (\<forall>kj\<in>set (submitted S). fst kj \<notin> K)"
  by (induction nw K st S rule: script_ok.induct) fastforce+

lemma mset_remove_key:
  "distinct (map fst L) \<Longrightarrow> (k, j) \<in> set L \<Longrightarrow> mset (filter (\<lambda>x. fst x \<noteq> k) L) = mset L - {#(k, j)#}"
proof (induction L)
  case (Cons a L)
  show ?case
  proof (cases "a = (k, j)")
    case True
    then have "filter (\<lambda>x. fst x \<noteq> k) L = L" using Cons.prems(1) by (intro filter_True) force
    with True show ?thesis by simp
  next
    case False
    with Cons.prems have "(k, j) \<in> set L" by simp
    moreover from this have "k \<in> set (map fst L)" by force
    then have "fst a \<noteq> k" using Cons.prems(1) by auto
    ultimately show ?thesis using Cons False by simp
  qed
qed simp

fun worker :: "'j pool_loc \<Rightarrow> nat option" where
  "worker (Grab w) = Some w"
| "worker (RunJob w kj) = Some w"
| "worker (Return w) = Some w"
| "worker (Exited w) = Some w"
| "worker _ = None"

fun running :: "'j pool_loc \<Rightarrow> (nat \<times> 'j) list" where
  "running (RunJob w kj) = [kj]"
| "running _ = []"

fun leaving :: "'j pool_loc \<Rightarrow> bool" where
  "leaving (Return w) = True"
| "leaving (Exited w) = True"
| "leaving _ = False"

definition unfinished :: "(nat \<Rightarrow> 'r option) \<Rightarrow> (nat \<times> 'j) list \<Rightarrow> (nat \<times> 'j) list" where
  "unfinished futs L = filter (\<lambda>kj. futs (fst kj) = None) L"

text \<open>The output of a script whose future number \<open>k\<close> yields \<open>R k\<close>.\<close>

fun outputs :: "(nat \<Rightarrow> 'r) \<Rightarrow> 'j cmd list \<Rightarrow> 'r list" where
  "outputs R [] = []"
| "outputs R (Get k # cs) = R k # outputs R cs"
| "outputs R (c # cs) = outputs R cs"

lemma outputs_append [simp]: "outputs R (as @ bs) = outputs R as @ outputs R bs"
  by (induction R as rule: outputs.induct) auto

locale pool_client = task_queue jobs stopped submit grab stop m v
  for jobs :: "'q \<Rightarrow> (nat \<times> 'j) list" and stopped :: "'q \<Rightarrow> bool" and submit grab stop m v +
  fixes exec :: "'j \<Rightarrow> 'd \<Rightarrow> 'd \<times> 'r" and S :: "'j cmd list" and nw :: nat and q0 :: 'q and d0 :: 'd
    and J :: "(nat \<times> 'j) list \<Rightarrow> 'd \<Rightarrow> 'j pool_loc list \<Rightarrow> (nat \<times> 'j) list \<Rightarrow> bool" and R :: "nat \<Rightarrow> 'r"
  assumes q0: "jobs q0 = []" "\<not> stopped q0" and script: "script_ok nw {} False S" and nw: "0 < nw"
    and J_init: "J [] d0 (map Grab [0..<nw]) []"
    and J_submit: "J L d ws js \<Longrightarrow> J (L @ [kj]) d ws (js @ [kj])"
    and J_grab: "J L d ws (kj # js) \<Longrightarrow> w < length ws \<Longrightarrow> ws ! w = Grab u \<Longrightarrow> J L d (ws[w := RunJob u kj]) js"
    and J_run: "J L d ws js \<Longrightarrow> w < length ws \<Longrightarrow> ws ! w = RunJob u (k, j) \<Longrightarrow> (k, j) \<in> set L \<Longrightarrow>
      \<exists>L'. submitted S = L @ L' \<Longrightarrow> exec j d = (d', r) \<Longrightarrow> J L d' (ws[w := Grab u]) js \<and> r = R k"
    and J_leave: "J L d ws js \<Longrightarrow> w < length ws \<Longrightarrow> running (ws ! w) = [] \<Longrightarrow> l = Return u \<or> l = Exited u \<Longrightarrow> J L d (ws[w := l]) js"
begin

abbreviation prog :: "nat \<Rightarrow> 'j pool_loc \<Rightarrow> (('q, 'd, 'r) pool_state, 'j pool_loc) stmt" where
  "prog \<equiv> \<lambda>_. pool_thread submit grab stop exec S"

definition flow :: "('q, 'd, 'r) pool_state \<Rightarrow> nat \<Rightarrow> 'j pool_loc list \<Rightarrow> bool" where
  "flow s i ws \<longleftrightarrow> mset (jobs (pl_obj s)) + mset (concat (map running ws)) = mset (unfinished (pl_futs s) (submitted (take i S)))"

definition main_ok :: "('q, 'd, 'r) pool_state \<Rightarrow> nat \<Rightarrow> bool" where
  "main_ok s i \<longleftrightarrow> i \<le> length S \<and> script_ok nw (fst ` set (submitted (take i S))) (stopped (pl_obj s)) (drop i S)
     \<and> (\<forall>k. pl_futs s k \<noteq> None \<longrightarrow> k \<in> fst ` set (submitted (take i S)))"

definition workers_ok :: "('q, 'd, 'r) pool_state \<Rightarrow> 'j pool_loc list \<Rightarrow> bool" where
  "workers_ok s ws \<longleftrightarrow> map worker ws = map Some [0..<nw] \<and> (\<forall>w. pl_exited s w \<longleftrightarrow> Exited w \<in> set ws)
     \<and> (\<forall>l\<in>set ws. leaving l \<longrightarrow> stopped (pl_obj s) \<and> jobs (pl_obj s) = [])"

definition results_ok :: "('q, 'd, 'r) pool_state \<Rightarrow> nat \<Rightarrow> 'j pool_loc list \<Rightarrow> bool" where
  "results_ok s i ws \<longleftrightarrow> J (submitted (take i S)) (pl_data s) ws (jobs (pl_obj s))
     \<and> (\<forall>k r. pl_futs s k = Some r \<longrightarrow> r = R k) \<and> pl_out s = outputs R (take i S)"

definition inv :: "('q, 'd, 'r) pool_state \<Rightarrow> 'j pool_loc list \<Rightarrow> bool" where
  "inv s ls \<longleftrightarrow> (\<exists>i ws. ls = Main i # ws \<and> flow s i ws \<and> main_ok s i \<and> workers_ok s ws \<and> results_ok s i ws)"

lemma distinct_take: "distinct (map fst (submitted (take i S)))"
proof -
  have "distinct (map fst (submitted (take i S @ drop i S)))" using script_ok_distinct [OF script] by simp
  then show ?thesis unfolding submitted_append by simp
qed

lemma pool_inv_init: "inv (pool_init q0 d0) (pool_threads nw)"
  by (auto simp: inv_def flow_def main_ok_def workers_ok_def results_ok_def pool_init_def pool_threads_def unfinished_def
      q0 script J_init comp_def intro!: exI [of _ 0])

lemma main_cases [consumes 2, case_names submit fetch stop join]:
  assumes e: "(s', l') \<in> set (effects (prog n (Main i)) s)" and ok: "main_ok s i"
  obtains (submit) k j q where "i < length S" "S ! i = Submit k j" "\<not> stopped (pl_obj s)" "s' = s\<lparr>pl_obj := q\<rparr>"
      "jobs q = jobs (pl_obj s) @ [(k, j)]" "\<not> stopped q" "l' = Main (Suc i)" "k \<notin> fst ` set (submitted (take i S))"
  | (fetch) k r where "i < length S" "S ! i = Get k" "pl_futs s k = Some r" "s' = s\<lparr>pl_out := pl_out s @ [r]\<rparr>" "l' = Main (Suc i)"
  | (stop) q where "i < length S" "S ! i = Stop" "s' = s\<lparr>pl_obj := q\<rparr>" "jobs q = jobs (pl_obj s)" "stopped q" "l' = Main (Suc i)"
  | (join) w where "i < length S" "S ! i = Join w" "s' = s" "pl_exited s w" "l' = Main (Suc i)" "w < nw"
proof -
  have i: "i < length S" using e by (auto split: if_splits)
  then have d: "drop i S = S ! i # drop (Suc i) S" by (simp add: Cons_nth_drop_Suc)
  show thesis
  proof (cases "S ! i")
    case (Submit k j)
    then have open_k: "\<not> stopped (pl_obj s)" "k \<notin> fst ` set (submitted (take i S))" using ok d by (auto simp: main_ok_def)
    from e i Submit have "(s', l') \<in> set (effects (call pl_obj pl_obj_update (submit (k, j))
      (\<lambda>r. case r of Inl err \<Rightarrow> MainThrown err | Inr u \<Rightarrow> Main (Suc i))) s)" by simp
    then show thesis
    proof (rule effects_callE)
      fix q r pre post
      assume a: "body (submit (k, j)) (pl_obj s) = (q, r, pre, post)" "s' = pl_obj_update (\<lambda>_. q) s"
        "l' = (case r of Inl err \<Rightarrow> MainThrown err | Inr u \<Rightarrow> Main (Suc i))"
      from submit_body [OF open_k(1) a(1)] a(2,3) show thesis
        by (intro submit [OF i Submit open_k(1) _ _ _ _ open_k(2)]) auto
    qed
  next
    case (Get k)
    obtain r where r: "pl_futs s k = Some r" using e i Get by (cases "pl_futs s k") auto
    show thesis by (rule fetch [OF i Get r]) (use e i Get r in auto)
  next
    case Stop
    from e i Stop have "(s', l') \<in> set (effects (call pl_obj pl_obj_update stop (\<lambda>_. Main (Suc i))) s)" by simp
    then show thesis
      by (rule effects_callE) (use stop [OF i Stop] stop_body in auto)
  next
    case (Join w)
    then have "w < nw" using ok d by (auto simp: main_ok_def)
    with e i Join show thesis by (auto intro: join split: if_splits)
  qed
qed

lemma worker_cases [consumes 2, case_names grab none run return]:
  assumes e: "(s', l') \<in> set (effects (prog n l) s)" and l: "worker l = Some w"
  obtains (grab) kj q where "l = Grab w" "l' = RunJob w kj" "s' = s\<lparr>pl_obj := q\<rparr>" "jobs (pl_obj s) = kj # jobs q"
      "stopped q = stopped (pl_obj s)"
  | (none) "l = Grab w" "l' = Return w" "s' = s" "jobs (pl_obj s) = []" "stopped (pl_obj s)"
  | (run) k j d r where "l = RunJob w (k, j)" "l' = Grab w" "exec j (pl_data s) = (d, r)"
      "s' = s\<lparr>pl_data := d, pl_futs := (pl_futs s)(k \<mapsto> r)\<rparr>"
  | (return) "l = Return w" "l' = Exited w" "s' = s\<lparr>pl_exited := (pl_exited s)(w := True)\<rparr>"
proof (cases l)
  case (Grab u)
  with l e have G: "l = Grab w" and "(s', l') \<in> set (effects (call pl_obj pl_obj_update grab
    (\<lambda>r. case r of None \<Rightarrow> Return w | Some j \<Rightarrow> RunJob w j)) s)" by simp_all
  from this(2) show thesis
  proof (rule effects_callE)
    fix q r pre post
    assume a: "enabled grab (pl_obj s)" "body grab (pl_obj s) = (q, r, pre, post)" "s' = pl_obj_update (\<lambda>_. q) s"
      "l' = (case r of None \<Rightarrow> Return w | Some j \<Rightarrow> RunJob w j)"
    from a(1,2) show thesis
      by (rule grab_cases) (use a(3,4) G none grab in auto)
  qed
next
  case (RunJob u kj)
  obtain k j where kj: "kj = (k, j)" by (cases kj)
  obtain d r where x: "exec j (pl_data s) = (d, r)" by (cases "exec j (pl_data s)")
  show thesis by (rule run [OF _ _ x]) (use e l RunJob kj x in auto)
qed (use e l return in auto)

lemma submitted_Suc: "i < length S \<Longrightarrow> submitted (take (Suc i) S) = submitted (take i S) @ submitted [S ! i]"
  by (simp add: take_Suc_conv_app_nth)

lemma outputs_Suc: "i < length S \<Longrightarrow> outputs R (take (Suc i) S) = outputs R (take i S) @ outputs R [S ! i]"
  by (simp add: take_Suc_conv_app_nth)

lemma unfinished_new: "k \<notin> dom futs \<Longrightarrow> unfinished futs (L @ [(k, j)]) = unfinished futs L @ [(k, j)]"
  by (auto simp: unfinished_def)

lemma main_step:
  assumes e: "(s', l') \<in> set (effects (prog n (Main i)) s)"
    and inv: "flow s i ws" "main_ok s i" "workers_ok s ws" "results_ok s i ws"
  shows "l' = Main (Suc i) \<and> flow s' (Suc i) ws \<and> main_ok s' (Suc i) \<and> workers_ok s' ws \<and> results_ok s' (Suc i) ws"
proof -
  have cs: "i < length S \<Longrightarrow> script_ok nw (fst ` set (submitted (take i S))) (stopped (pl_obj s)) (S ! i # drop (Suc i) S)"
    using inv(2) by (simp add: main_ok_def Cons_nth_drop_Suc)
  show ?thesis using e inv(2)
  proof (cases rule: main_cases)
    case (submit k j q)
    have "\<not> leaving l" if "l \<in> set ws" for l using inv(3) that submit(3) by (auto simp: workers_ok_def)
    moreover have "k \<notin> dom (pl_futs s)" using inv(2) submit(8) by (auto simp: main_ok_def)
    ultimately show ?thesis using submit inv cs
      by (simp add: flow_def main_ok_def workers_ok_def results_ok_def submitted_Suc outputs_Suc unfinished_new J_submit)
  next
    case (fetch k r)
    then show ?thesis using inv cs
      by (simp add: flow_def main_ok_def workers_ok_def results_ok_def submitted_Suc outputs_Suc)
  next
    case (stop q)
    then show ?thesis using inv cs
      by (simp add: flow_def main_ok_def workers_ok_def results_ok_def submitted_Suc outputs_Suc)
  next
    case (join w)
    then show ?thesis using inv cs
      by (auto simp: flow_def main_ok_def workers_ok_def results_ok_def submitted_Suc outputs_Suc)
  qed
qed

lemma flow_running:
  assumes "flow s i ws" "w < length ws" "ws ! w = RunJob u (k, j)"
  shows "(k, j) \<in> set (unfinished (pl_futs s) (submitted (take i S)))"
proof -
  have "(k, j) \<in> set (concat (map running ws))" using assms(2,3) nth_mem [OF assms(2)] by force
  then have "(k, j) \<in># mset (jobs (pl_obj s)) + mset (concat (map running ws))" by simp
  then show ?thesis using assms(1) unfolding flow_def by (metis set_mset_mset)
qed

lemma worker_nth:
  assumes "workers_ok s ws"
  shows "length ws = nw" "w < length ws \<Longrightarrow> worker (ws ! w) = Some w"
proof -
  have roles: "map worker ws = map Some [0..<nw]" using assms by (simp add: workers_ok_def)
  then show len: "length ws = nw" by (metis diff_zero length_map length_upt)
  assume "w < length ws"
  then show "worker (ws ! w) = Some w"
    using arg_cong [OF roles, of "\<lambda>xs. xs ! w"] len by simp
qed

lemma worker_step:
  assumes e: "(s', l') \<in> set (effects (prog n (ws ! w)) s)" and w: "w < length ws"
    and inv: "flow s i ws" "main_ok s i" "workers_ok s ws" "results_ok s i ws"
  shows "flow s' i (ws[w := l']) \<and> main_ok s' i \<and> workers_ok s' (ws[w := l']) \<and> results_ok s' i (ws[w := l'])"
proof -
  note wk = worker_nth [OF inv(3)]
  have runs: "mset (concat (map running ls)) = sum_list (map (\<lambda>l. mset (running l)) ls)" for ls :: "'j pool_loc list"
    by (simp add: mset_concat comp_def)
  obtain T where T: "sum_list (map (\<lambda>l. mset (running l)) ws) = T + mset (running (ws ! w))"
    "\<And>x. sum_list (map (\<lambda>l. mset (running l)) (ws[w := x])) = T + mset (running x)" using sum_list_split [OF w] by blast
  have role: "worker l' = Some w \<Longrightarrow> map worker (ws[w := l']) = map Some [0..<nw]"
    using inv(3) wk(2) [OF w] by (simp add: workers_ok_def map_upd_same)
  from e wk(2) [OF w] show ?thesis
  proof (cases rule: worker_cases)
    case (grab kj q)
    have "\<not> leaving l" if "l \<in> set ws" for l using inv(3) that grab(4) by (auto simp: workers_ok_def)
    then have "workers_ok s' (ws[w := l'])" using inv(3) grab role w
      by (auto simp: workers_ok_def dest!: set_updD intro: set_updI)
    moreover have "results_ok s' i (ws[w := l'])" using inv(4) grab w
      by (auto simp: results_ok_def intro: J_grab)
    ultimately show ?thesis using inv(1,2) grab by (auto simp: flow_def main_ok_def runs T)
  next
    case none
    then have "workers_ok s' (ws[w := l'])" using inv(3) role w
      by (auto simp: workers_ok_def dest!: set_updD intro: set_updI)
    moreover have "results_ok s' i (ws[w := l'])" using inv(4) none w
      by (auto simp: results_ok_def intro: J_leave)
    ultimately show ?thesis using inv(1,2) none by (auto simp: flow_def main_ok_def runs T)
  next
    case return
    then have "leaving (Return w)" "Return w \<in> set ws" using nth_mem [OF w] by auto
    then have "stopped (pl_obj s) \<and> jobs (pl_obj s) = []" using inv(3) unfolding workers_ok_def by blast
    then have "workers_ok s' (ws[w := l'])" using inv(3) role return w
      by (auto simp: workers_ok_def dest!: set_updD intro: set_updI set_update_memI)
    moreover have "results_ok s' i (ws[w := l'])" using inv(4) return w
      by (auto simp: results_ok_def intro: J_leave)
    ultimately show ?thesis using inv(1,2) return by (auto simp: flow_def main_ok_def runs T)
  next
    case (run k j d r)
    let ?L = "submitted (take i S)"
    have kj: "(k, j) \<in> set (unfinished (pl_futs s) ?L)" using flow_running [OF inv(1) w] run(1) by simp
    have "unfinished (pl_futs s') ?L = filter (\<lambda>x. fst x \<noteq> k) (unfinished (pl_futs s) ?L)"
      using run(4) by (auto simp: unfinished_def intro: filter_cong)
    then have "mset (unfinished (pl_futs s') ?L) = mset (unfinished (pl_futs s) ?L) - {#(k, j)#}"
      using mset_remove_key [OF _ kj] distinct_take [of i] by (simp add: unfinished_def distinct_map_filter)
    moreover have "mset (unfinished (pl_futs s) ?L) = add_mset (k, j) (mset (jobs (pl_obj s)) + T)"
      using inv(1) run(1) by (simp add: flow_def runs T)
    ultimately have "flow s' i (ws[w := l'])" using run by (simp add: flow_def runs T)
    moreover have "main_ok s' i" using inv(2) kj run(4) by (auto simp: main_ok_def unfinished_def image_iff) force
    moreover have "workers_ok s' (ws[w := l'])" using inv(3) role run w
      by (auto simp: workers_ok_def dest!: set_updD intro: set_updI)
    moreover have "results_ok s' i (ws[w := l'])"
    proof -
      have "submitted S = ?L @ submitted (drop i S)" by (metis append_take_drop_id submitted_append)
      then have "J ?L d (ws[w := Grab w]) (jobs (pl_obj s)) \<and> r = R k"
        using inv(4) run(1,3) kj w by (intro J_run) (auto simp: results_ok_def unfinished_def)
      then show ?thesis using inv(4) run by (auto simp: results_ok_def)
    qed
    ultimately show ?thesis by blast
  qed
qed

lemma pool_inv_step:
  assumes "inv s ls" "n < length ls" "(s', l') \<in> set (effects (prog n (ls ! n)) s)"
  shows "inv s' (ls[n := l'])"
proof -
  obtain i ws where ls: "ls = Main i # ws" and inv: "flow s i ws" "main_ok s i" "workers_ok s ws" "results_ok s i ws"
    using assms(1) by (auto simp: inv_def)
  show ?thesis
  proof (cases n)
    case 0
    then show ?thesis using main_step [OF _ inv] assms(3) ls by (auto simp: inv_def)
  next
    case (Suc w)
    then show ?thesis using worker_step [OF _ _ inv] assms(2,3) ls by (auto simp: inv_def)
  qed
qed

lemma prog_monitor_cases [consumes 1, case_names submit stop grab]:
  assumes "prog n l = Monitor mm w b"
  obtains (submit) j k where "call pl_obj pl_obj_update (submit j) k = Monitor mm w b"
  | (stop) k where "call pl_obj pl_obj_update stop k = Monitor mm w b"
  | (grab) k where "call pl_obj pl_obj_update grab k = Monitor mm w b"
  using assms by (cases l) (auto split: if_splits cmd.splits)

fun todo :: "'j pool_loc \<Rightarrow> nat" where
  "todo (Main i) = 4 * (length S - i)"
| "todo (MainThrown e) = 0"
| "todo (Grab w) = 2"
| "todo (RunJob w kj) = 4"
| "todo (Return w) = 1"
| "todo (Exited w) = 0"

definition pot :: "('q, 'd, 'r) pool_state \<Rightarrow> 'j pool_loc list \<Rightarrow> nat" where
  "pot s ls = 3 * length (jobs (pl_obj s)) + sum_list (map todo ls)"

lemma pot_main:
  "(s', l') \<in> set (effects (prog n (Main i)) s) \<Longrightarrow> main_ok s i \<Longrightarrow>
    3 * length (jobs (pl_obj s')) + todo l' < 3 * length (jobs (pl_obj s)) + todo (Main i)"
  by (cases rule: main_cases) auto

lemma pot_worker:
  "(s', l') \<in> set (effects (prog n l) s) \<Longrightarrow> worker l = Some w \<Longrightarrow>
    3 * length (jobs (pl_obj s')) + todo l' < 3 * length (jobs (pl_obj s)) + todo l"
  by (cases rule: worker_cases) auto

lemma pot_less:
  assumes "inv s ls" and n: "n < length ls" and e: "(s', l') \<in> set (effects (prog n (ls ! n)) s)"
  shows "pot s' (ls[n := l']) < pot s ls"
proof -
  obtain i ws where ls: "ls = Main i # ws" and ok: "main_ok s i" "workers_ok s ws"
    using assms(1) by (auto simp: inv_def)
  obtain T where T: "sum_list (map todo ls) = T + todo (ls ! n)" "\<And>x. sum_list (map todo (ls[n := x])) = T + todo x"
    using sum_list_split [OF n] by blast
  have "3 * length (jobs (pl_obj s')) + todo l' < 3 * length (jobs (pl_obj s)) + todo (ls ! n)"
  proof (cases n)
    case 0
    with e ok(1) ls show ?thesis using pot_main by simp
  next
    case (Suc w)
    with e n ls show ?thesis using pot_worker [of s' l' "ws ! w" s w] worker_nth [OF ok(2)] by simp
  qed
  then show ?thesis by (simp add: pot_def T)
qed

end

sublocale pool_client \<subseteq> monitor_invariant prog "pool_init q0 d0" "pool_threads nw" inv
  by unfold_locales (auto intro: pool_inv_init pool_inv_step)

sublocale pool_client \<subseteq> terminating prog "pool_init q0 d0" "pool_threads nw" inv pot 1
proof
  fix s ls n s' l' assume "inv s ls" "n < length ls" "(s', l') \<in> set (effects (prog n (ls ! n)) s)"
  then show "pot s' (ls[n := l']) < pot s ls" by (rule pot_less)
next
  fix s ls i mm w b s' l' pre post
  assume P: "prog i (ls ! i) = Monitor mm w b" and b: "ready w s" "b s = (s', l', pre, post)"
  from P show "length pre + length post \<le> 1"
  proof (cases rule: prog_monitor_cases)
    case (submit j k)
    show ?thesis by (rule call_body [OF submit b(2)]) (use submit_keeps in blast)
  next
    case (stop k)
    show ?thesis
      by (rule call_body [OF stop b(2)]) (metis One_nat_def length_Cons length_append list.size(3) order_refl stop_body)
  next
    case (grab k)
    have e: "enabled grab (pl_obj s)" using call_ready [OF grab, of s] b(1) by simp
    show ?thesis
    proof (rule call_body [OF grab b(2)])
      fix q r assume "body grab (pl_obj s) = (q, r, pre, post)"
      with e show ?thesis by (rule grab_cases) simp_all
    qed
  qed
qed

sublocale pool_client \<subseteq> signalled prog "pool_init q0 d0" "pool_threads nw" inv v "\<lambda>s. avail_jobs jobs stopped (pl_obj s)"
proof
  fix s ls i mm p b
  assume P: "prog i (ls ! i) = Monitor mm (Some (v, p)) b"
  then obtain k where c: "call pl_obj pl_obj_update grab k = Monitor mm (Some (v, p)) b"
    by (cases rule: prog_monitor_cases) (auto simp: call_Monitor submit_waits stop_waits)
  note r = call_ready [OF c, unfolded ready_simps]
  then show "p s \<longleftrightarrow> avail_jobs jobs stopped (pl_obj s) \<noteq> 0" using avail_jobs_enabled by simp
  fix s' l' pre post assume "p s" "b s = (s', l', pre, post)"
  with r show "NotifyAll v \<in> set (pre @ post) \<or>
      avail_jobs jobs stopped (pl_obj s') + 1 \<le> avail_jobs jobs stopped (pl_obj s) + enat (count_list (pre @ post) (NotifyOne v))"
    by (intro disjI2, elim call_body [OF c]) (simp add: grab_takes del: count_list_append)
next
  fix s ls i mm w b s' l' pre post
  assume P: "prog i (ls ! i) = Monitor mm w b" and cv: "cv_of (prog i (ls ! i)) \<noteq> Some v" and b: "b s = (s', l', pre, post)"
  from P show "NotifyAll v \<in> set (pre @ post) \<or>
      avail_jobs jobs stopped (pl_obj s') \<le> avail_jobs jobs stopped (pl_obj s) + enat (count_list (pre @ post) (NotifyOne v))"
  proof (cases rule: prog_monitor_cases)
    case (submit j k)
    show ?thesis
      by (rule call_body [OF submit b], rule disjI2) (simp add: submit_gives del: count_list_append)
  next
    case (stop k)
    show ?thesis
      by (rule call_body [OF stop b], rule disjI1) (metis list.set_intros(1) stop_body)
  next
    case (grab k)
    have "cv_of (Monitor mm w b) = Some v" unfolding grab [symmetric] by (rule cv_grab)
    then show ?thesis using cv P by simp
  qed
next
  fix s ls i f s' l'
  assume "prog i (ls ! i) = Act f" "(s', l') \<in> set (f s)"
  then show "avail_jobs jobs stopped (pl_obj s') \<le> avail_jobs jobs stopped (pl_obj s)"
    by (cases "ls ! i") (auto split: if_splits cmd.splits option.splits prod.splits)
qed

context pool_client
begin

lemma pool_bounded:
  assumes "run (step prog) (start (pool_init q0 d0) (pool_threads nw)) es = Some c"
  shows "length es \<le> (3 * nw + 8) * pot (pool_init q0 d0) (pool_threads nw) + 2 * nw + 2 + 3 * spurs es"
  using run_bounded [OF assms, unfolded fee_def] by (simp add: pool_threads_def add.commute)

text \<open>When nothing moves, everything is finished.\<close>

lemma stuck_worker:
  assumes r: "reach (step prog) (start (pool_init q0 d0) (pool_threads nw)) c" "stuck prog c"
    and ls: "locs c = Main i # ws" "w < length ws"
  shows "thr c ! Suc w = At (Exited w) \<or> ws ! w = Grab w \<and> \<not> stopped (pl_obj (shared c)) \<and> jobs (pl_obj (shared c)) = []"
proof -
  note ok = reach_ok [OF r(1)]
  have n: "Suc w < length (thr c)" using ls by (metis length_Cons length_locs not_less_eq)
  then have l: "ws ! w = loc (thr c ! Suc w)" using ls nth_locs [OF n] by simp
  have "workers_ok (shared c) ws" using I_reach [OF r(1)] ls by (auto simp: inv_def)
  note wk = worker_nth(2) [OF this ls(2)]
  from r(2) n ok(1,2) show ?thesis
  proof (cases rule: stuck_cases)
    case (fin x)
    then show ?thesis using wk l by (cases x) auto
  next
    case (blocked x f)
    then show ?thesis using wk l by (cases x) (auto split: prod.splits)
  next
    case (asleep x mm u p b)
    have "x = Grab w" using asleep(1,2) wk l by (cases x) auto
    then have P: "call pl_obj pl_obj_update grab (\<lambda>r. case r of None \<Rightarrow> Return w | Some j \<Rightarrow> RunJob w j) = Monitor mm (Some (u, p)) b"
      using asleep(2) by simp
    then have u: "u = v" using cv_grab [of pl_obj pl_obj_update] by (metis cv_of_Some option.inject of_stmt(2) option.simps(9) fst_conv)
    have "\<not> enabled grab (pl_obj (shared c))"
      using no_lost_wakeup [OF r n asleep(1), of mm p b] asleep(2) u call_ready [OF P, of "shared c"] by simp
    then show ?thesis using \<open>x = Grab w\<close> asleep(1) l grab_enabled by simp
  qed
qed

lemma main_not_blocked:
  assumes ok: "main_ok s i" and unf: "unfinished (pl_futs s) (submitted (take i S)) = []"
    and f: "prog n (Main i) = Act f" and ex: "\<And>w. stopped (pl_obj s) \<Longrightarrow> w < nw \<Longrightarrow> pl_exited s w"
  shows "f s \<noteq> []"
proof -
  have i: "i < length S" using f by (auto split: if_splits)
  then have d: "script_ok nw (fst ` set (submitted (take i S))) (stopped (pl_obj s)) (S ! i # drop (Suc i) S)"
    using ok by (simp add: main_ok_def Cons_nth_drop_Suc)
  show ?thesis
  proof (cases "S ! i")
    case (Get k)
    with d unf have "pl_futs s k \<noteq> None" by (auto simp: unfinished_def filter_empty_conv)
    then show ?thesis using f i Get by auto
  next
    case (Join w)
    with d ex show ?thesis using f i by auto
  qed (use f i in simp_all)
qed

lemma stuck_fin:
  assumes r: "reach (step prog) (start (pool_init q0 d0) (pool_threads nw)) c" "stuck prog c"
  shows "all_fin prog c"
proof -
  note ok = reach_ok [OF r(1)]
  obtain i ws where ls: "locs c = Main i # ws" and inv: "flow (shared c) i ws" "main_ok (shared c) i" "workers_ok (shared c) ws"
    using I_reach [OF r(1)] by (auto simp: inv_def)
  note wk = stuck_worker [OF r ls] and len = worker_nth(1) [OF inv(3)]
  have n: "length (thr c) = Suc nw" using ls len by (metis length_Cons length_locs)
  have ws: "ws ! w = loc (thr c ! Suc w)" if "w < nw" for w using that n ls nth_locs [of "Suc w" c] by simp
  have gone: "stopped (pl_obj (shared c)) \<and> jobs (pl_obj (shared c)) = []" if "ws ! w = Exited w" "w < nw" for w
  proof -
    have "leaving (ws ! w)" "ws ! w \<in> set ws" using that len nth_mem [of w ws] by simp_all
    then show ?thesis using inv(3) unfolding workers_ok_def by blast
  qed
  have exited: "ws ! w = Exited w" if "stopped (pl_obj (shared c))" "w < nw" for w
    using wk [of w] that ws len by auto
  have empty: "jobs (pl_obj (shared c)) = []" using wk [of 0] gone [of 0] ws [of 0] nw len by auto
  have "running l = []" if "l \<in> set ws" for l using that wk ws len by (force simp: in_set_conv_nth)
  then have "concat (map running ws) = []" by simp
  then have unf: "unfinished (pl_futs (shared c)) (submitted (take i S)) = []"
    using inv(1) unfolding flow_def empty by (simp only:) simp
  have n0: "0 < length (thr c)" using n by simp
  then have l0: "loc (thr c ! 0) = Main i" using ls nth_locs [OF n0] by simp
  have main: "thr c ! 0 = At (Main i) \<and> i = length S"
    using r(2) n0 ok(1,2)
  proof (cases rule: stuck_cases)
    case (fin l)
    then show ?thesis using l0 inv(2) by (auto simp: main_ok_def split: if_splits cmd.splits)
  next
    case (blocked l f)
    have "pl_exited (shared c) w" if "stopped (pl_obj (shared c))" "w < nw" for w
      using exited [OF that] inv(3) nth_mem [of w ws] that len by (auto simp: workers_ok_def)
    then show ?thesis using main_not_blocked [OF inv(2) unf] blocked l0 by auto
  next
    case (asleep l mm u p b)
    then show ?thesis using l0 submit_waits stop_waits by (auto simp: call_Monitor split: if_splits cmd.splits)
  qed
  then have "stopped (pl_obj (shared c))" using inv(2) by (simp add: main_ok_def)
  then have "thr c ! Suc w = At (Exited w)" if "w < nw" for w using wk [of w] that len by auto
  then have "\<exists>l. thr c ! j = At l \<and> prog j l = Fin" if "j < length (thr c)" for j
    using main that n by (cases j) auto
  then show ?thesis by (simp add: all_fin_def)
qed

text \<open>Then every job has run and \<open>main\<close> has printed the expected values.\<close>

lemma fin_result:
  assumes r: "reach (step prog) (start (pool_init q0 d0) (pool_threads nw)) c" and fin: "all_fin prog c"
  shows "pl_out (shared c) = outputs R S" "(k, j) \<in> set (submitted S) \<Longrightarrow> pl_futs (shared c) k = Some (R k)"
    "jobs (pl_obj (shared c)) = []"
proof -
  obtain i ws where ls: "locs c = Main i # ws" and inv: "flow (shared c) i ws" "main_ok (shared c) i" "workers_ok (shared c) ws"
    and res: "results_ok (shared c) i ws"
    using I_reach [OF r] by (auto simp: inv_def)
  have n: "0 < length (thr c)" "length (thr c) = Suc (length ws)" using ls by (metis length_Cons length_locs zero_less_Suc)+
  then have "prog 0 (Main i) = Fin" using fin ls nth_locs [OF n(1)] by (force simp: all_fin_def)
  then have i: "take i S = S" "drop i S = []" using inv(2) by (auto simp: main_ok_def split: if_splits cmd.splits)
  then have stop: "stopped (pl_obj (shared c))" using inv(2) by (simp add: main_ok_def)
  have l: "\<exists>w. l = Exited w" if l: "l \<in> set ws" for l
  proof -
    from l obtain w where w: "w < length ws" "l = ws ! w" by (auto simp: in_set_conv_nth)
    then have "prog (Suc w) (ws ! w) = Fin" using fin ls n nth_locs [of "Suc w" c] by (force simp: all_fin_def)
    then show ?thesis using worker_nth(2) [OF inv(3) w(1)] w by (cases "ws ! w") auto
  qed
  then have run: "concat (map running ws) = []" by fastforce
  have "ws ! 0 \<in> set ws" using nw worker_nth(1) [OF inv(3)] by simp
  moreover from this l have "leaving (ws ! 0)" by fastforce
  ultimately show empty: "jobs (pl_obj (shared c)) = []" using inv(3) unfolding workers_ok_def by blast
  have "unfinished (pl_futs (shared c)) (submitted S) = []"
    using inv(1) unfolding flow_def empty run i(1) by simp
  then show "(k, j) \<in> set (submitted S) \<Longrightarrow> pl_futs (shared c) k = Some (R k)"
    using res by (fastforce simp: unfinished_def filter_empty_conv results_ok_def)
  show "pl_out (shared c) = outputs R S" using res i by (simp add: results_ok_def)
qed

end

subsection \<open>The three main programs\<close>

lemma script_submits:
  "distinct xs \<Longrightarrow> set xs \<inter> K = {} \<Longrightarrow>
    script_ok nw K False (map (\<lambda>i. Submit i (f i)) xs @ cs) = script_ok nw (K \<union> set xs) False cs"
  by (induction xs arbitrary: K) auto

lemma script_gets: "set xs \<subseteq> K \<Longrightarrow> script_ok nw K st (map Get xs @ cs) = script_ok nw K st cs"
  by (induction xs) auto

lemma script_joins: "(\<forall>w\<in>set xs. w < nw) \<Longrightarrow> script_ok nw K True (map Join xs)"
  by (induction xs) auto

lemma submitted_map [simp]: "submitted (map (\<lambda>i. Submit i (f i)) xs) = map (\<lambda>i. (i, f i)) xs"
  "submitted (map Get xs) = []" "submitted (map Join xs) = []"
  by (induction xs) auto

lemma outputs_map [simp]: "outputs R (map (\<lambda>i. Submit i (f i)) xs) = []"
  "outputs R (map Get xs) = map R xs" "outputs R (map Join xs) = []"
  by (induction xs) auto

lemma numbered_job: "map (\<lambda>i. (i, f i)) xs = L @ L' \<Longrightarrow> (k, j) \<in> set L \<Longrightarrow> j = f k"
  by (drule arg_cong [where f = set]) auto

text \<open>\<open>main\<close> of \<open>01_thread_pool.cpp\<close>: \<open>m\<close> jobs, their futures read in order, the pool destroyed at the end.\<close>

definition slow_square :: "int \<Rightarrow> int" where
  "slow_square x = x * x"

definition tp_new :: "'j ThreadPool" where
  "tp_new = \<lparr>tp_tasks = [], tp_stopped = False\<rparr>"

definition tp_workers :: "nat \<Rightarrow> nat" where
  "tp_workers n = (if n = 0 then 2 else n)"

definition tp_main :: "nat \<Rightarrow> nat \<Rightarrow> int cmd list" where
  "tp_main n m = map (\<lambda>i. Submit i (int i)) [0..<m] @ map Get [0..<m] @ [Stop] @ map Join [0..<tp_workers n]"

definition tp_prog :: "nat \<Rightarrow> nat \<Rightarrow> nat \<Rightarrow> int pool_loc \<Rightarrow> (((nat \<times> int) ThreadPool, unit, int) pool_state, int pool_loc) stmt" where
  "tp_prog n m = (\<lambda>_. pool_thread (tp_submit 0 0) (tp_grab 0 0) (tp_stop 0 0) (\<lambda>x d. (d, slow_square x)) (tp_main n m))"

definition tp_start :: "nat \<Rightarrow> (((nat \<times> int) ThreadPool, unit, int) pool_state, int pool_loc) cfg" where
  "tp_start n = start (pool_init tp_new ()) (pool_threads (tp_workers n))"

interpretation tp: pool_client tp_tasks tp_stopped "tp_submit 0 0" "tp_grab 0 0" "tp_stop 0 0" 0 0
    "\<lambda>x d. (d, slow_square x)" "tp_main n m" "tp_workers n" tp_new "()" "\<lambda>_ _ _ _. True" "\<lambda>k. slow_square (int k)"
  for n m
  by unfold_locales
    (auto simp: tp_new_def tp_main_def tp_workers_def script_submits script_gets script_joins dest: numbered_job)

text \<open>\<open>main\<close> of \<open>03_packaged_task.cpp\<close>: \<open>n\<close> workers, \<open>m\<close> jobs.\<close>

definition ty_new :: "'j TinyPool" where
  "ty_new = \<lparr>ty_q = [], ty_stop = False\<rparr>"

definition ty_main :: "nat \<Rightarrow> nat \<Rightarrow> int cmd list" where
  "ty_main n m = map (\<lambda>i. Submit i (int i)) [0..<m] @ map Get [0..<m] @ [Stop] @ map Join [0..<n]"

definition ty_prog :: "nat \<Rightarrow> nat \<Rightarrow> nat \<Rightarrow> int pool_loc \<Rightarrow> (((nat \<times> int) TinyPool, unit, int) pool_state, int pool_loc) stmt" where
  "ty_prog n m = (\<lambda>_. pool_thread (ty_submit 0 0) (ty_grab 0 0) (ty_shutdown 0 0) (\<lambda>x d. (d, x * x)) (ty_main n m))"

definition ty_start :: "nat \<Rightarrow> (((nat \<times> int) TinyPool, unit, int) pool_state, int pool_loc) cfg" where
  "ty_start n = start (pool_init ty_new ()) (pool_threads n)"

interpretation ty: pool_client ty_q ty_stop "ty_submit 0 0" "ty_grab 0 0" "ty_shutdown 0 0" 0 0
    "\<lambda>x d. (d, x * x)" "ty_main (Suc n) m" "Suc n" ty_new "()" "\<lambda>_ _ _ _. True" "\<lambda>k. int k * int k"
  for n m
  by unfold_locales
    (auto simp: ty_new_def ty_main_def script_submits script_gets script_joins simp del: upt_Suc dest: numbered_job)

text \<open>The jobs of an \<open>Account\<close>, and what their promises are set to.\<close>

datatype account_op = Deposit int | Withdraw int | GetBalance

datatype account_result = Void | Accepted bool | Balance int

fun account_exec :: "account_op \<Rightarrow> int \<Rightarrow> int \<times> account_result" where
  "account_exec (Deposit amount) balance = (balance + amount, Void)"
| "account_exec (Withdraw amount) balance =
     (if balance \<ge> amount then (balance - amount, Accepted True) else (balance, Accepted False))"
| "account_exec GetBalance balance = (balance, Balance balance)"

definition ac_new :: "'j Account" where
  "ac_new = \<lparr>ac_q = [], ac_done = False\<rparr>"

definition ac_prog :: "account_op cmd list \<Rightarrow> nat \<Rightarrow> account_op pool_loc
    \<Rightarrow> (((nat \<times> account_op) Account, int, account_result) pool_state, account_op pool_loc) stmt" where
  "ac_prog S = (\<lambda>_. pool_thread (ac_post 0 0) (ac_grab 0 0) (ac_destroy 0 0) account_exec S)"

definition ac_start :: "(((nat \<times> account_op) Account, int, account_result) pool_state, account_op pool_loc) cfg" where
  "ac_start = start (pool_init ac_new 0) (pool_threads 1)"

definition ac_main :: "account_op cmd list" where
  "ac_main = [Submit 0 (Deposit 100), Get 0, Submit 1 (Deposit 50), Get 1, Submit 2 GetBalance, Get 2,
     Submit 3 (Withdraw 120), Get 3, Submit 4 GetBalance, Get 4, Stop, Join 0]"

text \<open>The specification: the operations one after the other, in the order of submission.\<close>

fun account_spec :: "int \<Rightarrow> (nat \<times> account_op) list \<Rightarrow> (nat \<times> account_result) list" where
  "account_spec b [] = []"
| "account_spec b ((k, op) # ops) = (case account_exec op b of (b', r) \<Rightarrow> (k, r) # account_spec b' ops)"

fun account_after :: "int \<Rightarrow> (nat \<times> account_op) list \<Rightarrow> int" where
  "account_after b [] = b"
| "account_after b ((k, op) # ops) = account_after (fst (account_exec op b)) ops"

definition account_value :: "account_op cmd list \<Rightarrow> nat \<Rightarrow> account_result" where
  "account_value S k = the (map_of (account_spec 0 (submitted S)) k)"

text \<open>The worker has run a prefix of the submitted operations; the rest is in its hand or queued.\<close>

definition account_order :: "(nat \<times> account_op) list \<Rightarrow> int \<Rightarrow> account_op pool_loc list \<Rightarrow> (nat \<times> account_op) list \<Rightarrow> bool" where
  "account_order L d ws js \<longleftrightarrow> length ws = 1 \<and> (\<exists>past. L = past @ running (ws ! 0) @ js \<and> d = account_after 0 past)"

lemma account_spec_append:
  "account_spec b (xs @ ys) = account_spec b xs @ account_spec (account_after b xs) ys"
  by (induction xs arbitrary: b) (auto split: prod.splits)

lemma account_after_append: "account_after b (xs @ ys) = account_after (account_after b xs) ys"
  by (induction xs arbitrary: b) auto

lemma fst_account_spec: "map fst (account_spec b xs) = map fst xs"
  by (induction xs arbitrary: b) (auto split: prod.splits)

lemma account_value_at:
  assumes "submitted S = past @ (k, op) # rest" "distinct (map fst (submitted S))"
  shows "account_value S k = snd (account_exec op (account_after 0 past))"
proof -
  have "k \<notin> fst ` set (account_spec 0 past)" using assms fst_account_spec [of 0 past] by (auto simp flip: set_map)
  then have "map_of (account_spec 0 past) k = None" by (simp add: map_of_eq_None_iff)
  then show ?thesis
    by (simp add: account_value_def assms(1) account_spec_append map_add_def split: prod.splits)
qed

lemma account_client:
  assumes "script_ok 1 {} False S"
  shows "pool_client ac_q ac_done (ac_post 0 0) (ac_grab 0 0) (ac_destroy 0 0) 0 0 account_exec S 1 ac_new 0
    account_order (account_value S)"
proof
  show "ac_q ac_new = []" "\<not> ac_done ac_new" by (simp_all add: ac_new_def)
  show "script_ok 1 {} False S" by fact
  show "account_order [] 0 (map Grab [0..<1]) []" by (simp add: account_order_def)
next
  fix L d ws js w u k j L' d' r
  assume o: "account_order L d ws js" "w < length ws" "ws ! w = RunJob u (k, j)"
    and L': "\<exists>L'. submitted S = L @ L'" and e: "account_exec j d = (d', r)"
  have "w = 0" using o by (simp add: account_order_def)
  then obtain past where past: "L = past @ (k, j) # js" "d = account_after 0 past" using o by (auto simp: account_order_def)
  obtain L' where "submitted S = past @ (k, j) # (js @ L')" using L' past by auto
  then have "account_value S k = r"
    using account_value_at [of S past k j "js @ L'"] script_ok_distinct [OF assms] past(2) e by simp
  moreover have "account_order L d' (ws[w := Grab u]) js"
    using o(1) past e \<open>w = 0\<close> by (auto simp: account_order_def account_after_append intro!: exI [of _ "past @ [(k, j)]"])
  ultimately show "account_order L d' (ws[w := Grab u]) js \<and> r = account_value S k" by simp
qed (auto simp: account_order_def)

interpretation ac: pool_client ac_q ac_done "ac_post 0 0" "ac_grab 0 0" "ac_destroy 0 0" 0 0 account_exec ac_main 1 ac_new 0
    account_order "account_value ac_main"
  by (rule account_client) (simp add: ac_main_def)

subsection \<open>Properties\<close>


definition tp_demo :: "(nat \<times> choice) list \<times> (((nat \<times> int) ThreadPool, unit, int) pool_state, int pool_loc) cfg" where
  "tp_demo = drive (tp_prog 2 3) [2, 1, 0] 100 (tp_start 2)"

lemma tp_demo_run: "run (step (tp_prog 2 3)) (tp_start 2) (fst tp_demo) = Some (snd tp_demo)"
  unfolding tp_demo_def by (rule drive_run) simp


text \<open>every schedule of the thread pool demo ends after a bounded number of steps, up to three more for each
  spurious wake-up.\<close>

theorem threadpool_terminates:
  assumes "run (step (tp_prog n m)) (tp_start n) es = Some c"
  shows "length es \<le> (3 * tp_workers n + 8) * (8 * m + 6 * tp_workers n + 4) + 2 * tp_workers n + 2 + 3 * spurs es"
proof -
  have "length (tp_main n m) = 2 * m + 1 + tp_workers n" by (simp add: tp_main_def)
  then have "tp.pot n m (pool_init tp_new ()) (pool_threads (tp_workers n)) = 8 * m + 6 * tp_workers n + 4"
    by (simp add: tp.pot_def pool_init_def pool_threads_def tp_new_def comp_def sum_list_triv)
  moreover have "tp.fee (length (pool_threads (tp_workers n) :: int pool_loc list)) = 3 * tp_workers n + 8"
    unfolding tp.fee_def by (simp add: pool_threads_def)
  ultimately show ?thesis
    using tp.run_bounded [of n m es c] assms by (simp add: tp_prog_def tp_start_def pool_threads_def)
qed

theorem threadpool_terminates_witness: "length (fst tp_demo) \<le> 14 * 40 + 6 + 3 * spurs (fst tp_demo)"
  using threadpool_terminates [OF tp_demo_run] by (simp add: tp_workers_def)



text \<open>the same for the pool built from \<open>packaged_task\<close>: with at least one worker it never gets stuck, and
  \<open>main\<close> prints the squares in the order of submission.\<close>

theorem tinypool_completes:
  assumes "reach (step (ty_prog n m)) (ty_start n) c" "stuck (ty_prog n m) c" and "0 < n"
  shows "all_fin (ty_prog n m) c \<and> pl_out (shared c) = map (\<lambda>i. int i * int i) [0..<m]"
proof -
  obtain n' where n: "n = Suc n'" using assms(3) by (cases n) auto
  note r = assms(1,2) [unfolded n ty_prog_def ty_start_def]
  show ?thesis
    using ty.stuck_fin [OF r] ty.fin_result(1) [OF r(1) ty.stuck_fin [OF r]]
    unfolding n ty_prog_def by (simp add: ty_main_def del: upt_Suc)
qed

definition ty_demo :: "(nat \<times> choice) list \<times> (((nat \<times> int) TinyPool, unit, int) pool_state, int pool_loc) cfg" where
  "ty_demo = drive (ty_prog 1 2) [0, 1] 100 (ty_start 1)"

lemma ty_demo_fin: "all_finb (ty_prog 1 2) (snd ty_demo)"
  by code_simp

theorem tinypool_completes_witness: "\<exists>c. all_fin (ty_prog 1 2) c \<and> pl_out (shared c) = [0, 1]"
proof -
  have r: "reach (step (ty_prog 1 2)) (ty_start 1) (snd ty_demo)" unfolding ty_demo_def by (rule drive_reach)
  show ?thesis using tinypool_completes [OF r] ty_demo_fin by (auto simp: all_finb upt_rec intro: all_fin_stuck)
qed

text \<open>C3: the active object behaves like its operations run one after the other: for any script of calls, every run ends after a bounded number
  of steps, the program does not get stuck, and every future \<open>main\<close> reads has the value the operation has when the
  operations are executed sequentially in the order of submission.\<close>

theorem account_sequential:
  assumes "script_ok 1 {} False S" "run (step (ac_prog S)) ac_start es = Some c"
  shows "length es \<le> 11 * (4 * length S + 2) + 4 + 3 * spurs es \<and>
    (stuck (ac_prog S) c \<longrightarrow> all_fin (ac_prog S) c \<and> pl_out (shared c) = outputs (account_value S) S)"
proof (intro conjI impI)
  note C = account_client [OF assms(1)]
  note run = assms(2) [unfolded ac_prog_def ac_start_def]
  show "length es \<le> 11 * (4 * length S + 2) + 4 + 3 * spurs es"
    using pool_client.pool_bounded [OF C run] by (simp add: pool_client.pot_def [OF C] pool_client.todo.simps [OF C] pool_init_def pool_threads_def ac_new_def)
  assume st: "stuck (ac_prog S) c"
  show "all_fin (ac_prog S) c" "pl_out (shared c) = outputs (account_value S) S"
    using pool_client.stuck_fin [OF C run_reach [OF run]] pool_client.fin_result [OF C run_reach [OF run]] st by (simp_all add: ac_prog_def)
qed

definition ac_demo :: "(nat \<times> choice) list \<times> (((nat \<times> account_op) Account, int, account_result) pool_state, account_op pool_loc) cfg" where
  "ac_demo = drive (ac_prog ac_main) [1, 0] 200 ac_start"

lemma ac_demo_fin: "all_finb (ac_prog ac_main) (snd ac_demo)"
  by code_simp

theorem account_sequential_witness:
  "\<exists>c. all_fin (ac_prog ac_main) c \<and> pl_out (shared c) = [Void, Void, Balance 150, Accepted True, Balance 30]"
proof -
  have run: "run (step (ac_prog ac_main)) ac_start (fst ac_demo) = Some (snd ac_demo)" unfolding ac_demo_def by (rule drive_run) simp
  have ok: "script_ok 1 {} False ac_main" by (simp add: ac_main_def)
  show ?thesis
    using account_sequential [OF ok run] ac_demo_fin by (auto simp: all_finb ac_main_def account_value_def intro: all_fin_stuck)
qed

end
