(* ===== verification/Counters.thy ===== *)
theory Counters
  imports Progress
begin

text \<open>
  The counter programs: \<open>N\<close> threads increment a shared counter \<open>ITERS\<close> times each. The increment
  \<open>++counter\<close> of a plain variable is what the compiler makes of it, a load and a store; what
  makes the result right is the lock around it, and the theory states what it needs of a lock.
  Providers: \<open>std::mutex\<close> and \<open>pthread_mutex_t\<close> (the caller blocks), \<open>pthread_spinlock_t\<close> and the
  class \<open>Spinlock\<close> over \<open>std::atomic_flag\<close> (the caller spins). Without a lock updates are lost;
  with \<open>fetch_add\<close> no lock is needed.
\<close>

subsection \<open>Locks\<close>

text \<open>
  \<open>acq k\<close> is one attempt to take the lock: \<open>None\<close> when the caller blocks, otherwise the new
  state and whether the lock was taken.
\<close>

locale lock =
  fixes taken :: "'k \<Rightarrow> bool" and acq :: "'k \<Rightarrow> ('k \<times> bool) option" and rel :: "'k \<Rightarrow> 'k" and fresh :: 'k
  assumes fresh_free: "\<not> taken fresh"
    and acq_some: "acq k = Some (k', got) \<Longrightarrow> taken k' \<and> (got \<longleftrightarrow> \<not> taken k)"
    and acq_none: "acq k = None \<Longrightarrow> taken k"
    and rel_free: "\<not> taken (rel k)"

text \<open>\<open>std::mutex\<close> and \<open>pthread_mutex_t\<close>: locked or not; \<open>lock\<close> blocks.\<close>

definition mutex_lock :: "bool \<Rightarrow> (bool \<times> bool) option" where
  "mutex_lock locked = (if locked then None else Some (True, True))"

definition mutex_unlock :: "bool \<Rightarrow> bool" where
  "mutex_unlock locked = False"

interpretation mtx: lock "\<lambda>k. k" mutex_lock mutex_unlock False
  by unfold_locales (auto simp: mutex_lock_def mutex_unlock_def split: if_splits)

text \<open>\<open>examples/02_cpp11_threads/04_atomics/02_atomic_flag.cpp\<close>: \<open>test_and_set\<close> returns the old value.\<close>

definition test_and_set :: "bool \<Rightarrow> bool \<times> bool" where
  "test_and_set f = (True, f)"

definition Spinlock_lock :: "bool \<Rightarrow> (bool \<times> bool) option" where
  "Spinlock_lock f = (case test_and_set f of (f', old) \<Rightarrow> Some (f', \<not> old))"

definition Spinlock_unlock :: "bool \<Rightarrow> bool" where
  "Spinlock_unlock f = False"

interpretation spin: lock "\<lambda>f. f" Spinlock_lock Spinlock_unlock False
  by unfold_locales (auto simp: Spinlock_lock_def Spinlock_unlock_def test_and_set_def)

text \<open>
  \<open>pthread_spin_lock\<close>: POSIX only says that the caller spins until the lock is free; the model
  takes or retries.
\<close>

definition pthread_spin_lock :: "bool \<Rightarrow> (bool \<times> bool) option" where
  "pthread_spin_lock locked = (if locked then Some (True, False) else Some (True, True))"

interpretation pspin: lock "\<lambda>k. k" pthread_spin_lock mutex_unlock False
  by unfold_locales (auto simp: pthread_spin_lock_def mutex_unlock_def split: if_splits)

subsection \<open>The program\<close>

record 'k inc_state =
  ic_lock :: 'k
  ic_val :: int

datatype inc_loc = LockIt nat | LoadC nat | StoreC nat int | UnlockIt nat

fun inc_thread :: "('k \<Rightarrow> ('k \<times> bool) option) \<Rightarrow> ('k \<Rightarrow> 'k) \<Rightarrow> nat \<Rightarrow> inc_loc \<Rightarrow> ('k inc_state, inc_loc) stmt" where
  "inc_thread acq rel ITERS (LockIt i) = (if i < ITERS then Act (\<lambda>s. case acq (ic_lock s) of
       None \<Rightarrow> []
     | Some (k, got) \<Rightarrow> [(s\<lparr>ic_lock := k\<rparr>, if got then LoadC i else LockIt i)]) else Fin)"
| "inc_thread acq rel ITERS (LoadC i) = Act (\<lambda>s. [(s, StoreC i (ic_val s))])"
| "inc_thread acq rel ITERS (StoreC i r) = Act (\<lambda>s. [(s\<lparr>ic_val := r + 1\<rparr>, UnlockIt i)])"
| "inc_thread acq rel ITERS (UnlockIt i) = Act (\<lambda>s. [(s\<lparr>ic_lock := rel (ic_lock s)\<rparr>, LockIt (Suc i))])"

definition inc_start :: "'k \<Rightarrow> nat \<Rightarrow> ('k inc_state, inc_loc) cfg" where
  "inc_start fresh N = start \<lparr>ic_lock = fresh, ic_val = 0\<rparr> (replicate N (LockIt 0))"

subsection \<open>The invariant\<close>

fun inside :: "inc_loc \<Rightarrow> nat" where
  "inside (LockIt i) = 0"
| "inside _ = 1"

fun incs :: "inc_loc \<Rightarrow> nat" where
  "incs (LockIt i) = i"
| "incs (LoadC i) = i"
| "incs (StoreC i r) = i"
| "incs (UnlockIt i) = Suc i"

fun reg_ok :: "int \<Rightarrow> inc_loc \<Rightarrow> bool" where
  "reg_ok v (StoreC i r) = (r = v)"
| "reg_ok v _ = True"

fun iter_ok :: "nat \<Rightarrow> inc_loc \<Rightarrow> bool" where
  "iter_ok ITERS (LockIt i) = (i \<le> ITERS)"
| "iter_ok ITERS (LoadC i) = (i < ITERS)"
| "iter_ok ITERS (StoreC i r) = (i < ITERS)"
| "iter_ok ITERS (UnlockIt i) = (i < ITERS)"

definition inc_inv :: "('k \<Rightarrow> bool) \<Rightarrow> nat \<Rightarrow> nat \<Rightarrow> 'k inc_state \<Rightarrow> inc_loc list \<Rightarrow> bool" where
  "inc_inv taken N ITERS s ls \<longleftrightarrow> length ls = N \<and> sum_list (map inside ls) = of_bool (taken (ic_lock s))
     \<and> ic_val s = int (sum_list (map incs ls)) \<and> (\<forall>l\<in>set ls. reg_ok (ic_val s) l \<and> iter_ok ITERS l)"

lemma inc_inv_inside: "inc_inv taken N ITERS s ls \<Longrightarrow> sum_list (map inside ls) \<le> 1"
  unfolding inc_inv_def by (elim conjE) (simp only:, simp)

lemma only_one_inside:
  assumes "sum_list (map inside ls) \<le> 1" "i < length ls" "inside (ls ! i) = 1" "j < length ls" "j \<noteq> i"
  shows "\<exists>k. ls ! j = LockIt k"
proof (rule ccontr)
  assume "\<not> (\<exists>k. ls ! j = LockIt k)"
  then have "inside (ls ! j) = 1" by (cases "ls ! j") auto
  moreover obtain R where "sum_list (map inside ls) = R + inside (ls ! i)" "\<And>x. sum_list (map inside (ls[i := x])) = R + inside x"
    using sum_list_split [OF assms(2)] by blast
  moreover have "inside (ls[i := LockIt 0] ! j) \<le> sum_list (map inside (ls[i := LockIt 0]))"
    using assms(4) by (intro member_le_sum_list_nat) simp
  ultimately show False using assms by simp
qed

context lock
begin

lemma inc_inv_init: "inc_inv taken N ITERS \<lparr>ic_lock = fresh, ic_val = 0\<rparr> (replicate N (LockIt 0))"
  by (auto simp: inc_inv_def fresh_free sum_list_replicate)

lemma inc_inv_step:
  assumes inv: "inc_inv taken N ITERS s ls" and i: "i < length ls"
    and e: "(s', l') \<in> set (effects (inc_thread acq rel ITERS (ls ! i)) s)"
  shows "inc_inv taken N ITERS s' (ls[i := l'])"
proof -
  have l: "reg_ok (ic_val s) (ls ! i)" "iter_ok ITERS (ls ! i)" using inv i by (auto simp: inc_inv_def)
  obtain R where R: "sum_list (map inside ls) = R + inside (ls ! i)" "\<And>x. sum_list (map inside (ls[i := x])) = R + inside x"
    using sum_list_split [OF i] by blast
  obtain T where T: "sum_list (map incs ls) = T + incs (ls ! i)" "\<And>x. sum_list (map incs (ls[i := x])) = T + incs x"
    using sum_list_split [OF i] by blast
  have others: "reg_ok v (ls ! j)" if "inside (ls ! i) = 1" "j < length ls" "j \<noteq> i" for v j
  proof -
    from only_one_inside [OF inc_inv_inside [OF inv], of i j] i that show ?thesis by auto
  qed
  have upd: "\<forall>l\<in>set (ls[i := l']). reg_ok v l \<and> iter_ok ITERS l"
    if "\<And>j. j < length ls \<Longrightarrow> j \<noteq> i \<Longrightarrow> reg_ok v (ls ! j)" "reg_ok v l'" "iter_ok ITERS l'" for v
    using that inv i by (simp add: all_set_upd inc_inv_def)
  have keep: "\<And>j. j < length ls \<Longrightarrow> reg_ok (ic_val s) (ls ! j)" using inv by (auto simp: inc_inv_def)
  show ?thesis
  proof (cases "ls ! i")
    case (LockIt k)
    then obtain lk got where a: "acq (ic_lock s) = Some (lk, got)" "s' = s\<lparr>ic_lock := lk\<rparr>" "l' = (if got then LoadC k else LockIt k)" "k < ITERS"
      using e by (cases "acq (ic_lock s)") (auto split: if_splits)
    have t: "taken lk" "got = (\<not> taken (ic_lock s))" using acq_some [OF a(1)] by auto
    have "\<forall>l\<in>set (ls[i := l']). reg_ok (ic_val s) l \<and> iter_ok ITERS l" using a keep by (intro upd) auto
    then show ?thesis using inv LockIt a(2,3) t by (cases got) (simp_all add: inc_inv_def R T)
  next
    case (LoadC k)
    then have a: "s' = s" "l' = StoreC k (ic_val s)" "k < ITERS" using e l by auto
    then have "\<forall>l\<in>set (ls[i := l']). reg_ok (ic_val s) l \<and> iter_ok ITERS l" using keep by (intro upd) auto
    then show ?thesis using inv LoadC a by (simp add: inc_inv_def R T)
  next
    case (StoreC k r)
    then have a: "s' = s\<lparr>ic_val := ic_val s + 1\<rparr>" "l' = UnlockIt k" "k < ITERS" using e l by auto
    then have "\<forall>l\<in>set (ls[i := l']). reg_ok (ic_val s + 1) l \<and> iter_ok ITERS l" using others StoreC by (intro upd) auto
    then show ?thesis using inv StoreC a by (simp add: inc_inv_def R T)
  next
    case (UnlockIt k)
    then have a: "s' = s\<lparr>ic_lock := rel (ic_lock s)\<rparr>" "l' = LockIt (Suc k)" "k < ITERS" using e l by auto
    then have "\<forall>l\<in>set (ls[i := l']). reg_ok (ic_val s) l \<and> iter_ok ITERS l" using keep by (intro upd) auto
    then show ?thesis using inv UnlockIt a rel_free by (cases "taken (ic_lock s)") (simp_all add: inc_inv_def R T)
  qed
qed

lemma inc_client:
  "monitor_invariant (\<lambda>_. inc_thread acq rel ITERS) \<lparr>ic_lock = fresh, ic_val = 0\<rparr> (replicate N (LockIt 0)) (inc_inv taken N ITERS)"
  by unfold_locales (auto intro: inc_inv_init inc_inv_step)

lemma inc_reach: "reach (step (\<lambda>_. inc_thread acq rel ITERS)) (inc_start fresh N) c \<Longrightarrow> inc_inv taken N ITERS (shared c) (locs c)"
  using monitor_invariant.I_reach [OF inc_client] by (simp add: inc_start_def)

text \<open>Mutual exclusion.\<close>

lemma inc_exclusive:
  assumes "reach (step (\<lambda>_. inc_thread acq rel ITERS)) (inc_start fresh N) c" "i < length (thr c)" "j < length (thr c)" "i \<noteq> j"
  shows "inside (loc (thr c ! i)) + inside (loc (thr c ! j)) \<le> 1"
proof -
  note le = inc_inv_inside [OF inc_reach [OF assms(1)]]
  have one: "inside l \<le> 1" for l by (cases l) auto
  show ?thesis
    using only_one_inside [OF le, of i j] one [of "loc (thr c ! i)"] one [of "loc (thr c ! j)"] assms(2-4)
    by (cases "inside (loc (thr c ! i)) = 1") auto
qed

text \<open>Nobody waits for ever, and the result is right.\<close>

lemma inc_stuck_fin:
  assumes r: "reach (step (\<lambda>_. inc_thread acq rel ITERS)) (inc_start fresh N) c" "stuck (\<lambda>_. inc_thread acq rel ITERS) c"
  shows "all_fin (\<lambda>_. inc_thread acq rel ITERS) c"
proof -
  note ok = reach_ok [OF r(1) [unfolded inc_start_def]]
  have cases: "(\<exists>k. thr c ! i = At (LockIt k) \<and> (inc_thread acq rel ITERS (LockIt k) = Fin \<or> taken (ic_lock (shared c))))" if i: "i < length (thr c)" for i
    using r(2) i ok(1,2)
  proof (cases rule: stuck_cases)
    case (fin l)
    then show ?thesis by (cases l) auto
  next
    case (blocked l f)
    then show ?thesis by (cases l) (auto split: if_splits option.splits intro: acq_none)
  next
    case (asleep l m v p b)
    then show ?thesis by (cases l) (auto split: if_splits)
  qed
  then have "inside l = 0" if "l \<in> set (locs c)" for l using that by (force simp: in_set_conv_nth)
  then have "sum_list (map inside (locs c)) = 0" by (rule sum_list_map_zero)
  with inc_reach [OF r(1)] have "\<not> taken (ic_lock (shared c))" by (auto simp: inc_inv_def)
  with cases show ?thesis by (fastforce simp: all_fin_def)
qed

lemma inc_fin_value:
  assumes r: "reach (step (\<lambda>_. inc_thread acq rel ITERS)) (inc_start fresh N) c" "all_fin (\<lambda>_. inc_thread acq rel ITERS) c"
  shows "ic_val (shared c) = int (N * ITERS)"
proof -
  note inv = inc_reach [OF r(1), unfolded inc_inv_def]
  have "incs l = ITERS" if l: "l \<in> set (locs c)" for l
  proof -
    from l obtain i where "i < length (thr c)" "l = loc (thr c ! i)" by (auto simp: in_set_conv_nth)
    then have "inc_thread acq rel ITERS l = Fin" using r(2) by (auto simp: all_fin_def)
    moreover have "iter_ok ITERS l" using inv l by simp
    ultimately show ?thesis by (cases l) (auto split: if_splits)
  qed
  then have "map incs (locs c) = replicate N ITERS" using inv by (intro replicate_eqI) auto
  then show ?thesis using inv by (simp add: sum_list_replicate_nat)
qed

end

text \<open>With a lock whose \<open>acq\<close> does not spin, the program also ends.\<close>

fun inc_todo :: "nat \<Rightarrow> inc_loc \<Rightarrow> nat" where
  "inc_todo ITERS (LockIt i) = 4 * (ITERS - i)"
| "inc_todo ITERS (LoadC i) = 4 * (ITERS - i) - 1"
| "inc_todo ITERS (StoreC i r) = 4 * (ITERS - i) - 2"
| "inc_todo ITERS (UnlockIt i) = 4 * (ITERS - i) - 3"

locale blocking_lock = lock +
  assumes acq_got: "acq k = Some (k', got) \<Longrightarrow> got"
begin

lemma inc_terminating:
  "terminating (\<lambda>_. inc_thread acq rel ITERS) \<lparr>ic_lock = fresh, ic_val = 0\<rparr> (replicate N (LockIt 0)) (inc_inv taken N ITERS)
    (\<lambda>s ls. sum_list (map (inc_todo ITERS) ls)) 0"
proof (intro terminating.intro inc_client terminating_axioms.intro)
  fix s ls i s' l'
  assume inv: "inc_inv taken N ITERS s ls" and i: "i < length ls" and e: "(s', l') \<in> set (effects (inc_thread acq rel ITERS (ls ! i)) s)"
  obtain T where T: "sum_list (map (inc_todo ITERS) ls) = T + inc_todo ITERS (ls ! i)"
    "\<And>x. sum_list (map (inc_todo ITERS) (ls[i := x])) = T + inc_todo ITERS x" using sum_list_split [OF i] by blast
  have "iter_ok ITERS (ls ! i)" using inv i by (auto simp: inc_inv_def)
  then have "inc_todo ITERS l' < inc_todo ITERS (ls ! i)"
    using e by (cases "ls ! i") (auto split: if_splits option.splits dest: acq_got [OF sym])
  then show "sum_list (map (inc_todo ITERS) (ls[i := l'])) < sum_list (map (inc_todo ITERS) ls)" by (simp add: T)
next
  fix ls :: "inc_loc list" and i m w b and s s' :: "'a inc_state" and l' pre post
  assume "inc_thread acq rel ITERS (ls ! i) = Monitor m w b"
  then show "length pre + length post \<le> 0" by (cases "ls ! i") (auto split: if_splits)
qed

lemma inc_bounded:
  assumes "run (step (\<lambda>_. inc_thread acq rel ITERS)) (inc_start fresh N) es = Some c"
  shows "length es \<le> 16 * (N * ITERS) + 2 * N + 3 * spurs es"
  using terminating.run_bounded [OF inc_terminating assms [unfolded inc_start_def]]
  by (simp add: terminating.fee_def [OF inc_terminating] sum_list_replicate)

end

interpretation mtx: blocking_lock "\<lambda>k. k" mutex_lock mutex_unlock False
  by unfold_locales (auto simp: mutex_lock_def split: if_splits)

subsection \<open>No lock: updates are lost\<close>

text \<open>Part (1) of \<open>examples/04_pitfalls/01_race_condition.cpp\<close>: the same threads without any lock.\<close>

definition no_lock :: "unit \<Rightarrow> (unit \<times> bool) option" where
  "no_lock u = Some (u, True)"

definition no_unlock :: "unit \<Rightarrow> unit" where
  "no_unlock u = u"

definition race_thread :: "nat \<Rightarrow> nat \<Rightarrow> inc_loc \<Rightarrow> (unit inc_state, inc_loc) stmt" where
  "race_thread ITERS = (\<lambda>_. inc_thread no_lock no_unlock ITERS)"

text \<open>Two threads in lockstep: both load the same value, both store its successor.\<close>

definition lockstep :: "(nat \<times> choice) list" where
  "lockstep = map (\<lambda>i. (i, Norm 0)) [0, 1, 0, 1, 0, 1, 0, 1]"

definition lockstep_at :: "int \<Rightarrow> nat \<Rightarrow> (unit inc_state, inc_loc) cfg" where
  "lockstep_at v i = start \<lparr>ic_lock = (), ic_val = v\<rparr> [LockIt i, LockIt i]"

lemma lockstep_round: "i < ITERS \<Longrightarrow> run (step (race_thread ITERS)) (lockstep_at v i) lockstep = Some (lockstep_at (v + 1) (Suc i))"
  by (simp add: lockstep_def lockstep_at_def step_def race_thread_def step_at_def start_def set_thr_def no_lock_def no_unlock_def)

lemma lockstep_reach: "i \<le> ITERS \<Longrightarrow> reach (step (race_thread ITERS)) (lockstep_at 0 0) (lockstep_at (int i) i)"
proof (induction i)
  case 0
  show ?case by (simp add: reach_refl)
next
  case (Suc i)
  then have "reach (step (race_thread ITERS)) (lockstep_at (int i) i) (lockstep_at (int i + 1) (Suc i))"
    using run_reach [OF lockstep_round] by simp
  with Suc show ?case using reach_trans by (fastforce simp: add.commute)
qed

subsection \<open>Atomic read-modify-write\<close>

text \<open>
  \<open>examples/02_cpp11_threads/04_atomics/01_atomic_basic.cpp\<close>, part (3) of \<open>01_race_condition.cpp\<close> and
  \<open>examples/05_memory_model/03_relaxed.cpp\<close>: iteration \<open>i\<close> of a thread adds one to counter \<open>sel i\<close>
  with \<open>fetch_add\<close>. A read-modify-write reads the last value in modification order whatever
  its memory order, so the step is atomic.
\<close>

fun add_thread :: "(nat \<Rightarrow> nat) \<Rightarrow> nat \<Rightarrow> nat \<Rightarrow> (nat \<Rightarrow> int, nat) stmt" where
  "add_thread sel ITERS i = (if i < ITERS then Act (\<lambda>c. [(c(sel i := c (sel i) + 1), Suc i)]) else Fin)"

definition add_start :: "nat \<Rightarrow> (nat \<Rightarrow> int, nat) cfg" where
  "add_start N = start (\<lambda>_. 0) (replicate N 0)"

definition relaxed_sel :: "nat \<Rightarrow> nat" where
  "relaxed_sel k = (if k mod 4 = 0 then 0 else 1)"

definition added :: "(nat \<Rightarrow> nat) \<Rightarrow> nat \<Rightarrow> nat \<Rightarrow> nat" where
  "added sel j i = length (filter (\<lambda>k. sel k = j) [0..<i])"

definition add_inv :: "(nat \<Rightarrow> nat) \<Rightarrow> nat \<Rightarrow> nat \<Rightarrow> (nat \<Rightarrow> int) \<Rightarrow> nat list \<Rightarrow> bool" where
  "add_inv sel N ITERS c ls \<longleftrightarrow> length ls = N \<and> (\<forall>j. c j = int (sum_list (map (added sel j) ls))) \<and> (\<forall>i\<in>set ls. i \<le> ITERS)"

lemma added_Suc: "added sel j (Suc i) = added sel j i + of_bool (sel i = j)"
  by (simp add: added_def)

interpretation add: terminating "\<lambda>_. add_thread sel ITERS" "\<lambda>_. 0" "replicate N 0" "add_inv sel N ITERS"
    "\<lambda>c ls. sum_list (map (\<lambda>i. ITERS - i) ls)" 0 for sel N ITERS
proof
  show "add_inv sel N ITERS (\<lambda>_. 0) (replicate N 0)" by (simp add: add_inv_def added_def sum_list_replicate)
next
  fix s ls i s' l' assume inv: "add_inv sel N ITERS s ls" and i: "i < length ls" and e: "(s', l') \<in> set (effects (add_thread sel ITERS (ls ! i)) s)"
  have l: "ls ! i < ITERS" "l' = Suc (ls ! i)" "s' = s(sel (ls ! i) := s (sel (ls ! i)) + 1)"
    using e by (simp_all split: if_splits)
  have "s' j = int (sum_list (map (added sel j) (ls[i := l'])))" for j
  proof -
    obtain T where T: "sum_list (map (added sel j) ls) = T + added sel j (ls ! i)"
      "\<And>x. sum_list (map (added sel j) (ls[i := x])) = T + added sel j x" using sum_list_split [OF i] by blast
    have "s j = int (T + added sel j (ls ! i))" using inv T(1) by (simp add: add_inv_def)
    then show ?thesis using l by (auto simp: T(2) added_Suc)
  qed
  then show "add_inv sel N ITERS s' (ls[i := l'])" using inv l(1,2) i unfolding add_inv_def by (auto simp: all_set_upd)
  obtain T where T: "sum_list (map (\<lambda>i. ITERS - i) ls) = T + (ITERS - ls ! i)"
    "\<And>x. sum_list (map (\<lambda>i. ITERS - i) (ls[i := x])) = T + (ITERS - x)" using sum_list_split [OF i, of "\<lambda>i. ITERS - i"] by blast
  show "sum_list (map (\<lambda>i. ITERS - i) (ls[i := l'])) < sum_list (map (\<lambda>i. ITERS - i) ls)"
    using l unfolding T by simp
qed (auto split: if_splits)

subsection \<open>The programs\<close>

text \<open>\<open>examples/01_pthreads/02_mutex/01_basic_mutex.c\<close> and its C++ twin, 8 threads, 100000 increments each.\<close>

definition basic_mutex_worker :: "nat \<Rightarrow> inc_loc \<Rightarrow> (bool inc_state, inc_loc) stmt" where
  "basic_mutex_worker = (\<lambda>_. inc_thread mutex_lock mutex_unlock 100000)"

definition basic_mutex_main :: "(bool inc_state, inc_loc) cfg" where
  "basic_mutex_main = inc_start False 8"

definition worker_manual :: "nat \<Rightarrow> nat \<Rightarrow> inc_loc \<Rightarrow> (bool inc_state, inc_loc) stmt" where
  "worker_manual n = (\<lambda>_. inc_thread mutex_lock mutex_unlock n)"

definition worker_manual_main :: "(bool inc_state, inc_loc) cfg" where
  "worker_manual_main = inc_start False 8"

text \<open>\<open>examples/02_cpp11_threads/02_mutex/02_lock_guard.cpp\<close>: \<open>inc\<close> of the class \<open>Counter\<close> in a loop.\<close>

definition Counter_inc_loop :: "nat \<Rightarrow> nat \<Rightarrow> inc_loc \<Rightarrow> (bool inc_state, inc_loc) stmt" where
  "Counter_inc_loop ITERS = (\<lambda>_. inc_thread mutex_lock mutex_unlock ITERS)"

definition lock_guard_main :: "(bool inc_state, inc_loc) cfg" where
  "lock_guard_main = inc_start False 8"

text \<open>Part (2) of \<open>01_race_condition.cpp\<close>: \<open>bench\<close> starts 8 threads with the same function.\<close>

definition race_mutex_thread :: "nat \<Rightarrow> inc_loc \<Rightarrow> (bool inc_state, inc_loc) stmt" where
  "race_mutex_thread = (\<lambda>_. inc_thread mutex_lock mutex_unlock 200000)"

definition bench :: "'k \<Rightarrow> ('k inc_state, inc_loc) cfg" where
  "bench fresh = inc_start fresh 8"

text \<open>\<open>examples/01_pthreads/07_spinlock/01_spinlock.c\<close> and \<open>02_atomic_flag.cpp\<close>.\<close>

definition spinlock_worker :: "nat \<Rightarrow> inc_loc \<Rightarrow> (bool inc_state, inc_loc) stmt" where
  "spinlock_worker = (\<lambda>_. inc_thread pthread_spin_lock mutex_unlock 100000)"

definition spinlock_main :: "(bool inc_state, inc_loc) cfg" where
  "spinlock_main = inc_start False 4"

definition atomic_flag_thread :: "nat \<Rightarrow> nat \<Rightarrow> inc_loc \<Rightarrow> (bool inc_state, inc_loc) stmt" where
  "atomic_flag_thread ITERS = (\<lambda>_. inc_thread Spinlock_lock Spinlock_unlock ITERS)"

definition atomic_flag_main :: "nat \<Rightarrow> (bool inc_state, inc_loc) cfg" where
  "atomic_flag_main N = inc_start False N"

text \<open>The atomic counters.\<close>

definition atomic_basic_worker :: "nat \<Rightarrow> nat \<Rightarrow> nat \<Rightarrow> (nat \<Rightarrow> int, nat) stmt" where
  "atomic_basic_worker n = (\<lambda>_. add_thread (\<lambda>_. 0) n)"

definition atomic_basic_main :: "(nat \<Rightarrow> int, nat) cfg" where
  "atomic_basic_main = add_start 8"

definition race_atomic_thread :: "nat \<Rightarrow> nat \<Rightarrow> (nat \<Rightarrow> int, nat) stmt" where
  "race_atomic_thread = atomic_basic_worker 200000"

definition relaxed_thread :: "nat \<Rightarrow> nat \<Rightarrow> nat \<Rightarrow> (nat \<Rightarrow> int, nat) stmt" where
  "relaxed_thread n = (\<lambda>_. add_thread relaxed_sel n)"

lemma add_stuck_fin:
  assumes r: "reach (step (\<lambda>_. add_thread sel ITERS)) (add_start N) c" "stuck (\<lambda>_. add_thread sel ITERS) c"
  shows "all_fin (\<lambda>_. add_thread sel ITERS) c" "shared c j = int (N * added sel j ITERS)"
proof -
  note r' = r(1) [unfolded add_start_def] and inv = add.I_reach [OF r(1) [unfolded add_start_def]]
  note ok = reach_ok [OF r']
  have fin: "thr c ! i = At ITERS" if i: "i < length (thr c)" for i
    using r(2) i ok(1,2)
  proof (cases rule: stuck_cases)
    case (fin l)
    moreover have "l \<le> ITERS" using inv i fin nth_mem [of i "locs c"] by (auto simp: add_inv_def)
    ultimately show ?thesis by (auto split: if_splits)
  qed (auto split: if_splits)
  then show "all_fin (\<lambda>_. add_thread sel ITERS) c" by (simp add: all_fin_def)
  have "locs c = replicate N ITERS" using fin inv by (intro replicate_eqI) (auto simp: add_inv_def in_set_conv_nth)
  then show "shared c j = int (N * added sel j ITERS)" using inv by (simp add: add_inv_def sum_list_replicate_nat)
qed

lemma added_const: "added (\<lambda>_. 0) 0 n = n"
  by (simp add: added_def)

lemma relaxed_hits: "added relaxed_sel 0 (4 * n) = n" and relaxed_misses: "added relaxed_sel 1 (4 * n) = 3 * n"
proof (induction n)
  case (Suc n)
  have m: "(4 * n) mod 4 = 0" "(4 * n + 1) mod 4 = 1" "(4 * n + 2) mod 4 = 2" "(4 * n + 3) mod 4 = (3 :: nat)" by presburger+
  have "4 * Suc n = Suc (Suc (Suc (Suc (4 * n))))" by simp
  then have "added relaxed_sel j (4 * Suc n) = added relaxed_sel j (4 * n) + of_bool (0 = j) + 3 * of_bool (1 = j)" for j
    using m by (simp only: added_Suc relaxed_sel_def) (auto simp: relaxed_sel_def)
  with Suc show "added relaxed_sel 0 (4 * Suc n) = Suc n" "added relaxed_sel 1 (4 * Suc n) = 3 * Suc n" by simp_all
qed (simp_all add: added_def)

subsection \<open>Properties\<close>

text \<open>C7: a counter under a mutex is exact: any number of threads with any number of increments each end after a bounded number of steps,
  get stuck only when all have returned, and the counter is then the number of increments. The plain
  load and store of \<open>++counter\<close> are separate steps of the model.\<close>

theorem mutex_counter_exact:
  assumes "run (step (worker_manual n)) (inc_start False N) es = Some c"
  shows "length es \<le> 16 * (N * n) + 2 * N + 3 * spurs es \<and>
    (stuck (worker_manual n) c \<longrightarrow> all_fin (worker_manual n) c \<and> ic_val (shared c) = int (N * n))"
proof -
  note run = assms [unfolded worker_manual_def]
  show ?thesis
    using mtx.inc_bounded [OF run] mtx.inc_stuck_fin [OF run_reach [OF run]] mtx.inc_fin_value [OF run_reach [OF run]]
    by (simp add: worker_manual_def)
qed

definition counter_demo :: "(nat \<times> choice) list \<times> (bool inc_state, inc_loc) cfg" where
  "counter_demo = drive (worker_manual 2) [1, 0] 50 (inc_start False 2)"

lemma counter_demo_fin: "all_finb (worker_manual 2) (snd counter_demo)"
  by code_simp

theorem mutex_counter_exact_witness: "\<exists>c. all_fin (worker_manual 2) c \<and> ic_val (shared c) = 4"
proof -
  have run: "run (step (worker_manual 2)) (inc_start False 2) (fst counter_demo) = Some (snd counter_demo)"
    unfolding counter_demo_def by (rule drive_run) simp
  show ?thesis using mutex_counter_exact [OF run] counter_demo_fin by (auto simp: all_finb intro: all_fin_stuck)
qed

text \<open>the class \<open>Spinlock\<close> is a lock: two threads are never between \<open>lock\<close> and \<open>unlock\<close> at the same time, and
  when all threads have returned no increment is lost.\<close>

theorem spinlock_excludes:
  assumes "reach (step (atomic_flag_thread ITERS)) (atomic_flag_main N) c" "i < length (thr c)" "j < length (thr c)" "i \<noteq> j"
  shows "inside (loc (thr c ! i)) + inside (loc (thr c ! j)) \<le> 1 \<and> (stuck (atomic_flag_thread ITERS) c \<longrightarrow> ic_val (shared c) = int (N * ITERS))"
  using spin.inc_exclusive spin.inc_stuck_fin spin.inc_fin_value assms
  by (simp add: atomic_flag_thread_def atomic_flag_main_def)

definition spin_demo :: "(nat \<times> choice) list \<times> (bool inc_state, inc_loc) cfg" where
  "spin_demo = drive (atomic_flag_thread 1) [0, 1] 50 (atomic_flag_main 2)"

lemma spin_demo_fin: "all_finb (atomic_flag_thread 1) (snd spin_demo)" "length (thr (snd spin_demo)) = 2"
  by code_simp+

theorem spinlock_excludes_witness: "ic_val (shared (snd spin_demo)) = 2"
proof -
  have r: "reach (step (atomic_flag_thread 1)) (atomic_flag_main 2) (snd spin_demo)" unfolding spin_demo_def by (rule drive_reach)
  show ?thesis using spinlock_excludes [OF r, of 0 1] spin_demo_fin by (simp add: all_finb all_fin_stuck)
qed

text \<open>without a lock increments are lost: for every \<open>ITERS\<close> two threads can finish, after \<open>2 * ITERS\<close> increments,
  with the counter at \<open>ITERS\<close>.\<close>

theorem race_loses_updates:
  "\<exists>c. reach (step (race_thread ITERS)) (inc_start () 2) c \<and> all_fin (race_thread ITERS) c \<and> ic_val (shared c) = int ITERS"
proof -
  have "lockstep_at 0 0 = inc_start () 2" by (simp add: lockstep_at_def inc_start_def numeral_2_eq_2)
  moreover have "all_fin (race_thread ITERS) (lockstep_at (int ITERS) ITERS)"
    by (auto simp: all_fin_def lockstep_at_def start_def race_thread_def less_Suc_eq)
  moreover have "ic_val (shared (lockstep_at (int ITERS) ITERS)) = int ITERS" by (simp add: lockstep_at_def start_def)
  ultimately show ?thesis using lockstep_reach [of ITERS ITERS] by auto
qed

text \<open>\<open>fetch_add\<close> counts exactly, even with relaxed order: when nothing moves, every thread has returned, and
  with \<open>4 * n\<close> iterations per thread the hit counter is \<open>N * n\<close> and the miss counter \<open>3 * N * n\<close>.\<close>

theorem relaxed_counters_exact:
  assumes "reach (step (relaxed_thread (4 * n))) (add_start N) c" "stuck (relaxed_thread (4 * n)) c"
  shows "all_fin (relaxed_thread (4 * n)) c \<and> shared c 0 = int (N * n) \<and> shared c 1 = int (3 * N * n)"
  using add_stuck_fin [OF assms [unfolded relaxed_thread_def]]
  by (simp add: relaxed_thread_def relaxed_hits relaxed_misses [simplified])

definition relaxed_demo :: "(nat \<times> choice) list \<times> (nat \<Rightarrow> int, nat) cfg" where
  "relaxed_demo = drive (relaxed_thread 4) [0, 1] 50 (add_start 2)"

lemma relaxed_demo_fin: "all_finb (relaxed_thread 4) (snd relaxed_demo)"
  by code_simp

theorem relaxed_counters_exact_witness: "\<exists>c. all_fin (relaxed_thread 4) c \<and> shared c 0 = 2 \<and> shared c 1 = 6"
proof -
  have r: "reach (step (relaxed_thread (4 * 1))) (add_start 2) (snd relaxed_demo)" unfolding relaxed_demo_def by (simp add: drive_reach)
  show ?thesis using relaxed_counters_exact [OF r] relaxed_demo_fin by (auto simp: all_finb intro: all_fin_stuck)
qed

end
