(* ===== verification/Locking.thy ===== *)
theory Locking
  imports Progress
begin

text \<open>
  Programs that hold several mutexes at once: the deadlock of
  \<open>examples/01_pthreads/02_mutex/05_deadlock_demo.c\<close> and \<open>examples/04_pitfalls/02_deadlock.cpp\<close>, its cures
  (a global lock order, \<open>std::scoped_lock\<close>), the deferred locks of
  \<open>examples/02_cpp11_threads/02_mutex/03_unique_lock.cpp\<close>, the transfers of
  \<open>examples/02_cpp11_threads/02_mutex/04_scoped_lock.cpp\<close> and the dining philosophers of
  \<open>examples/03_patterns/04_dining_philosophers.cpp\<close>. A thread is a list of commands; one theorem
  says when such programs cannot deadlock and compute what they should.
\<close>

subsection \<open>Commands\<close>

text \<open>
  \<open>LockAll ms\<close> is \<open>std::lock\<close> (which \<open>std::scoped_lock\<close> calls): lock the first mutex, try the others, and
  when one is taken release all and start again by waiting for that one; \<open>TryAll got ms\<close> is
  the middle of it. \<open>TryBoth m1 m2\<close> is the loop of \<open>take_with_backoff\<close>: try both mutexes, never
  wait for one; \<open>TrySecond\<close> is the middle of it. \<open>Update x d\<close> is \<open>x += d\<close> on a plain variable, a load followed by a store
  (\<open>StoreBack\<close>). Variable \<open>x\<close> is guarded by mutex \<open>x\<close>.
\<close>

datatype lcmd =
    Lock nat
  | Unlock nat
  | LockAll "nat list"
  | TryAll "nat list" "nat list"
  | TryBoth nat nat
  | TrySecond nat nat
  | Update nat int
  | StoreBack nat int int

record lk_state =
  lk_owner :: "nat \<Rightarrow> nat option"
  lk_data :: "nat \<Rightarrow> int"

definition take_mutex :: "nat \<Rightarrow> nat \<Rightarrow> lk_state \<Rightarrow> lk_state" where
  "take_mutex i m s = s\<lparr>lk_owner := (lk_owner s)(m := Some i)\<rparr>"

definition release :: "nat list \<Rightarrow> lk_state \<Rightarrow> lk_state" where
  "release ms s = s\<lparr>lk_owner := (\<lambda>m. if m \<in> set ms then None else lk_owner s m)\<rparr>"

fun lock_thread :: "nat \<Rightarrow> lcmd list \<Rightarrow> (lk_state, lcmd list) stmt" where
  "lock_thread i [] = Fin"
| "lock_thread i (Lock m # cs) = Act (\<lambda>s. case lk_owner s m of None \<Rightarrow> [(take_mutex i m s, cs)] | Some j \<Rightarrow> [])"
| "lock_thread i (Unlock m # cs) = Act (\<lambda>s. [(release [m] s, cs)])"
| "lock_thread i (LockAll [] # cs) = Act (\<lambda>s. [(s, cs)])"
| "lock_thread i (LockAll (m # ms) # cs) =
     Act (\<lambda>s. case lk_owner s m of None \<Rightarrow> [(take_mutex i m s, TryAll [m] ms # cs)] | Some j \<Rightarrow> [])"
| "lock_thread i (TryAll got [] # cs) = Act (\<lambda>s. [(s, cs)])"
| "lock_thread i (TryAll got (m # ms) # cs) = Act (\<lambda>s. case lk_owner s m of
       None \<Rightarrow> [(take_mutex i m s, TryAll (got @ [m]) ms # cs)]
     | Some j \<Rightarrow> [(release got s, LockAll (m # ms @ got) # cs)])"
| "lock_thread i (TryBoth m1 m2 # cs) = Act (\<lambda>s. case lk_owner s m1 of
       None \<Rightarrow> [(take_mutex i m1 s, TrySecond m1 m2 # cs)]
     | Some j \<Rightarrow> [(s, TryBoth m1 m2 # cs)])"
| "lock_thread i (TrySecond m1 m2 # cs) = Act (\<lambda>s. case lk_owner s m2 of
       None \<Rightarrow> [(take_mutex i m2 s, cs)]
     | Some j \<Rightarrow> [(release [m1] s, TryBoth m1 m2 # cs)])"
| "lock_thread i (Update x d # cs) = Act (\<lambda>s. [(s, StoreBack x (lk_data s x + d) d # cs)])"
| "lock_thread i (StoreBack x v d # cs) = Act (\<lambda>s. [(s\<lparr>lk_data := (lk_data s)(x := v)\<rparr>, cs)])"

definition lock_start :: "(nat \<Rightarrow> int) \<Rightarrow> lcmd list list \<Rightarrow> (lk_state, lcmd list) cfg" where
  "lock_start v ps = start \<lparr>lk_owner = (\<lambda>_. None), lk_data = v\<rparr> ps"

subsection \<open>The discipline\<close>

text \<open>
  A thread that holds the mutexes \<open>H\<close> may block only on larger ones, touches only variables whose
  mutex it holds, and releases everything in the end.
\<close>

fun disciplined :: "nat set \<Rightarrow> lcmd list \<Rightarrow> bool" where
  "disciplined H [] = (H = {})"
| "disciplined H (Lock m # cs) = ((\<forall>h\<in>H. h < m) \<and> disciplined (insert m H) cs)"
| "disciplined H (Unlock m # cs) = (m \<in> H \<and> disciplined (H - {m}) cs)"
| "disciplined H (LockAll ms # cs) = (distinct ms \<and> (\<forall>h\<in>H. \<forall>m\<in>set ms. h < m) \<and> disciplined (H \<union> set ms) cs)"
| "disciplined H (TryAll got ms # cs) = (distinct (got @ ms) \<and> set got \<subseteq> H \<and>
     (\<forall>h\<in>H - set got. \<forall>m\<in>set got \<union> set ms. h < m) \<and> disciplined (H \<union> set ms) cs)"
| "disciplined H (TryBoth m1 m2 # cs) = (m1 \<notin> H \<and> m2 \<notin> H \<and> m1 \<noteq> m2 \<and> disciplined (insert m2 (insert m1 H)) cs)"
| "disciplined H (TrySecond m1 m2 # cs) = (m1 \<in> H \<and> m2 \<notin> H \<and> disciplined (insert m2 H) cs)"
| "disciplined H (Update x d # cs) = (x \<in> H \<and> disciplined H cs)"
| "disciplined H (StoreBack x v d # cs) = (x \<in> H \<and> disciplined H cs)"

fun pending_store :: "(nat \<Rightarrow> int) \<Rightarrow> lcmd list \<Rightarrow> bool" where
  "pending_store f (StoreBack x v d # cs) = (v = f x + d)"
| "pending_store f _ = True"

text \<open>What a command list adds to a variable.\<close>

fun gain :: "nat \<Rightarrow> lcmd list \<Rightarrow> int" where
  "gain y [] = 0"
| "gain y (Update x d # cs) = (if x = y then d else 0) + gain y cs"
| "gain y (StoreBack x v d # cs) = (if x = y then d else 0) + gain y cs"
| "gain y (c # cs) = gain y cs"

fun no_stores :: "lcmd list \<Rightarrow> bool" where
  "no_stores [] = True"
| "no_stores (StoreBack x v d # cs) = False"
| "no_stores (TryAll got ms # cs) = False"
| "no_stores (TrySecond m1 m2 # cs) = False"
| "no_stores (c # cs) = no_stores cs"

definition holds :: "lk_state \<Rightarrow> nat \<Rightarrow> nat set" where
  "holds s i = {m. lk_owner s m = Some i}"

definition lock_inv :: "(nat \<Rightarrow> int) \<Rightarrow> lcmd list list \<Rightarrow> lk_state \<Rightarrow> lcmd list list \<Rightarrow> bool" where
  "lock_inv v ps s ls \<longleftrightarrow> length ls = length ps \<and> (\<forall>i<length ls. disciplined (holds s i) (ls ! i) \<and> pending_store (lk_data s) (ls ! i))
     \<and> (\<forall>m i. lk_owner s m = Some i \<longrightarrow> i < length ls)
     \<and> (\<forall>y. lk_data s y + sum_list (map (gain y) ls) = v y + sum_list (map (gain y) ps))
     \<and> (\<forall>l\<in>set ls. no_stores (tl l))"

lemma holds_simps [simp]:
  "lk_owner s m = None \<Longrightarrow> holds (take_mutex i m s) j = (if j = i then insert m (holds s i) else holds s j)"
  "holds (s\<lparr>lk_data := f\<rparr>) j = holds s j"
  by (auto simp: holds_def take_mutex_def release_def)

lemma holds_release:
  "set ms \<subseteq> holds s i \<Longrightarrow> holds (release ms s) j = (if j = i then holds s i - set ms else holds s j)"
  by (auto simp: holds_def release_def)

lemma holds_disjoint: "m \<in> holds s i \<Longrightarrow> m \<in> holds s j \<Longrightarrow> i = j"
  by (simp add: holds_def)

lemma owned_frame [simp]:
  "lk_data (take_mutex i m s) = lk_data s" "lk_data (release ms s) = lk_data s"
  by (simp_all add: take_mutex_def release_def)

lemma disciplined_LockAll:
  assumes "disciplined H (TryAll got (m # ms) # cs)"
  shows "disciplined (H - set got) (LockAll (m # ms @ got) # cs)"
proof -
  have "H - set got \<union> set (m # ms @ got) = H \<union> set (m # ms)" using assms by auto
  then show ?thesis using assms by auto
qed

lemma no_stores_tl: "no_stores cs \<Longrightarrow> no_stores (tl cs)" and no_stores_pending: "no_stores cs \<Longrightarrow> pending_store f cs"
  by (cases "cs" rule: no_stores.cases; simp)+

text \<open>What one step does to the thread that takes it, and to the others.\<close>

lemma lock_step_thread:
  assumes e: "(s', l') \<in> set (effects (lock_thread i l) s)" and ok: "disciplined (holds s i) l" "pending_store (lk_data s) l" "no_stores (tl l)"
  shows "disciplined (holds s' i) l' \<and> pending_store (lk_data s') l' \<and> no_stores (tl l') \<and>
    (\<forall>j. j \<noteq> i \<longrightarrow> holds s' j = holds s j) \<and> (\<forall>y. lk_data s' y + gain y l' = lk_data s y + gain y l) \<and>
    (\<forall>y. y \<notin> holds s i \<longrightarrow> lk_data s' y = lk_data s y)"
  using e
proof (cases "(i, l)" rule: lock_thread.cases)
  case (2 i' m cs)
  then show ?thesis using e ok by (cases "lk_owner s m") (auto simp: no_stores_tl no_stores_pending)
next
  case (3 i' m cs)
  then have "holds (release [m] s) j = (if j = i then holds s i - {m} else holds s j)" for j
    using 3 ok holds_release [of "[m]" s i j] by simp
  then show ?thesis using 3 e ok by (auto simp: no_stores_tl no_stores_pending)
next
  case (4 i' cs)
  then show ?thesis using e ok by (auto simp: no_stores_tl no_stores_pending)
next
  case (5 i' m ms cs)
  then show ?thesis using e ok by (cases "lk_owner s m") (auto simp: no_stores_tl no_stores_pending)
next
  case (6 i' got cs)
  then show ?thesis using e ok by (auto simp: no_stores_tl no_stores_pending)
next
  case (7 i' got m ms cs)
  show ?thesis
  proof (cases "lk_owner s m")
    case None
    then show ?thesis using 7 e ok by (auto simp: no_stores_tl no_stores_pending)
  next
    case (Some j)
    have "set got \<subseteq> holds s i" using 7 ok by simp
    note h = holds_release [OF this]
    have "disciplined (holds s i - set got) (LockAll (m # ms @ got) # cs)"
      using 7 ok(1) disciplined_LockAll by blast
    then show ?thesis using 7 e ok Some h by (simp add: no_stores_tl no_stores_pending)
  qed
next
  case (8 i' m1 m2 cs)
  then show ?thesis using e ok by (cases "lk_owner s m1") (auto simp: no_stores_tl no_stores_pending)
next
  case (9 i' m1 m2 cs)
  show ?thesis
  proof (cases "lk_owner s m2")
    case (Some j)
    have d: "m1 \<in> holds s i" "m2 \<notin> holds s i" "disciplined (insert m2 (holds s i)) cs" using 9 ok by auto
    then have "set [m1] \<subseteq> holds s i" by simp
    note h = holds_release [OF this]
    have "insert m2 (insert m1 (holds s i - {m1})) = insert m2 (holds s i)" using d by auto
    then have "disciplined (holds s i - {m1}) (TryBoth m1 m2 # cs)" using d by auto
    then show ?thesis using 9 e ok Some h by (simp add: no_stores_tl no_stores_pending)
  qed (use 9 e ok in \<open>auto simp: no_stores_tl no_stores_pending\<close>)
next
  case (10 i' x d cs)
  then show ?thesis using e ok by (auto simp: no_stores_tl no_stores_pending)
next
  case (11 i' x v d cs)
  then show ?thesis using e ok by (auto simp: no_stores_tl no_stores_pending)
qed simp

lemma lock_inv_step:
  assumes inv: "lock_inv v ps s ls" and i: "i < length ls" and e: "(s', l') \<in> set (effects (lock_thread i (ls ! i)) s)"
  shows "lock_inv v ps s' (ls[i := l'])"
proof -
  have ok: "disciplined (holds s i) (ls ! i)" "pending_store (lk_data s) (ls ! i)" "no_stores (tl (ls ! i))"
    using inv i by (auto simp: lock_inv_def)
  note st = lock_step_thread [OF e ok]
  have "disciplined (holds s' j) (ls[i := l'] ! j) \<and> pending_store (lk_data s') (ls[i := l'] ! j)" if j: "j < length ls" for j
  proof (cases "j = i")
    case False
    have "pending_store (lk_data s') (ls ! j)"
    proof (cases "\<exists>x v d cs. ls ! j = StoreBack x v d # cs")
      case True
      then obtain x v d cs where x: "ls ! j = StoreBack x v d # cs" by blast
      have "disciplined (holds s j) (ls ! j)" and p: "pending_store (lk_data s) (ls ! j)" using inv j by (auto simp: lock_inv_def)
      then have "x \<notin> holds s i" using x False holds_disjoint by auto
      then show ?thesis using st p x by simp
    next
      case other: False
      then show ?thesis by (cases "(lk_data s', ls ! j)" rule: pending_store.cases) auto
    qed
    then show ?thesis using False st inv j by (simp add: lock_inv_def)
  qed (use st i in simp)
  moreover have "lk_data s' y + sum_list (map (gain y) (ls[i := l'])) = v y + sum_list (map (gain y) ps)" for y
  proof -
    obtain T where T: "sum_list (map (gain y) ls) = T + gain y (ls ! i)" "\<And>x. sum_list (map (gain y) (ls[i := x])) = T + gain y x"
      using sum_list_split [OF i] by blast
    have "lk_data s y + sum_list (map (gain y) ls) = v y + sum_list (map (gain y) ps)" using inv by (simp add: lock_inv_def)
    moreover have "lk_data s' y + gain y l' = lk_data s y + gain y (ls ! i)" using st by simp
    ultimately show ?thesis unfolding T by simp
  qed
  moreover have "j < length ls" if "lk_owner s' m = Some j" for m j
  proof (cases "j = i")
    case False
    have "m \<in> holds s' j" using that by (simp add: holds_def)
    then have "m \<in> holds s j" using st False by simp
    then show ?thesis using inv unfolding lock_inv_def holds_def by blast
  qed (use i in simp)
  ultimately show ?thesis using inv st i by (simp add: lock_inv_def all_set_upd)
qed

text \<open>A list of thread functions that start and end with nothing held.\<close>

definition lock_program :: "lcmd list list \<Rightarrow> bool" where
  "lock_program ps \<longleftrightarrow> (\<forall>p\<in>set ps. disciplined {} p \<and> no_stores p)"

lemma lock_inv_init: "lock_program ps \<Longrightarrow> lock_inv v ps \<lparr>lk_owner = (\<lambda>_. None), lk_data = v\<rparr> ps"
  by (auto simp: lock_inv_def lock_program_def holds_def no_stores_tl no_stores_pending)

lemma lock_client: "lock_program ps \<Longrightarrow> monitor_invariant lock_thread \<lparr>lk_owner = (\<lambda>_. None), lk_data = v\<rparr> ps (lock_inv v ps)"
  by unfold_locales (auto intro: lock_inv_init lock_inv_step)

lemma lock_reach:
  "lock_program ps \<Longrightarrow> reach (step lock_thread) (lock_start v ps) c \<Longrightarrow> lock_inv v ps (shared c) (locs c)"
  using monitor_invariant.I_reach [OF lock_client] by (simp add: lock_start_def)

subsection \<open>No deadlock\<close>

lemma disciplined_finite: "disciplined H cs \<Longrightarrow> finite H"
  by (induction H cs rule: disciplined.induct) auto

text \<open>A thread that cannot move waits for a mutex that is larger than all it holds.\<close>

lemma lock_blocked:
  assumes "lock_thread i l = Act f" "f s = []" "disciplined (holds s i) l"
  obtains m j where "lk_owner s m = Some j" "\<forall>h\<in>holds s i. h < m"
  using assms by (cases "(i, l)" rule: lock_thread.cases) (auto split: option.splits)

lemma lock_stuck_fin:
  assumes p: "lock_program ps" and r: "reach (step lock_thread) (lock_start v ps) c" "stuck lock_thread c"
  shows "all_fin lock_thread c"
proof -
  note ok = reach_ok [OF r(1) [unfolded lock_start_def]] and inv = lock_reach [OF p r(1)]
  let ?s = "shared c"
  have cases: "(thr c ! i = At [] \<and> holds ?s i = {}) \<or> (\<exists>m j. lk_owner ?s m = Some j \<and> (\<forall>h\<in>holds ?s i. h < m))"
    if i: "i < length (thr c)" for i
  proof -
    have d: "disciplined (holds ?s i) (loc (thr c ! i))" using inv i by (simp add: lock_inv_def)
    from r(2) i ok(1,2) show ?thesis
    proof (cases rule: stuck_cases)
      case (fin l)
      then show ?thesis using d by (cases "(i, l)" rule: lock_thread.cases) auto
    next
      case (blocked l f)
      then show ?thesis using d lock_blocked [of i l f ?s] by auto
    next
      case (asleep l m u q b)
      then show ?thesis by (cases "(i, l)" rule: lock_thread.cases) auto
    qed
  qed
  define W where "W = {m. \<exists>j. lk_owner ?s m = Some j}"
  have W: "W = (\<Union>i<length (thr c). holds ?s i)" using inv by (auto simp: W_def holds_def lock_inv_def)
  have bigger: "\<exists>m'\<in>W. m < m'" if "m \<in> W" for m
  proof -
    from that obtain j where j: "lk_owner ?s m = Some j" by (auto simp: W_def)
    then have "j < length (thr c)" "m \<in> holds ?s j" using inv by (auto simp: lock_inv_def holds_def)
    with cases [of j] show ?thesis by (auto simp: W_def)
  qed
  have "W = {}"
  proof (rule ccontr)
    assume "W \<noteq> {}"
    moreover have "finite W" unfolding W
      using inv disciplined_finite by (auto simp: lock_inv_def)
    ultimately have "Max W \<in> W" by simp
    from bigger [OF this] show False using \<open>finite W\<close> Max_ge leD by blast
  qed
  then have "thr c ! i = At []" if "i < length (thr c)" for i
    using cases [OF that] by (auto simp: W_def)
  then show ?thesis by (simp add: all_fin_def)
qed

text \<open>In the end every variable has received every update.\<close>

lemma lock_fin_value:
  assumes p: "lock_program ps" and r: "reach (step lock_thread) (lock_start v ps) c" "all_fin lock_thread c"
  shows "lk_data (shared c) y = v y + sum_list (map (gain y) ps)"
proof -
  note inv = lock_reach [OF p r(1)]
  have "gain y l = 0" if l: "l \<in> set (locs c)" for l
  proof -
    from l obtain i where i: "i < length (thr c)" "l = loc (thr c ! i)" by (auto simp: in_set_conv_nth)
    then have "lock_thread i l = Fin" using r(2) by (auto simp: all_fin_def)
    then show ?thesis by (cases "(i, l)" rule: lock_thread.cases) auto
  qed
  then have "sum_list (map (gain y) (locs c)) = 0" by (rule sum_list_map_zero)
  moreover have "lk_data (shared c) y + sum_list (map (gain y) (locs c)) = v y + sum_list (map (gain y) ps)"
    using inv by (simp add: lock_inv_def)
  ultimately show ?thesis by simp
qed

subsection \<open>The programs\<close>

text \<open>\<open>bad_a\<close> and \<open>bad_b\<close> of \<open>05_deadlock_demo.c\<close>; mutex \<open>m1\<close> is 1, \<open>m2\<close> is 2.\<close>

definition bad_a :: "lcmd list" where
  "bad_a = [Lock 1, Lock 2, Unlock 2, Unlock 1]"

definition bad_b :: "lcmd list" where
  "bad_b = [Lock 2, Lock 1, Unlock 1, Unlock 2]"

definition deadlock_run :: "lcmd list list" where
  "deadlock_run = [bad_a, bad_b]"

definition lock_ordered :: "nat \<Rightarrow> nat \<Rightarrow> lcmd list" where
  "lock_ordered x y = (if x < y then [Lock x, Lock y] else [Lock y, Lock x])"

definition unlock_two :: "nat \<Rightarrow> nat \<Rightarrow> lcmd list" where
  "unlock_two x y = [Unlock x, Unlock y]"

definition good_a :: "nat \<Rightarrow> nat \<Rightarrow> lcmd list" where
  "good_a m1 m2 = lock_ordered m1 m2 @ unlock_two m1 m2"

definition good_b :: "nat \<Rightarrow> nat \<Rightarrow> lcmd list" where
  "good_b m1 m2 = lock_ordered m2 m1 @ unlock_two m1 m2"

definition deadlock_demo_main :: "nat \<Rightarrow> nat \<Rightarrow> lcmd list list" where
  "deadlock_demo_main m1 m2 = [good_a m1 m2, good_b m1 m2]"

text \<open>\<open>02_deadlock.cpp\<close>: the same deadlock and the three cures; the guards unlock in reverse order.\<close>

definition deadlock_demo :: "lcmd list list" where
  "deadlock_demo = [[Lock 1, Lock 2, Unlock 2, Unlock 1], [Lock 2, Lock 1, Unlock 1, Unlock 2]]"

definition take_both :: "nat \<Rightarrow> nat \<Rightarrow> lcmd list" where
  "take_both x y = (if x < y then [Lock x, Lock y] else [Lock y, Lock x]) @ [Unlock x, Unlock y]"

definition cure_global_order :: "nat \<Rightarrow> nat \<Rightarrow> lcmd list list" where
  "cure_global_order m1 m2 = [take_both m1 m2, take_both m2 m1]"

definition cure_scoped_lock :: "nat \<Rightarrow> nat \<Rightarrow> lcmd list list" where
  "cure_scoped_lock m1 m2 = replicate 2 [LockAll [m1, m2], Unlock m2, Unlock m1]"

definition take_with_backoff :: "nat \<Rightarrow> nat \<Rightarrow> lcmd list" where
  "take_with_backoff m1 m2 = [TryBoth m1 m2, Unlock m2, Unlock m1]"

definition cure_try_lock :: "nat \<Rightarrow> nat \<Rightarrow> lcmd list list" where
  "cure_try_lock m1 m2 = [take_with_backoff m1 m2, take_with_backoff m1 m2]"

text \<open>
  \<open>03_unique_lock.cpp\<close>: two threads run \<open>atomic_dual\<close>, deferred locks that \<open>std::lock\<close> takes together; when they have been
  joined \<open>main\<close> runs \<open>release_then_relock\<close>, alone.
\<close>

definition atomic_dual :: "nat \<Rightarrow> nat \<Rightarrow> lcmd list" where
  "atomic_dual m1 m2 = [LockAll [m1, m2], Unlock m2, Unlock m1]"

definition release_then_relock :: "nat \<Rightarrow> lcmd list" where
  "release_then_relock m1 = [Lock m1, Unlock m1, Lock m1, Unlock m1]"

definition unique_lock_phases :: "nat \<Rightarrow> nat \<Rightarrow> lcmd list list list" where
  "unique_lock_phases m1 m2 = [[atomic_dual m1 m2, atomic_dual m1 m2], [release_then_relock m1]]"

text \<open>\<open>04_scoped_lock.cpp\<close>: balance \<open>x\<close> is guarded by mutex \<open>x\<close> of the same account.\<close>

definition transfer :: "nat \<Rightarrow> nat \<Rightarrow> int \<Rightarrow> lcmd list" where
  "transfer from to amount = [LockAll [from, to], Update from (- amount), Update to amount, Unlock to, Unlock from]"

definition scoped_lock_main :: "nat \<Rightarrow> lcmd list list" where
  "scoped_lock_main n = concat (replicate n [transfer 0 1 1, transfer 1 0 1])"






lemma lock_program_deadlock_main: "m1 \<noteq> m2 \<Longrightarrow> lock_program (deadlock_demo_main m1 m2)"
  by (auto simp: lock_program_def deadlock_demo_main_def good_a_def good_b_def lock_ordered_def unlock_two_def)

lemma lock_program_cures: "m1 \<noteq> m2 \<Longrightarrow> lock_program (cure_global_order m1 m2)" "m1 \<noteq> m2 \<Longrightarrow> lock_program (cure_scoped_lock m1 m2)"
  "m1 \<noteq> m2 \<Longrightarrow> lock_program (cure_try_lock m1 m2)"
  by (auto simp: lock_program_def cure_global_order_def cure_scoped_lock_def take_both_def cure_try_lock_def take_with_backoff_def
    numeral_2_eq_2)

lemma lock_program_unique: "m1 \<noteq> m2 \<Longrightarrow> ps \<in> set (unique_lock_phases m1 m2) \<Longrightarrow> lock_program ps"
  by (auto simp: lock_program_def unique_lock_phases_def atomic_dual_def release_then_relock_def)

text \<open>Programs that only use \<open>Lock\<close>, \<open>Unlock\<close> and updates also end under every schedule.\<close>

fun lock_size :: "lcmd list \<Rightarrow> nat" where
  "lock_size [] = 0"
| "lock_size (Update x d # cs) = 2 + lock_size cs"
| "lock_size (c # cs) = 1 + lock_size cs"

fun plain :: "lcmd list \<Rightarrow> bool" where
  "plain [] = True"
| "plain (LockAll ms # cs) = False"
| "plain (TryAll got ms # cs) = False"
| "plain (TryBoth m1 m2 # cs) = False"
| "plain (TrySecond m1 m2 # cs) = False"
| "plain (c # cs) = plain cs"

lemma plain_step: "(s', l') \<in> set (effects (lock_thread i l) s) \<Longrightarrow> plain l \<Longrightarrow> plain l' \<and> lock_size l' < lock_size l"
  by (cases "(i, l)" rule: lock_thread.cases) (auto split: option.splits)

lemma plain_terminating:
  assumes "\<forall>p\<in>set ps. plain p"
  shows "terminating lock_thread \<lparr>lk_owner = (\<lambda>_. None), lk_data = v\<rparr> ps (\<lambda>s ls. \<forall>l\<in>set ls. plain l) (\<lambda>s ls. sum_list (map lock_size ls)) 0"
proof unfold_locales
  fix s ls i s' l' assume a: "\<forall>l\<in>set ls. plain l" "i < length ls" "(s', l') \<in> set (effects (lock_thread i (ls ! i)) s)"
  note st = plain_step [OF a(3)]
  show "\<forall>l\<in>set (ls[i := l']). plain l" using a st by (auto dest: set_updD)
  obtain T where "sum_list (map lock_size ls) = T + lock_size (ls ! i)" "\<And>x. sum_list (map lock_size (ls[i := x])) = T + lock_size x"
    using sum_list_split [OF a(2)] by blast
  then show "sum_list (map lock_size (ls[i := l'])) < sum_list (map lock_size ls)" using a st by simp
next
  fix s ls i m w b s' l' pre post assume "lock_thread i (ls ! i) = Monitor m w b"
  then show "length pre + length post \<le> 0" by (cases "(i, ls ! i)" rule: lock_thread.cases) auto
qed (use assms in auto)

lemma plain_bounded:
  assumes "\<forall>p\<in>set ps. plain p" "run (step lock_thread) (lock_start v ps) es = Some c"
  shows "length es \<le> 4 * sum_list (map lock_size ps) + 2 * length ps + 3 * spurs es"
  using terminating.run_bounded [OF plain_terminating [OF assms(1)] assms(2) [unfolded lock_start_def]]
    terminating.fee_def [OF plain_terminating [OF assms(1)]]
  by (simp add: lock_start_def)

lemma lock_program_transfer: "lock_program (scoped_lock_main n)"
  by (auto simp: lock_program_def scoped_lock_main_def transfer_def)



lemma no_stores_append [simp]: "no_stores (as @ bs) \<longleftrightarrow> no_stores as \<and> no_stores bs"
  by (induction "as" rule: no_stores.induct) auto



lemma gain_append [simp]: "gain y (as @ bs) = gain y as + gain y bs"
  by (induction y "as" rule: gain.induct) auto


lemma gain_transfers: "sum_list (map (gain 0) (scoped_lock_main n)) = 0" "sum_list (map (gain 1) (scoped_lock_main n)) = 0"
  by (induction n) (auto simp: scoped_lock_main_def transfer_def)

subsection \<open>Properties\<close>

text \<open>the buggy program deadlocks: a state is reachable in which neither thread can move and neither has returned;
  each holds the mutex the other wants.\<close>

theorem deadlock_run_deadlocks:
  "\<exists>c. reach (step lock_thread) (lock_start v deadlock_run) c \<and> stuck lock_thread c \<and> \<not> all_fin lock_thread c
    \<and> lk_owner (shared c) 1 = Some 0 \<and> lk_owner (shared c) 2 = Some 1"
proof -
  define c where "c = start \<lparr>lk_owner = (\<lambda>_. None)(1 := Some 0, 2 := Some 1), lk_data = v\<rparr> [[Lock 2, Unlock 2, Unlock 1], [Lock 1, Unlock 1, Unlock 2]]"
  have "run (step lock_thread) (lock_start v deadlock_run) [(0, Norm 0), (1, Norm 0)] = Some c"
    by (simp add: c_def lock_start_def deadlock_run_def bad_a_def bad_b_def start_def step_def step_at_def set_thr_def take_mutex_def)
  then have "reach (step lock_thread) (lock_start v deadlock_run) c" by (rule run_reach)
  moreover have "stuck lock_thread c"
    unfolding stuck_def by (auto simp: c_def start_def step_def step_at_def less_Suc_eq)
  moreover have "\<not> all_fin lock_thread c" by (auto simp: all_fin_def c_def start_def)
  moreover have "lk_owner (shared c) 1 = Some 0" "lk_owner (shared c) 2 = Some 1" by (simp_all add: c_def start_def)
  ultimately show ?thesis by blast
qed

text \<open>C5: the cures cannot deadlock: taking the two mutexes in address order (in C and in C++), with
  \<open>std::scoped_lock\<close>, with deferred locks and \<open>std::lock\<close>, or with \<open>try_lock\<close> and back-off, whatever the addresses are, the threads get stuck only when all have returned.\<close>

theorem lock_order_no_deadlock:
  assumes "m1 \<noteq> m2" "ps \<in> {deadlock_demo_main m1 m2, cure_global_order m1 m2, cure_scoped_lock m1 m2, cure_try_lock m1 m2} \<union> set (unique_lock_phases m1 m2)"
    and "reach (step lock_thread) (lock_start v ps) c" "stuck lock_thread c"
  shows "all_fin lock_thread c"
proof -
  have "lock_program ps"
    using assms(2) lock_program_deadlock_main [OF assms(1)] lock_program_cures [OF assms(1)] lock_program_unique [OF assms(1)] by auto
  then show ?thesis by (rule lock_stuck_fin [OF _ assms(3,4)])
qed

definition cure_demo :: "(nat \<times> choice) list \<times> (lk_state, lcmd list) cfg" where
  "cure_demo = drive lock_thread [0, 1] 30 (lock_start (\<lambda>_. 0) (cure_global_order 7 3))"

lemma cure_demo_fin: "all_finb lock_thread (snd cure_demo)"
  by code_simp

theorem lock_order_no_deadlock_witness: "all_fin lock_thread (snd cure_demo)"
proof -
  have r: "reach (step lock_thread) (lock_start (\<lambda>_. 0) (cure_global_order 7 3)) (snd cure_demo)"
    unfolding cure_demo_def by (rule drive_reach)
  have "stuck lock_thread (snd cure_demo)" using cure_demo_fin by (auto simp: all_finb intro: all_fin_stuck)
  then show ?thesis using lock_order_no_deadlock [OF _ _ r, of 7 3] by simp
qed

text \<open>with address order the threads also finish under every schedule, after a bounded number of steps (the other two
  cures retry, so that only a fair schedule ends them).\<close>

theorem lock_order_terminates:
  assumes "ps \<in> {deadlock_demo_main m1 m2, cure_global_order m1 m2}" "run (step lock_thread) (lock_start v ps) es = Some c"
  shows "length es \<le> 36 + 3 * spurs es"
proof -
  have "\<forall>p\<in>set ps. plain p" "sum_list (map lock_size ps) = 8" "length ps = 2" using assms(1)
    by (auto simp: deadlock_demo_main_def good_a_def good_b_def lock_ordered_def unlock_two_def cure_global_order_def take_both_def)
  with plain_bounded [OF _ assms(2)] show ?thesis by simp
qed

theorem lock_order_terminates_witness: "length (fst cure_demo) \<le> 36 + 3 * spurs (fst cure_demo)"
  by (rule lock_order_terminates [of "cure_global_order 7 3" 7 3 "\<lambda>_. 0" _ "snd cure_demo"]) (auto simp: cure_demo_def intro: drive_run)





text \<open>money transfers under \<open>std::scoped_lock\<close> do not deadlock and lose no money: after \<open>n\<close> transfers each way both
  balances are what they were, although each update of a balance is a separate load and store.\<close>

theorem transfers_conserve:
  assumes "reach (step lock_thread) (lock_start v (scoped_lock_main n)) c" "stuck lock_thread c"
  shows "all_fin lock_thread c \<and> lk_data (shared c) 0 = v 0 \<and> lk_data (shared c) 1 = v 1"
  using lock_stuck_fin [OF lock_program_transfer assms] lock_fin_value [OF lock_program_transfer assms(1)] gain_transfers by simp

definition transfer_demo :: "(nat \<times> choice) list \<times> (lk_state, lcmd list) cfg" where
  "transfer_demo = drive lock_thread [0, 3, 1, 2] 200 (lock_start (\<lambda>_. 100) (scoped_lock_main 2))"

lemma transfer_demo_fin: "all_finb lock_thread (snd transfer_demo)"
  by code_simp

theorem transfers_conserve_witness: "lk_data (shared (snd transfer_demo)) 0 = 100"
proof -
  have r: "reach (step lock_thread) (lock_start (\<lambda>_. 100) (scoped_lock_main 2)) (snd transfer_demo)"
    unfolding transfer_demo_def by (rule drive_reach)
  have "stuck lock_thread (snd transfer_demo)" using transfer_demo_fin by (auto simp: all_finb intro: all_fin_stuck)
  then show ?thesis using transfers_conserve [OF r] by simp
qed

end
