(* ===== verification/MemoryModel.thy ===== *)
theory MemoryModel
  imports Threads
begin

text \<open>
  The C++ memory model, operationally: every location keeps the messages written to it, every
  thread a view of how much of each location it must have seen. A release store attaches the
  writer's view to its message and an acquire load takes it over; fences do the same for
  relaxed accesses; \<open>seq_cst\<close> accesses also respect a global view of what earlier ones did. The programs of
  \<open>examples/05_memory_model\<close> and \<open>examples/02_cpp11_threads/04_atomics/03_memory_orders.cpp\<close> are lists of
  instructions for this machine.
\<close>

subsection \<open>Views and messages\<close>

type_synonym view = "nat \<Rightarrow> nat"

definition join :: "view \<Rightarrow> view \<Rightarrow> view" where
  "join V W = (\<lambda>x. max (V x) (W x))"

lemma join_apply [simp]: "join V W x = max (V x) (W x)"
  by (simp add: join_def)

text \<open>
  \<open>cur\<close> is what the thread has seen; \<open>acq\<close> what an acquire fence would add (from its relaxed loads);
  \<open>rel\<close> what it had seen at its last release fence.
\<close>

record tview =
  cur :: view
  acq :: view
  rel :: view

record mm_state =
  mem :: "nat \<Rightarrow> (int \<times> view) list"
  tv :: "nat \<Rightarrow> tview"
  sc :: view
  regs :: "nat \<Rightarrow> int"
  race :: bool

datatype order = Relaxed | Consume | Acquire | Release | SeqCst

text \<open>
  \<open>Spin x o\<close> is \<open>while (!x.load(o));\<close>. \<open>Put\<close> and \<open>Fetch\<close> access a plain variable; doing so without
  having seen its last write is a data race, which the state records.
\<close>

datatype instr =
    Store nat order int
  | Load nat nat order
  | Spin nat order
  | FenceAcquire
  | FenceRelease
  | Put nat int
  | Fetch nat nat

definition acquires :: "order \<Rightarrow> bool" where
  "acquires o' \<longleftrightarrow> o' \<in> {Consume, Acquire, SeqCst}"

definition releases :: "order \<Rightarrow> bool" where
  "releases o' \<longleftrightarrow> o' \<in> {Release, SeqCst}"

subsection \<open>Steps\<close>

definition last_index :: "mm_state \<Rightarrow> nat \<Rightarrow> nat" where
  "last_index s x = length (mem s x) - 1"

text \<open>
  The \<open>seq_cst\<close> accesses of a location are totally ordered with those of all others: such an access
  may not read a message older than the one an earlier \<open>seq_cst\<close> access of the location wrote or read.
\<close>

definition sc_enter :: "nat \<Rightarrow> nat \<Rightarrow> order \<Rightarrow> mm_state \<Rightarrow> mm_state" where
  "sc_enter i x ord s = (if ord = SeqCst then s\<lparr>tv := (tv s)(i := (tv s i)\<lparr>cur := (cur (tv s i))(x := max (cur (tv s i) x) (sc s x))\<rparr>)\<rparr> else s)"

definition sc_leave :: "nat \<Rightarrow> nat \<Rightarrow> order \<Rightarrow> mm_state \<Rightarrow> mm_state" where
  "sc_leave i x ord s = (if ord = SeqCst then s\<lparr>sc := (sc s)(x := max (sc s x) (cur (tv s i) x))\<rparr> else s)"

definition write_msg :: "nat \<Rightarrow> nat \<Rightarrow> order \<Rightarrow> int \<Rightarrow> mm_state \<Rightarrow> mm_state" where
  "write_msg i x ord v s = (let t = length (mem s x); T = tv s i; c = (cur T)(x := t)
     in s\<lparr>mem := (mem s)(x := mem s x @ [(v, if releases ord then c else (rel T)(x := t))]), tv := (tv s)(i := T\<lparr>cur := c\<rparr>)\<rparr>)"

text \<open>Reading message \<open>t\<close> of location \<open>x\<close>.\<close>

definition read_msg :: "nat \<Rightarrow> nat \<Rightarrow> order \<Rightarrow> nat \<Rightarrow> mm_state \<Rightarrow> mm_state" where
  "read_msg i x ord t s = (let V = snd (mem s x ! t); T = tv s i; c = (cur T)(x := t)
     in s\<lparr>tv := (tv s)(i := if acquires ord then T\<lparr>cur := join c V\<rparr> else T\<lparr>cur := c, acq := join (acq T) V\<rparr>)\<rparr>)"

text \<open>The messages a thread may read: none older than what it has seen.\<close>

definition readable :: "nat \<Rightarrow> nat \<Rightarrow> mm_state \<Rightarrow> nat list" where
  "readable i x s = [cur (tv s i) x ..< length (mem s x)]"

fun exec_instr :: "nat \<Rightarrow> instr \<Rightarrow> instr list \<Rightarrow> mm_state \<Rightarrow> (mm_state \<times> instr list) list" where
  "exec_instr i (Store x ord v) rest s = [(sc_leave i x ord (write_msg i x ord v (sc_enter i x ord s)), rest)]"
| "exec_instr i (Load r x ord) rest s = (let s1 = sc_enter i x ord s in
     map (\<lambda>t. ((sc_leave i x ord (read_msg i x ord t s1))\<lparr>regs := (regs s)(r := fst (mem s x ! t))\<rparr>, rest)) (readable i x s1))"
| "exec_instr i (Spin x ord) rest s = (let s1 = sc_enter i x ord s in
     map (\<lambda>t. (sc_leave i x ord (read_msg i x ord t s1), if fst (mem s x ! t) = 0 then Spin x ord # rest else rest)) (readable i x s1))"
| "exec_instr i FenceAcquire rest s = [(s\<lparr>tv := (tv s)(i := (tv s i)\<lparr>cur := join (cur (tv s i)) (acq (tv s i))\<rparr>)\<rparr>, rest)]"
| "exec_instr i FenceRelease rest s = [(s\<lparr>tv := (tv s)(i := (tv s i)\<lparr>rel := cur (tv s i)\<rparr>)\<rparr>, rest)]"
| "exec_instr i (Put x v) rest s = [((write_msg i x Relaxed v s)\<lparr>race := race s \<or> cur (tv s i) x \<noteq> last_index s x\<rparr>, rest)]"
| "exec_instr i (Fetch r x) rest s = map (\<lambda>t. ((read_msg i x Relaxed t s)\<lparr>regs := (regs s)(r := fst (mem s x ! t)),
       race := race s \<or> cur (tv s i) x \<noteq> last_index s x\<rparr>, rest)) (readable i x s)"

fun mm_thread :: "nat \<Rightarrow> instr list \<Rightarrow> (mm_state, instr list) stmt" where
  "mm_thread i [] = Fin"
| "mm_thread i (c # cs) = Act (exec_instr i c cs)"

definition mm_init :: mm_state where
  "mm_init = \<lparr>mem = (\<lambda>x. [(0, \<lambda>_. 0)]), tv = (\<lambda>i. \<lparr>cur = (\<lambda>_. 0), acq = (\<lambda>_. 0), rel = (\<lambda>_. 0)\<rparr>),
     sc = (\<lambda>_. 0), regs = (\<lambda>_. -1), race = False\<rparr>"

definition mm_start :: "instr list list \<Rightarrow> (mm_state, instr list) cfg" where
  "mm_start ps = start mm_init ps"

subsection \<open>The programs\<close>

text \<open>
  \<open>02_acquire_release.cpp\<close> and \<open>03_memory_orders.cpp\<close>: location 0 is \<open>data\<close>, 1 the flag; register 0
  is what the consumer asserts about.
\<close>

definition ar_producer :: "int \<Rightarrow> instr list" where
  "ar_producer d = [Put 0 d, Store 1 Release 1]"

definition ar_consumer :: "instr list" where
  "ar_consumer = [Spin 1 Acquire, Fetch 0 0]"

definition ar_main :: "int \<Rightarrow> instr list list" where
  "ar_main d = [ar_consumer, ar_producer d]"

definition mo_producer :: "instr list" where
  "mo_producer = [Put 0 42, Store 1 Release 1]"

definition mo_consumer :: "instr list" where
  "mo_consumer = [Spin 1 Acquire, Fetch 0 0]"

definition mo_main :: "instr list list" where
  "mo_main = [mo_consumer, mo_producer]"

lemma mo_main_ar: "mo_main = ar_main 42"
  by (simp add: mo_main_def ar_main_def mo_consumer_def ar_consumer_def mo_producer_def ar_producer_def)

text \<open>\<open>05_fences.cpp\<close>.\<close>

definition fence_producer :: "int \<Rightarrow> instr list" where
  "fence_producer d = [Put 0 d, FenceRelease, Store 1 Relaxed 1]"

definition fence_consumer :: "instr list" where
  "fence_consumer = [Spin 1 Relaxed, FenceAcquire, Fetch 0 0]"

definition fence_main :: "int \<Rightarrow> instr list list" where
  "fence_main d = [fence_consumer, fence_producer d]"

text \<open>\<open>04_release_consume.cpp\<close>: locations 0 and 2 are the fields \<open>a\<close> and \<open>b\<close> of the new \<open>Cfg\<close>, 1 the pointer.\<close>

definition consume_writer :: "int \<Rightarrow> int \<Rightarrow> instr list" where
  "consume_writer a b = [Put 0 a, Put 2 b, Store 1 Release 1]"

definition consume_reader :: "instr list" where
  "consume_reader = [Spin 1 Consume, Fetch 0 0, Fetch 2 2]"

definition consume_main :: "int \<Rightarrow> int \<Rightarrow> instr list list" where
  "consume_main a b = [consume_writer a b, consume_reader]"

text \<open>\<open>01_seq_cst.cpp\<close> and \<open>06_store_load_reorder.cpp\<close>: locations 0 and 1 are \<open>x\<close> and \<open>y\<close>.\<close>

definition sc_thread1 :: "instr list" where
  "sc_thread1 = [Store 0 SeqCst 1, Load 1 1 SeqCst]"

definition sc_thread2 :: "instr list" where
  "sc_thread2 = [Store 1 SeqCst 1, Load 0 0 SeqCst]"

definition store_load :: "order \<Rightarrow> order \<Rightarrow> instr list list" where
  "store_load st ld = [[Store 0 st 1, Load 1 1 ld], [Store 1 st 1, Load 0 0 ld]]"

definition run_once :: "order \<Rightarrow> instr list list" where
  "run_once mo = store_load mo mo"

text \<open>What \<open>run_once\<close> returns after it has joined the threads.\<close>

definition both_zero :: "mm_state \<Rightarrow> int" where
  "both_zero s = (if regs s 1 = 0 \<and> regs s 0 = 0 then 1 else 0)"

text \<open>The loops of the two \<open>main\<close>s: every round starts with both locations at 0 and adds 1 when both threads have read 0.\<close>

inductive rounds :: "instr list list \<Rightarrow> nat \<Rightarrow> int \<Rightarrow> bool" for ps where
  start: "rounds ps 0 0"
| again: "rounds ps n k \<Longrightarrow> reach (step mm_thread) (mm_start ps) c \<Longrightarrow> locs c = [[], []] \<Longrightarrow>
    rounds ps (Suc n) (k + both_zero (shared c))"

definition reorder_main :: "nat \<Rightarrow> int \<Rightarrow> int \<Rightarrow> bool" where
  "reorder_main n relaxed_zeros seqcst_zeros \<longleftrightarrow> rounds (run_once Relaxed) n relaxed_zeros \<and> rounds (run_once SeqCst) n seqcst_zeros"

definition seq_cst_main :: "nat \<Rightarrow> int \<Rightarrow> bool" where
  "seq_cst_main n violations \<longleftrightarrow> rounds [sc_thread1, sc_thread2] n violations"

lemma run_once_seq_cst: "run_once SeqCst = [sc_thread1, sc_thread2]"
  by (simp add: run_once_def store_load_def sc_thread1_def sc_thread2_def)




subsection \<open>Message passing\<close>

lemmas mm_defs = sc_enter_def sc_leave_def write_msg_def read_msg_def readable_def last_index_def acquires_def releases_def Let_def

abbreviation msg0 :: "int \<times> view" where
  "msg0 \<equiv> (0, \<lambda>_. 0)"

definition ar_producer_ok :: "int \<Rightarrow> mm_state \<Rightarrow> instr list \<Rightarrow> bool" where
  "ar_producer_ok d s pl \<longleftrightarrow> (pl = ar_producer d \<and> mem s 0 = [msg0] \<and> mem s 1 = [msg0] \<and> cur (tv s 1) 0 = 0)
     \<or> (pl = tl (ar_producer d) \<and> (\<exists>V. mem s 0 = [msg0, (d, V)]) \<and> mem s 1 = [msg0] \<and> cur (tv s 1) 0 = 1)
     \<or> (pl = [] \<and> (\<exists>V. mem s 0 = [msg0, (d, V)]) \<and> (\<exists>V. mem s 1 = [msg0, (1, V)] \<and> V 0 = 1))"

definition ar_consumer_ok :: "int \<Rightarrow> mm_state \<Rightarrow> instr list \<Rightarrow> instr list \<Rightarrow> bool" where
  "ar_consumer_ok d s cl pl \<longleftrightarrow> (cl = ar_consumer \<and> cur (tv s 0) 0 = 0) \<or> (cl = tl ar_consumer \<and> pl = [] \<and> cur (tv s 0) 0 = 1)
     \<or> (cl = [] \<and> pl = [] \<and> regs s 0 = d)"

definition ar_inv :: "int \<Rightarrow> mm_state \<Rightarrow> instr list list \<Rightarrow> bool" where
  "ar_inv d s ls \<longleftrightarrow> (\<exists>cl pl. ls = [cl, pl] \<and> \<not> race s \<and> ar_producer_ok d s pl \<and> ar_consumer_ok d s cl pl)"

lemma upt_01: "x \<in> {0..<Suc (Suc 0)} \<longleftrightarrow> x = 0 \<or> x = 1"
  by auto

interpretation ar: monitor_invariant mm_thread mm_init "ar_main d" "ar_inv d" for d
proof
  show "ar_inv d mm_init (ar_main d)"
    by (simp add: ar_inv_def ar_producer_ok_def ar_consumer_ok_def mm_init_def ar_main_def)
next
  fix s ls i s' l' assume inv: "ar_inv d s ls" and i: "i < length ls" and e: "(s', l') \<in> set (effects (mm_thread i (ls ! i)) s)"
  then obtain cl pl where ls: "ls = [cl, pl]" and ok: "\<not> race s" "ar_producer_ok d s pl" "ar_consumer_ok d s cl pl" by (auto simp: ar_inv_def)
  then have "i = 0 \<or> i = 1" using i by auto
  then show "ar_inv d s' (ls[i := l'])"
  proof
    assume i: "i = 1"
    have "\<not> race s' \<and> ar_producer_ok d s' l' \<and> ar_consumer_ok d s' cl l'"
      using ok e unfolding ar_producer_ok_def ar_consumer_ok_def
      by (elim disjE; auto simp: i ls ar_producer_def ar_consumer_def mm_defs)
    then show ?thesis by (simp add: ar_inv_def ls i)
  next
    assume i: "i = 0"
    have "\<not> race s' \<and> ar_producer_ok d s' pl \<and> ar_consumer_ok d s' l' pl"
      using ok e unfolding ar_producer_ok_def ar_consumer_ok_def
      by (elim disjE; auto simp: i ls ar_producer_def ar_consumer_def mm_defs nth_Cons split: nat.splits)
    then show ?thesis by (simp add: ar_inv_def ls i)
  qed
qed

subsection \<open>Fences\<close>

definition fence_producer_ok :: "int \<Rightarrow> mm_state \<Rightarrow> instr list \<Rightarrow> bool" where
  "fence_producer_ok d s pl \<longleftrightarrow> (pl = fence_producer d \<and> mem s 0 = [msg0] \<and> mem s 1 = [msg0] \<and> cur (tv s 1) 0 = 0)
     \<or> (pl = tl (fence_producer d) \<and> (\<exists>V. mem s 0 = [msg0, (d, V)]) \<and> mem s 1 = [msg0] \<and> cur (tv s 1) 0 = 1)
     \<or> (pl = tl (tl (fence_producer d)) \<and> (\<exists>V. mem s 0 = [msg0, (d, V)]) \<and> mem s 1 = [msg0] \<and> rel (tv s 1) 0 = 1)
     \<or> (pl = [] \<and> (\<exists>V. mem s 0 = [msg0, (d, V)]) \<and> (\<exists>V. mem s 1 = [msg0, (1, V)] \<and> V 0 = 1))"

definition fence_consumer_ok :: "int \<Rightarrow> mm_state \<Rightarrow> instr list \<Rightarrow> instr list \<Rightarrow> bool" where
  "fence_consumer_ok d s cl pl \<longleftrightarrow> (cl = fence_consumer \<and> cur (tv s 0) 0 = 0 \<and> acq (tv s 0) 0 = 0)
     \<or> (cl = tl fence_consumer \<and> pl = [] \<and> cur (tv s 0) 0 = 0 \<and> acq (tv s 0) 0 = 1)
     \<or> (cl = tl (tl fence_consumer) \<and> pl = [] \<and> cur (tv s 0) 0 = 1) \<or> (cl = [] \<and> pl = [] \<and> regs s 0 = d)"

definition fence_inv :: "int \<Rightarrow> mm_state \<Rightarrow> instr list list \<Rightarrow> bool" where
  "fence_inv d s ls \<longleftrightarrow> (\<exists>cl pl. ls = [cl, pl] \<and> \<not> race s \<and> fence_producer_ok d s pl \<and> fence_consumer_ok d s cl pl)"

interpretation fence: monitor_invariant mm_thread mm_init "fence_main d" "fence_inv d" for d
proof
  show "fence_inv d mm_init (fence_main d)"
    by (simp add: fence_inv_def fence_producer_ok_def fence_consumer_ok_def mm_init_def fence_main_def)
next
  fix s ls i s' l' assume inv: "fence_inv d s ls" and i: "i < length ls" and e: "(s', l') \<in> set (effects (mm_thread i (ls ! i)) s)"
  then obtain cl pl where ls: "ls = [cl, pl]" and ok: "\<not> race s" "fence_producer_ok d s pl" "fence_consumer_ok d s cl pl"
    by (auto simp: fence_inv_def)
  then have "i = 0 \<or> i = 1" using i by auto
  then show "fence_inv d s' (ls[i := l'])"
  proof
    assume i: "i = 1"
    have "\<not> race s' \<and> fence_producer_ok d s' l' \<and> fence_consumer_ok d s' cl l'"
      using ok e unfolding fence_producer_ok_def fence_consumer_ok_def
      by (elim disjE; auto simp: i ls fence_producer_def fence_consumer_def mm_defs)
    then show ?thesis by (simp add: fence_inv_def ls i)
  next
    assume i: "i = 0"
    have "\<not> race s' \<and> fence_producer_ok d s' pl \<and> fence_consumer_ok d s' l' pl"
      using ok e unfolding fence_producer_ok_def fence_consumer_ok_def
      by (elim disjE; auto simp: i ls fence_producer_def fence_consumer_def mm_defs nth_Cons split: nat.splits)
    then show ?thesis by (simp add: fence_inv_def ls i)
  qed
qed

subsection \<open>Publishing an object through a pointer\<close>

definition consume_writer_ok :: "int \<Rightarrow> int \<Rightarrow> mm_state \<Rightarrow> instr list \<Rightarrow> bool" where
  "consume_writer_ok a b s pl \<longleftrightarrow> (pl = consume_writer a b \<and> mem s 0 = [msg0] \<and> mem s 2 = [msg0] \<and> mem s 1 = [msg0] \<and> cur (tv s 0) 0 = 0 \<and> cur (tv s 0) 2 = 0)
     \<or> (pl = tl (consume_writer a b) \<and> (\<exists>V. mem s 0 = [msg0, (a, V)]) \<and> mem s 2 = [msg0] \<and> mem s 1 = [msg0] \<and> cur (tv s 0) 0 = 1 \<and> cur (tv s 0) 2 = 0)
     \<or> (pl = tl (tl (consume_writer a b)) \<and> (\<exists>V. mem s 0 = [msg0, (a, V)]) \<and> (\<exists>V. mem s 2 = [msg0, (b, V)]) \<and> mem s 1 = [msg0]
          \<and> cur (tv s 0) 0 = 1 \<and> cur (tv s 0) 2 = 1)
     \<or> (pl = [] \<and> (\<exists>V. mem s 0 = [msg0, (a, V)]) \<and> (\<exists>V. mem s 2 = [msg0, (b, V)]) \<and> (\<exists>V. mem s 1 = [msg0, (1, V)] \<and> V 0 = 1 \<and> V 2 = 1))"

definition consume_reader_ok :: "int \<Rightarrow> int \<Rightarrow> mm_state \<Rightarrow> instr list \<Rightarrow> instr list \<Rightarrow> bool" where
  "consume_reader_ok a b s cl pl \<longleftrightarrow> (cl = consume_reader \<and> cur (tv s 1) 0 = 0 \<and> cur (tv s 1) 2 = 0)
     \<or> (cl = tl consume_reader \<and> pl = [] \<and> cur (tv s 1) 0 = 1 \<and> cur (tv s 1) 2 = 1)
     \<or> (cl = tl (tl consume_reader) \<and> pl = [] \<and> regs s 0 = a \<and> cur (tv s 1) 2 = 1) \<or> (cl = [] \<and> pl = [] \<and> regs s 0 = a \<and> regs s 2 = b)"

definition consume_inv :: "int \<Rightarrow> int \<Rightarrow> mm_state \<Rightarrow> instr list list \<Rightarrow> bool" where
  "consume_inv a b s ls \<longleftrightarrow> (\<exists>cl pl. ls = [pl, cl] \<and> \<not> race s \<and> consume_writer_ok a b s pl \<and> consume_reader_ok a b s cl pl)"

interpretation consume: monitor_invariant mm_thread mm_init "consume_main a b" "consume_inv a b" for a b
proof
  show "consume_inv a b mm_init (consume_main a b)"
    by (simp add: consume_inv_def consume_writer_ok_def consume_reader_ok_def mm_init_def consume_main_def)
next
  fix s ls i s' l' assume inv: "consume_inv a b s ls" and i: "i < length ls" and e: "(s', l') \<in> set (effects (mm_thread i (ls ! i)) s)"
  then obtain cl pl where ls: "ls = [pl, cl]" and ok: "\<not> race s" "consume_writer_ok a b s pl" "consume_reader_ok a b s cl pl"
    by (auto simp: consume_inv_def)
  then have "i = 0 \<or> i = 1" using i by auto
  then show "consume_inv a b s' (ls[i := l'])"
  proof
    assume i: "i = 0"
    have "\<not> race s' \<and> consume_writer_ok a b s' l' \<and> consume_reader_ok a b s' cl l'"
      using ok e unfolding consume_writer_ok_def consume_reader_ok_def
      by (elim disjE; auto simp: i ls consume_writer_def consume_reader_def mm_defs)
    then show ?thesis by (simp add: consume_inv_def ls i)
  next
    assume i: "i = 1"
    have "\<not> race s' \<and> consume_writer_ok a b s' pl \<and> consume_reader_ok a b s' l' pl"
      using ok e unfolding consume_writer_ok_def consume_reader_ok_def
      by (elim disjE; auto simp: i ls consume_writer_def consume_reader_def mm_defs nth_Cons split: nat.splits)
    then show ?thesis by (simp add: consume_inv_def ls i)
  qed
qed

subsection \<open>Store and load\<close>

definition sc_writer_ok :: "nat \<Rightarrow> nat \<Rightarrow> nat \<Rightarrow> mm_state \<Rightarrow> instr list \<Rightarrow> bool" where
  "sc_writer_ok x y r s l \<longleftrightarrow> (l = [Store x SeqCst 1, Load r y SeqCst] \<and> mem s x = [msg0])
     \<or> ((l = [Load r y SeqCst] \<or> l = []) \<and> (\<exists>V. mem s x = [msg0, (1, V)]) \<and> sc s x = 1)"

definition views_ok :: "mm_state \<Rightarrow> bool" where
  "views_ok s \<longleftrightarrow> (\<forall>x. sc s x < length (mem s x)) \<and> (\<forall>i x. cur (tv s i) x < length (mem s x))
     \<and> (\<forall>x. \<forall>m\<in>set (mem s x). \<forall>y. snd m y < length (mem s y))"

definition sc_inv :: "mm_state \<Rightarrow> instr list list \<Rightarrow> bool" where
  "sc_inv s ls \<longleftrightarrow> (\<exists>l0 l1. ls = [l0, l1] \<and> sc_writer_ok 0 1 1 s l0 \<and> sc_writer_ok 1 0 0 s l1
     \<and> views_ok s \<and> (l0 = [] \<longrightarrow> l1 = [] \<longrightarrow> regs s 0 = 1 \<or> regs s 1 = 1))"

lemma sc_store_step:
  assumes m: "mem s x = [msg0]" and ok: "views_ok s"
    and s': "s' = sc_leave i x SeqCst (write_msg i x SeqCst 1 (sc_enter i x SeqCst s))"
  shows "\<exists>V. mem s' x = [msg0, (1, V)]" "sc s' x = 1" "y \<noteq> x \<Longrightarrow> mem s' y = mem s y" "sc s y \<le> sc s' y" "regs s' = regs s" "views_ok s'"
proof -
  show "\<exists>V. mem s' x = [msg0, (1, V)]" "y \<noteq> x \<Longrightarrow> mem s' y = mem s y" "sc s y \<le> sc s' y" "regs s' = regs s"
    using m by (auto simp: s' mm_defs)
  have old: "sc s x = 0" "cur (tv s j) x = 0" for j
    using m ok unfolding views_ok_def by (metis One_nat_def length_Cons less_one list.size(3))+
  then show sc': "sc s' x = 1" using m by (simp add: s' mm_defs)
  have grow: "length (mem s z) \<le> length (mem s' z)" for z by (simp add: s' mm_defs)
  have "sc s' z < length (mem s' z) \<and> cur (tv s' j) z < length (mem s' z)" for z j
  proof (cases "z = x")
    case True
    then show ?thesis using old m by (simp add: s' mm_defs)
  next
    case False
    then show ?thesis using ok by (auto simp: s' mm_defs views_ok_def)
  qed
  moreover have "snd n y < length (mem s' y)" if "n \<in> set (mem s' z)" for n z y
  proof (cases "n \<in> set (mem s z)")
    case True
    then have "snd n y < length (mem s y)" using ok by (auto simp: views_ok_def)
    then show ?thesis using grow [of y] by simp
  next
    case False
    then have "n = (1, (cur (tv s i))(x := 1))" using that m by (auto simp: s' mm_defs split: if_splits)
    moreover have "cur (tv s i) y < length (mem s y)" "sc s y < length (mem s y)" using ok by (auto simp: views_ok_def)
    ultimately show ?thesis using m by (simp add: s' mm_defs)
  qed
  ultimately show "views_ok s'" by (simp add: views_ok_def)
qed

lemma sc_load_step:
  assumes e: "(s', l') \<in> set (exec_instr i (Load r y SeqCst) [] s)" and ok: "views_ok s"
  shows "l' = []" "mem s' = mem s" "sc s z \<le> sc s' z" "\<exists>t. sc s y \<le> t \<and> t < length (mem s y) \<and> regs s' = (regs s)(r := fst (mem s y ! t))"
    "views_ok s'"
proof -
  show "l' = []" "mem s' = mem s" "sc s z \<le> sc s' z" "\<exists>t. sc s y \<le> t \<and> t < length (mem s y) \<and> regs s' = (regs s)(r := fst (mem s y ! t))"
    using e by (auto simp: mm_defs)
  obtain t where t: "t < length (mem s y)" and
    s': "s' = (sc_leave i y SeqCst (read_msg i y SeqCst t (sc_enter i y SeqCst s)))\<lparr>regs := (regs s)(r := fst (mem s y ! t))\<rparr>"
    using e by (auto simp: Let_def readable_def sc_enter_def)
  have "snd (mem s y ! t) z < length (mem s z)" for z
  proof -
    have "\<forall>m\<in>set (mem s y). \<forall>z. snd m z < length (mem s z)" using ok by (simp add: views_ok_def)
    then show ?thesis using nth_mem [OF t] by blast
  qed
  moreover have "sc s z < length (mem s z)" "cur (tv s j) z < length (mem s z)" for z j using ok by (auto simp: views_ok_def)
  moreover have "snd m z < length (mem s z)" if "m \<in> set (mem s x)" for m x z using ok that by (auto simp: views_ok_def)
  ultimately show "views_ok s'" using t by (simp add: s' mm_defs views_ok_def)
qed

lemma sc_writer_step:
  assumes w: "sc_writer_ok x y r s l" "views_ok s" and xy: "x \<noteq> y" and e: "(s', l') \<in> set (effects (mm_thread i l) s)"
    and other: "sc_writer_ok y x r' s lo"
  shows "sc_writer_ok x y r s' l' \<and> sc_writer_ok y x r' s' lo \<and> views_ok s'
    \<and> (l' = [] \<longrightarrow> lo = [] \<longrightarrow> regs s' r = 1)"
proof (cases "l = [Store x SeqCst 1, Load r y SeqCst]")
  case True
  then have m: "mem s x = [msg0]" using w(1) by (auto simp: sc_writer_ok_def)
  have s': "s' = sc_leave i x SeqCst (write_msg i x SeqCst 1 (sc_enter i x SeqCst s))" "l' = [Load r y SeqCst]" using e True by auto
  note st = sc_store_step [OF m w(2) s'(1)]
  have "sc s' y = sc s y" if "sc s y = 1" "\<exists>V. mem s y = [msg0, (1, V)]"
    using st(4) [of y] st(3) [of y] st(6) that xy unfolding views_ok_def
    by (metis One_nat_def le_antisym length_Cons less_Suc_eq_le list.size(3))
  then show ?thesis using st s'(2) other xy st(3) [of y] by (auto simp: sc_writer_ok_def)
next
  case False
  then have l: "l = [Load r y SeqCst]" using w(1) e by (auto simp: sc_writer_ok_def)
  then have "(s', l') \<in> set (exec_instr i (Load r y SeqCst) [] s)" using e by simp
  note st = sc_load_step [OF this w(2)]
  have keep: "sc s' z = 1" if "sc s z = 1" "\<exists>V. mem s z = [msg0, (1, V)]" for z
    using st(2,5) st(3) [of z] that unfolding views_ok_def
    by (metis One_nat_def le_antisym length_Cons less_Suc_eq_le list.size(3))
  have "regs s' r = 1" if lo: "lo = []"
  proof -
    have "\<exists>V. mem s y = [msg0, (1, V)]" "sc s y = 1" using other lo by (auto simp: sc_writer_ok_def)
    with st(4) show ?thesis by (auto simp: nth_Cons split: nat.splits)
  qed
  then show ?thesis using st keep w l other by (auto simp: sc_writer_ok_def)
qed

interpretation sc: monitor_invariant mm_thread mm_init "run_once SeqCst" sc_inv
proof
  show "sc_inv mm_init (run_once SeqCst)"
    by (simp add: sc_inv_def sc_writer_ok_def views_ok_def mm_init_def run_once_def store_load_def)
next
  fix s ls i s' l' assume inv: "sc_inv s ls" and i: "i < length ls" and e: "(s', l') \<in> set (effects (mm_thread i (ls ! i)) s)"
  then obtain l0 l1 where ls: "ls = [l0, l1]" and ok: "sc_writer_ok 0 1 1 s l0" "sc_writer_ok 1 0 0 s l1" "views_ok s" by (auto simp: sc_inv_def)
  then have "i = 0 \<or> i = 1" using i by auto
  then show "sc_inv s' (ls[i := l'])"
  proof
    assume i: "i = 0"
    then show ?thesis using sc_writer_step [OF ok(1,3) _ _ ok(2), of s' l' 0] e ls by (auto simp: sc_inv_def)
  next
    assume i: "i = 1"
    then show ?thesis using sc_writer_step [OF ok(2,3) _ _ ok(1), of s' l' 1] e ls by (auto simp: sc_inv_def)
  qed
qed

subsection \<open>Properties\<close>

text \<open>C8: acquire and release pass messages: in every execution of the producer and the spinning consumer there is no data
  race, and when the consumer has left its loop and read \<open>data\<close>, it has read what the producer wrote.\<close>

theorem acquire_release_passes:
  assumes "reach (step mm_thread) (mm_start (ar_main d)) c"
  shows "\<not> race (shared c) \<and> (locs c ! 0 = [] \<longrightarrow> regs (shared c) 0 = d)"
  using ar.I_reach [of d c] assms
  by (auto simp: mm_start_def ar_inv_def ar_consumer_ok_def ar_consumer_def)

definition ar_demo :: "(nat \<times> choice) list \<times> (mm_state, instr list) cfg" where
  "ar_demo = drive mm_thread [1, 0] 3 (mm_start (ar_main 1234))"

theorem acquire_release_passes_witness: "\<not> race (shared (snd ar_demo))"
  using acquire_release_passes [of 1234 "snd ar_demo"] drive_reach [of mm_thread "mm_start (ar_main 1234)" "[1, 0]" 3]
  by (simp add: ar_demo_def)

text \<open>fences around relaxed accesses of the flag do the same.\<close>

theorem fences_pass:
  assumes "reach (step mm_thread) (mm_start (fence_main d)) c"
  shows "\<not> race (shared c) \<and> (locs c ! 0 = [] \<longrightarrow> regs (shared c) 0 = d)"
  using fence.I_reach [of d c] assms
  by (auto simp: mm_start_def fence_inv_def fence_consumer_ok_def fence_consumer_def)

definition fence_demo :: "(nat \<times> choice) list \<times> (mm_state, instr list) cfg" where
  "fence_demo = drive mm_thread [1, 0] 4 (mm_start (fence_main 99))"

theorem fences_pass_witness: "\<not> race (shared (snd fence_demo))"
  using fences_pass [of 99 "snd fence_demo"] drive_reach [of mm_thread "mm_start (fence_main 99)" "[1, 0]" 4]
  unfolding fence_demo_def by blast

text \<open>an object published through a pointer with release is complete for a reader that loads the pointer with \<open>consume\<close>
  (as compilers implement it): no race, and both fields have their values.\<close>

theorem consume_publishes:
  assumes "reach (step mm_thread) (mm_start (consume_main a b)) c"
  shows "\<not> race (shared c) \<and> (locs c ! 1 = [] \<longrightarrow> regs (shared c) 0 = a \<and> regs (shared c) 2 = b)"
  using consume.I_reach [of a b c] assms
  by (auto simp: mm_start_def consume_inv_def consume_reader_ok_def consume_reader_def)

definition consume_demo :: "(nat \<times> choice) list \<times> (mm_state, instr list) cfg" where
  "consume_demo = drive mm_thread [0, 1] 5 (mm_start (consume_main 10 20))"

theorem consume_publishes_witness: "\<not> race (shared (snd consume_demo))"
  using consume_publishes [of 10 20 "snd consume_demo"] drive_reach [of mm_thread "mm_start (consume_main 10 20)" "[0, 1]" 5]
  unfolding consume_demo_def by blast

text \<open>With \<open>seq_cst\<close> accesses the store/load test never returns 1: when both threads are done, one of them has read
  the other's store.\<close>

lemma sc_both_zero:
  assumes "reach (step mm_thread) (mm_start (run_once SeqCst)) c" "locs c = [[], []]"
  shows "both_zero (shared c) = 0"
  using sc.I_reach [of c] assms by (auto simp: mm_start_def sc_inv_def both_zero_def)

definition sc_demo :: "(nat \<times> choice) list \<times> (mm_state, instr list) cfg" where
  "sc_demo = drive mm_thread [0, 1] 4 (mm_start (run_once SeqCst))"

lemma sc_demo_end: "locs (snd sc_demo) = [[], []]"
  by code_simp

lemma sc_demo_reach: "reach (step mm_thread) (mm_start (run_once SeqCst)) (snd sc_demo)"
  unfolding sc_demo_def by (rule drive_reach)

definition zeros_run :: "instr list list \<Rightarrow> bool" where
  "zeros_run ps = (case run (step mm_thread) (mm_start ps) [(0, Norm 0), (1, Norm 0), (0, Norm 0), (1, Norm 0)] of
      None \<Rightarrow> False | Some c \<Rightarrow> locs c = [[], []] \<and> regs (shared c) 0 = 0 \<and> regs (shared c) 1 = 0)"

lemma zeros_run: "zeros_run ps \<Longrightarrow> \<exists>c. reach (step mm_thread) (mm_start ps) c \<and> locs c = [[], []] \<and> both_zero (shared c) = 1"
  unfolding zeros_run_def both_zero_def using run_reach
  by (auto split: option.splits simp del: run.simps locs_def dest: run_reach)

lemma zeros_runs: "zeros_run (run_once Relaxed)" "zeros_run (store_load Release Acquire)"
  by code_simp+

text \<open>With weaker orders it may return 1: with relaxed accesses, and also with release stores and acquire loads, there
  is an execution in which both threads read 0.\<close>

theorem weak_both_zero:
  "(\<exists>c. reach (step mm_thread) (mm_start (run_once Relaxed)) c \<and> locs c = [[], []] \<and> both_zero (shared c) = 1)
     \<and> (\<exists>c. reach (step mm_thread) (mm_start (store_load Release Acquire)) c \<and> locs c = [[], []] \<and> both_zero (shared c) = 1)"
  using zeros_runs by (blast intro: zeros_run)

lemma both_zero_range: "both_zero s = 0 \<or> both_zero s = 1"
  by (simp add: both_zero_def)

lemma rounds_range: "rounds ps n k \<Longrightarrow> 0 \<le> k \<and> k \<le> int n"
proof (induction rule: rounds.induct)
  case (again n k c)
  then show ?case using both_zero_range [of "shared c"] by auto
qed simp

lemma rounds_all: "(\<exists>c. reach (step mm_thread) (mm_start ps) c \<and> locs c = [[], []] \<and> both_zero (shared c) = b) \<Longrightarrow>
    rounds ps n (int n * b)"
proof (induction n)
  case (Suc n)
  then obtain c where c: "reach (step mm_thread) (mm_start ps) c" "locs c = [[], []]" "both_zero (shared c) = b" by blast
  from rounds.again [OF Suc.IH [OF Suc.prems] c(1,2)] show ?case by (simp add: c(3) algebra_simps)
qed (simp add: rounds.start)

text \<open>A run in which one thread ends before the other starts.\<close>

definition no_zeros_run :: "instr list list \<Rightarrow> bool" where
  "no_zeros_run ps = (case run (step mm_thread) (mm_start ps) [(0, Norm 0), (0, Norm 0), (1, Norm 0), (1, Norm 1)] of
      None \<Rightarrow> False | Some c \<Rightarrow> locs c = [[], []] \<and> both_zero (shared c) = 0)"

lemma no_zeros_run: "no_zeros_run (run_once Relaxed)"
  by code_simp

lemma relaxed_either:
  "b = 0 \<or> b = 1 \<Longrightarrow> \<exists>c. reach (step mm_thread) (mm_start (run_once Relaxed)) c \<and> locs c = [[], []] \<and> both_zero (shared c) = b"
proof (elim disjE)
  assume "b = 0"
  with no_zeros_run show ?thesis unfolding no_zeros_run_def
    by (auto split: option.splits simp del: run.simps locs_def dest: run_reach)
next
  assume "b = 1"
  with zeros_run [OF zeros_runs(1)] show ?thesis by simp
qed

lemma relaxed_rounds: "0 \<le> k \<Longrightarrow> k \<le> int n \<Longrightarrow> rounds (run_once Relaxed) n k"
proof (induction n arbitrary: k)
  case 0
  then show ?case using rounds.start by simp
next
  case (Suc n)
  define b :: int where "b = (if k = 0 then 0 else 1)"
  then have "b = 0 \<or> b = 1" by simp
  then obtain c where c: "reach (step mm_thread) (mm_start (run_once Relaxed)) c" "locs c = [[], []]" "both_zero (shared c) = b"
    using relaxed_either by blast
  have "rounds (run_once Relaxed) n (k - b)" using Suc.prems by (intro Suc.IH) (auto simp: b_def)
  from rounds.again [OF this c(1,2)] show ?case by (simp add: c(3))
qed

lemma sc_rounds: "rounds (run_once SeqCst) n k \<Longrightarrow> k = 0"
  by (induction rule: rounds.induct) (simp_all add: sc_both_zero)

lemma sc_rounds_iff: "rounds (run_once SeqCst) n k \<longleftrightarrow> k = 0"
proof
  assume "k = 0"
  have "both_zero (shared (snd sc_demo)) = 0" by (rule sc_both_zero [OF sc_demo_reach sc_demo_end])
  then show "rounds (run_once SeqCst) n k" using rounds_all [of "run_once SeqCst" 0 n] sc_demo_reach sc_demo_end \<open>k = 0\<close> by auto
qed (rule sc_rounds)

text \<open>C10: what the two programs print that repeat the store/load test: after \<open>n\<close> rounds with \<open>seq_cst\<close> accesses the count
  of (0,0) outcomes is always 0, and with relaxed accesses it may be any number from 0 to \<open>n\<close>, and no other.\<close>

theorem store_load_counts:
  "(reorder_main n relaxed_zeros seqcst_zeros \<longleftrightarrow> seqcst_zeros = 0 \<and> 0 \<le> relaxed_zeros \<and> relaxed_zeros \<le> int n)
     \<and> (seq_cst_main n violations \<longleftrightarrow> violations = 0)"
  unfolding reorder_main_def seq_cst_main_def run_once_seq_cst [symmetric] sc_rounds_iff
  using rounds_range relaxed_rounds by blast





end
