(* ===== verification/RingBuffer.thy ===== *)
theory RingBuffer
  imports Queues Progress
begin

text \<open>
  \<open>examples/01_pthreads/03_condition_variables/02_producer_consumer.c\<close>: the ring buffer \<open>queue_t\<close>, the
  proof that it refines a FIFO list and meets the contract of a blocking queue that is never
  closed, and the program around it: what the producers and consumers do, and what becomes
  of the consumers that \<open>main\<close> cancels.
\<close>

subsection \<open>The ring buffer\<close>

text \<open>\<open>q_put\<close> and \<open>q_get\<close> write and read \<open>buf\<close> at indices that stay below \<open>CAP\<close>.\<close>

definition CAP :: nat where
  "CAP = 4"

record queue_t =
  rb_buf :: "int list"
  rb_head :: nat
  rb_tail :: nat
  rb_count :: nat

definition q_init :: "nat \<Rightarrow> queue_t" where
  "q_init n = \<lparr>rb_buf = replicate n 0, rb_head = 0, rb_tail = 0, rb_count = 0\<rparr>"

definition q_put :: "nat \<Rightarrow> nat \<Rightarrow> nat \<Rightarrow> nat \<Rightarrow> int \<Rightarrow> (queue_t, unit) meth" where
  "q_put n m not_full not_empty v = \<lparr>mtx = m,
     waits = Some (not_full, \<lambda>q. rb_count q \<noteq> n),
     body = (\<lambda>q. (q\<lparr>rb_buf := (rb_buf q)[rb_head q := v], rb_head := (rb_head q + 1) mod n, rb_count := rb_count q + 1\<rparr>,
       (), [NotifyOne not_empty], []))\<rparr>"

definition q_get :: "nat \<Rightarrow> nat \<Rightarrow> nat \<Rightarrow> nat \<Rightarrow> (queue_t, int) meth" where
  "q_get n m not_full not_empty = \<lparr>mtx = m,
     waits = Some (not_empty, \<lambda>q. rb_count q \<noteq> 0),
     body = (\<lambda>q. (q\<lparr>rb_tail := (rb_tail q + 1) mod n, rb_count := rb_count q - 1\<rparr>, rb_buf q ! rb_tail q, [NotifyOne not_full], []))\<rparr>"

text \<open>The abstraction: the values between tail and head.\<close>

definition ring_contents :: "nat \<Rightarrow> queue_t \<Rightarrow> int list" where
  "ring_contents n q = map (\<lambda>k. rb_buf q ! ((rb_tail q + k) mod n)) [0..<rb_count q]"

definition ring_invar :: "nat \<Rightarrow> queue_t \<Rightarrow> bool" where
  "ring_invar n q \<longleftrightarrow> length (rb_buf q) = n \<and> rb_tail q < n \<and> rb_count q \<le> n \<and> rb_head q = (rb_tail q + rb_count q) mod n"

lemma ring_distinct: "k < c \<Longrightarrow> c < n \<Longrightarrow> (t + k) mod n \<noteq> (t + c) mod (n::nat)"
proof
  assume k: "k < c" "c < n" and eq: "(t + k) mod n = (t + c) mod n"
  have "(t + c) - (t + k) = c - k" using k by simp
  moreover have "n dvd (t + c) - (t + k)" using eq k by (metis add_le_cancel_left less_imp_le mod_eq_dvd_iff_nat)
  ultimately have "n \<le> c - k" using k by (simp add: dvd_imp_le)
  then show False using k by simp
qed

lemma ring_init: "0 < n \<Longrightarrow> ring_invar n (q_init n) \<and> ring_contents n (q_init n) = []"
  by (simp add: ring_invar_def ring_contents_def q_init_def)

lemma ring_put:
  assumes "ring_invar n q" "rb_count q < n" "body (q_put n m f e v) q = (q', r, pre, post)"
  shows "ring_invar n q'" "ring_contents n q' = ring_contents n q @ [v]" "pre @ post = [NotifyOne e]"
proof -
  have q': "q' = q\<lparr>rb_buf := (rb_buf q)[rb_head q := v], rb_head := (rb_head q + 1) mod n, rb_count := rb_count q + 1\<rparr>"
    and "pre @ post = [NotifyOne e]" using assms(3) by (auto simp: q_put_def)
  then show "pre @ post = [NotifyOne e]" by simp
  show "ring_invar n q'" using assms(1,2) by (simp add: q' ring_invar_def mod_Suc_eq)
  have head: "rb_head q < n" "length (rb_buf q) = n" using assms by (auto simp: ring_invar_def)
  have "map (\<lambda>k. (rb_buf q)[rb_head q := v] ! ((rb_tail q + k) mod n)) [0..<rb_count q] = ring_contents n q"
    using ring_distinct [of _ "rb_count q" n "rb_tail q", THEN not_sym] assms(1,2) unfolding ring_contents_def ring_invar_def
    by (intro map_cong) auto
  moreover have "(rb_buf q)[rb_head q := v] ! ((rb_tail q + rb_count q) mod n) = v" using head assms(1) by (simp add: ring_invar_def)
  ultimately show "ring_contents n q' = ring_contents n q @ [v]" by (simp add: q' ring_contents_def)
qed

lemma ring_get:
  assumes "ring_invar n q" "ring_contents n q = x # xs" "body (q_get n m f e) q = (q', v, pre, post)"
  shows "ring_invar n q'" "ring_contents n q' = xs" "v = x" "pre @ post = [NotifyOne f]"
proof -
  have q': "q' = q\<lparr>rb_tail := (rb_tail q + 1) mod n, rb_count := rb_count q - 1\<rparr>" "v = rb_buf q ! rb_tail q"
    and "pre @ post = [NotifyOne f]" using assms(3) by (auto simp: q_get_def)
  then show "pre @ post = [NotifyOne f]" by simp
  obtain c where c: "rb_count q = Suc c" using assms(2) by (cases "rb_count q") (auto simp: ring_contents_def)
  have "[0..<rb_count q] = 0 # map Suc [0..<c]" by (simp add: c upt_conv_Cons map_Suc_upt del: upt_Suc)
  then have "x # xs = rb_buf q ! (rb_tail q mod n) # map (\<lambda>k. rb_buf q ! ((rb_tail q + Suc k) mod n)) [0..<c]"
    using assms(2) by (simp add: ring_contents_def comp_def)
  then show "v = x" "ring_contents n q' = xs"
    using assms(1) c by (simp_all add: q' ring_contents_def ring_invar_def mod_add_left_eq)
  show "ring_invar n q'" using assms(1) c by (auto simp: q' ring_invar_def mod_add_left_eq)
qed

lemma ring_length: "length (ring_contents n q) = rb_count q"
  by (simp add: ring_contents_def)

lemma ring_empty: "ring_contents n q = [] \<longleftrightarrow> rb_count q = 0"
  by (simp add: ring_contents_def)

lemma ring_blocking:
  assumes "e \<noteq> f"
  shows "blocking_queue (ring_invar n) (ring_contents n) (\<lambda>_. n) (\<lambda>_. False) (q_put n m f e) (q_get n m f e) Some m e f"
proof
  fix x show "\<exists>p. waits (q_put n m f e x) = Some (f, p) \<and> (\<forall>q. ring_invar n q \<longrightarrow> p q = (False \<or> length (ring_contents n q) < n))"
    by (auto simp: q_put_def ring_length ring_invar_def)
next
  show "\<exists>p. waits (q_get n m f e) = Some (e, p) \<and> (\<forall>q. ring_invar n q \<longrightarrow> p q = (False \<or> ring_contents n q \<noteq> []))"
    by (auto simp: q_get_def ring_empty)
next
  fix q q' x r pre post
  assume "ring_invar n q" "length (ring_contents n q) < n" "body (q_put n m f e x) q = (q', r, pre, post)"
  then show "ring_invar n q' \<and> ring_contents n q' = ring_contents n q @ [x] \<and> n = n \<and> False = False \<and> pre @ post = [NotifyOne e]"
    using ring_put [of n q m f e x q' r pre post] by (simp add: ring_length)
next
  fix q q' b x xs pre post
  assume "ring_invar n q" "ring_contents n q = x # xs" "body (q_get n m f e) q = (q', b, pre, post)"
  then show "ring_invar n q' \<and> Some b = Some x \<and> ring_contents n q' = xs \<and> n = n \<and> False = False \<and> pre @ post = [NotifyOne f]"
    using ring_get [of n q x xs m f e q' b pre post] by simp
qed (use assms in \<open>auto simp: q_put_def q_get_def ring_length ring_invar_def\<close>)

interpretation ring: blocking_queue "ring_invar n" "ring_contents n" "\<lambda>_. n" "\<lambda>_. False" "q_put n 0 1 2" "q_get n 0 1 2" Some 0 2 1 for n
  by (rule ring_blocking) simp

subsection \<open>The program\<close>

text \<open>What the threads print.\<close>

datatype line = PutLine nat int | GotLine nat int

record rb_state =
  rb_q :: queue_t
  rb_out :: "line list"

datatype rb_loc =
    Producer nat nat
  | PrintPut nat nat
  | Consumer nat nat
  | PrintGot nat nat int

definition rb_item :: "nat \<Rightarrow> nat \<Rightarrow> int" where
  "rb_item p i = int p * 1000 + int i"

text \<open>\<open>producer\<close> puts \<open>K\<close> items; \<open>consumer\<close> gets \<open>T\<close>.\<close>

fun rb_thread :: "nat \<Rightarrow> nat \<Rightarrow> nat \<Rightarrow> rb_loc \<Rightarrow> (rb_state, rb_loc) stmt" where
  "rb_thread n K T (Producer p i) =
     (if i < K then call rb_q rb_q_update (q_put n 0 1 2 (rb_item p i)) (\<lambda>_. PrintPut p i) else Fin)"
| "rb_thread n K T (PrintPut p i) = Act (\<lambda>s. [(s\<lparr>rb_out := rb_out s @ [PutLine p (rb_item p i)]\<rparr>, Producer p (Suc i))])"
| "rb_thread n K T (Consumer c i) =
     (if i < T then call rb_q rb_q_update (q_get n 0 1 2) (\<lambda>v. PrintGot c i v) else Fin)"
| "rb_thread n K T (PrintGot c i v) = Act (\<lambda>s. [(s\<lparr>rb_out := rb_out s @ [GotLine c v]\<rparr>, Consumer c (Suc i))])"

text \<open>The number of items a consumer asks for.\<close>

definition rb_total :: "nat \<Rightarrow> nat \<Rightarrow> nat \<Rightarrow> nat" where
  "rb_total NP K NC = (NP * K) div NC + 1"

definition rb_threads :: "nat \<Rightarrow> nat \<Rightarrow> rb_loc list" where
  "rb_threads NP NC = map (\<lambda>p. Producer p 0) [0..<NP] @ map (\<lambda>c. Consumer c 0) [0..<NC]"

definition rb_prog :: "nat \<Rightarrow> nat \<Rightarrow> nat \<Rightarrow> nat \<Rightarrow> nat \<Rightarrow> rb_loc \<Rightarrow> (rb_state, rb_loc) stmt" where
  "rb_prog n NP K NC = (\<lambda>_. rb_thread n K (rb_total NP K NC))"

definition rb_init :: "nat \<Rightarrow> rb_state" where
  "rb_init n = \<lparr>rb_q = q_init n, rb_out = []\<rparr>"

definition rb_start :: "nat \<Rightarrow> nat \<Rightarrow> nat \<Rightarrow> (rb_state, rb_loc) cfg" where
  "rb_start n NP NC = start (rb_init n) (rb_threads NP NC)"

text \<open>\<open>main\<close>: two producers of 8 items, three consumers.\<close>

definition rb_main :: "(rb_state, rb_loc) cfg" where
  "rb_main = rb_start CAP 2 3"

subsection \<open>The invariant\<close>

fun rb_role :: "rb_loc \<Rightarrow> nat + nat" where
  "rb_role (Producer p i) = Inl p"
| "rb_role (PrintPut p i) = Inl p"
| "rb_role (Consumer c i) = Inr c"
| "rb_role (PrintGot c i v) = Inr c"

fun rb_put :: "rb_loc \<Rightarrow> int multiset" where
  "rb_put (Producer p i) = mset (map (rb_item p) [0..<i])"
| "rb_put (PrintPut p i) = mset (map (rb_item p) [0..<Suc i])"
| "rb_put _ = {#}"

fun rb_held :: "rb_loc \<Rightarrow> int multiset" where
  "rb_held (PrintGot c i v) = {#v#}"
| "rb_held _ = {#}"

fun rb_taken :: "rb_loc \<Rightarrow> nat" where
  "rb_taken (Consumer c i) = i"
| "rb_taken (PrintGot c i v) = Suc i"
| "rb_taken _ = 0"

fun rb_bound :: "nat \<Rightarrow> nat \<Rightarrow> rb_loc \<Rightarrow> bool" where
  "rb_bound K T (Producer p i) = (i \<le> K)"
| "rb_bound K T (PrintPut p i) = (i < K)"
| "rb_bound K T (Consumer c i) = (i \<le> T)"
| "rb_bound K T (PrintGot c i v) = (i < T)"

fun got_value :: "line \<Rightarrow> int list" where
  "got_value (GotLine c v) = [v]"
| "got_value (PutLine p v) = []"

definition rb_got :: "rb_state \<Rightarrow> int list" where
  "rb_got s = concat (map got_value (rb_out s))"

definition rb_inv :: "nat \<Rightarrow> nat \<Rightarrow> nat \<Rightarrow> nat \<Rightarrow> nat \<Rightarrow> rb_state \<Rightarrow> rb_loc list \<Rightarrow> bool" where
  "rb_inv n NP NC K T s ls \<longleftrightarrow> ring_invar n (rb_q s) \<and> map rb_role ls = map Inl [0..<NP] @ map Inr [0..<NC]
     \<and> (\<forall>l\<in>set ls. rb_bound K T l)
     \<and> mset (ring_contents n (rb_q s)) + mset (rb_got s) + sum_list (map rb_held ls) = sum_list (map rb_put ls)
     \<and> length (rb_got s) + sum_list (map (\<lambda>l. size (rb_held l)) ls) = sum_list (map rb_taken ls)"

lemma rb_cases [consumes 2, case_names put print_put get print_got]:
  assumes e: "(s', l') \<in> set (effects (rb_thread n K T l) s)" and q: "ring_invar n (rb_q s)"
  obtains (put) p i q where "l = Producer p i" "i < K" "l' = PrintPut p i" "s' = s\<lparr>rb_q := q\<rparr>" "ring_invar n q"
      "ring_contents n q = ring_contents n (rb_q s) @ [rb_item p i]"
  | (print_put) p i where "l = PrintPut p i" "l' = Producer p (Suc i)" "s' = s\<lparr>rb_out := rb_out s @ [PutLine p (rb_item p i)]\<rparr>"
  | (get) c i v q where "l = Consumer c i" "i < T" "l' = PrintGot c i v" "s' = s\<lparr>rb_q := q\<rparr>" "ring_invar n q"
      "ring_contents n (rb_q s) = v # ring_contents n q"
  | (print_got) c i v where "l = PrintGot c i v" "l' = Consumer c (Suc i)" "s' = s\<lparr>rb_out := rb_out s @ [GotLine c v]\<rparr>"
proof (cases l)
  case (Producer p i)
  then have i: "i < K" and e': "(s', l') \<in> set (effects (call rb_q rb_q_update (q_put n 0 1 2 (rb_item p i)) (\<lambda>_. PrintPut p i)) s)"
    using e by (auto split: if_splits)
  from e' show thesis
  proof (rule effects_callE)
    fix q r pre post
    assume a: "enabled (q_put n 0 1 2 (rb_item p i)) (rb_q s)" "body (q_put n 0 1 2 (rb_item p i)) (rb_q s) = (q, r, pre, post)"
      "s' = rb_q_update (\<lambda>_. q) s" "l' = PrintPut p i"
    from q a(1,2) show thesis
      by (rule ring.push_cases) (use put [OF Producer i a(4)] a(3) in auto)
  qed
next
  case (Consumer c i)
  then have i: "i < T" and e': "(s', l') \<in> set (effects (call rb_q rb_q_update (q_get n 0 1 2) (\<lambda>v. PrintGot c i v)) s)"
    using e by (auto split: if_splits)
  from e' show thesis
  proof (rule effects_callE)
    fix q r pre post
    assume a: "enabled (q_get n 0 1 2) (rb_q s)" "body (q_get n 0 1 2) (rb_q s) = (q, r, pre, post)"
      "s' = rb_q_update (\<lambda>_. q) s" "l' = PrintGot c i r"
    from q a(1,2) show thesis
      by (rule ring.pop_cases) (use get [OF Consumer i] a(3,4) in auto)
  qed
qed (use e print_put print_got in auto)

lemma rb_inv_init: "0 < n \<Longrightarrow> rb_inv n NP NC K T (rb_init n) (rb_threads NP NC)"
  by (auto simp: rb_inv_def rb_init_def rb_threads_def ring_init comp_def rb_got_def)

lemma rb_inv_step:
  assumes inv: "rb_inv n NP NC K T s ls" and i: "i < length ls" and e: "(s', l') \<in> set (effects (rb_thread n K T (ls ! i)) s)"
  shows "rb_inv n NP NC K T s' (ls[i := l'])"
proof -
  have q: "ring_invar n (rb_q s)" and b: "rb_bound K T (ls ! i)" using inv i by (auto simp: rb_inv_def)
  obtain A where A: "sum_list (map rb_held ls) = A + rb_held (ls ! i)" "\<And>x. sum_list (map rb_held (ls[i := x])) = A + rb_held x"
    using sum_list_split [OF i] by blast
  obtain B where B: "sum_list (map rb_put ls) = B + rb_put (ls ! i)" "\<And>x. sum_list (map rb_put (ls[i := x])) = B + rb_put x"
    using sum_list_split [OF i] by blast
  obtain C where C: "sum_list (map (\<lambda>l. size (rb_held l)) ls) = C + size (rb_held (ls ! i))"
    "\<And>x. sum_list (map (\<lambda>l. size (rb_held l)) (ls[i := x])) = C + size (rb_held x)" using sum_list_split [OF i] by blast
  obtain D where D: "sum_list (map rb_taken ls) = D + rb_taken (ls ! i)" "\<And>x. sum_list (map rb_taken (ls[i := x])) = D + rb_taken x"
    using sum_list_split [OF i] by blast
  have "rb_role l' = rb_role (ls ! i) \<and> rb_bound K T l' \<and> ring_invar n (rb_q s')"
    using e q by (cases rule: rb_cases) (use b q in auto)
  moreover have "mset (ring_contents n (rb_q s')) + mset (rb_got s') + sum_list (map rb_held (ls[i := l'])) = sum_list (map rb_put (ls[i := l']))"
    using e q by (cases rule: rb_cases) (use inv in \<open>auto simp: rb_inv_def A B rb_got_def\<close>)
  moreover have "length (rb_got s') + sum_list (map (\<lambda>l. size (rb_held l)) (ls[i := l'])) = sum_list (map rb_taken (ls[i := l']))"
    using e q by (cases rule: rb_cases) (use inv in \<open>auto simp: rb_inv_def C D rb_got_def\<close>)
  ultimately show ?thesis using inv by (auto simp: rb_inv_def map_upd_same dest: set_updD)
qed

lemma rb_queue_stmt: "queue_stmt rb_q rb_q_update (q_put n 0 1 2) (q_get n 0 1 2) 2 1 (rb_thread n K T l)"
  by (cases l) (auto intro!: queue_stmt_intros)

lemma rb_inv_ring: "rb_inv n NP NC K T s ls \<Longrightarrow> ring_invar n (rb_q s)"
  by (simp add: rb_inv_def)

interpretation rb: queue_client "\<lambda>_. rb_thread (Suc n) K T" "rb_init (Suc n)" "rb_threads NP NC" "rb_inv (Suc n) NP NC K T"
    "ring_invar (Suc n)" "ring_contents (Suc n)" "\<lambda>_. Suc n" "\<lambda>_. False" "q_put (Suc n) 0 1 2" "q_get (Suc n) 0 1 2" Some 0 2 1
    rb_q rb_q_update for n NP NC K T
  by unfold_locales (simp_all add: rb_inv_init rb_inv_step rb_inv_ring rb_queue_stmt del: One_nat_def)

subsection \<open>Termination\<close>

fun rb_todo :: "nat \<Rightarrow> nat \<Rightarrow> rb_loc \<Rightarrow> nat" where
  "rb_todo K T (Producer p i) = 2 * (K - i)"
| "rb_todo K T (PrintPut p i) = 2 * (K - Suc i) + 1"
| "rb_todo K T (Consumer c i) = 2 * (T - i)"
| "rb_todo K T (PrintGot c i v) = 2 * (T - Suc i) + 1"

lemma rb_todo_step:
  assumes "(s', l') \<in> set (effects (rb_thread n K T l) s)" "ring_invar n (rb_q s)"
  shows "rb_todo K T l' < rb_todo K T l"
  using assms by (cases rule: rb_cases) auto

interpretation rb: terminating "\<lambda>_. rb_thread (Suc n) K T" "rb_init (Suc n)" "rb_threads NP NC" "rb_inv (Suc n) NP NC K T"
    "\<lambda>s ls. sum_list (map (rb_todo K T) ls)" 1 for n NP NC K T
proof
  fix s ls i s' l' assume inv: "rb_inv (Suc n) NP NC K T s ls" and i: "i < length ls"
    and e: "(s', l') \<in> set (effects (rb_thread (Suc n) K T (ls ! i)) s)"
  obtain R where R: "sum_list (map (rb_todo K T) ls) = R + rb_todo K T (ls ! i)"
    "\<And>x. sum_list (map (rb_todo K T) (ls[i := x])) = R + rb_todo K T x" using sum_list_split [OF i] by blast
  show "sum_list (map (rb_todo K T) (ls[i := l'])) < sum_list (map (rb_todo K T) ls)"
    using rb_todo_step [OF e rb_inv_ring [OF inv]] by (simp add: R)
next
  fix ls :: "rb_loc list" and i m w b and s s' :: rb_state and l' pre post
  assume a: "rb_thread (Suc n) K T (ls ! i) = Monitor m w b" "b s = (s', l', pre, post)"
  show "length pre + length post \<le> 1"
  proof (cases "ls ! i")
    case (Producer p k)
    then have "call rb_q rb_q_update (q_put (Suc n) 0 1 2 (rb_item p k)) (\<lambda>_. PrintPut p k) = Monitor m w b"
      using a(1) by (simp split: if_splits)
    then show ?thesis using a(2) by (rule call_body) (auto simp: q_put_def)
  next
    case (Consumer c k)
    then have "call rb_q rb_q_update (q_get (Suc n) 0 1 2) (\<lambda>v. PrintGot c k v) = Monitor m w b"
      using a(1) by (simp split: if_splits)
    then show ?thesis using a(2) by (rule call_body) (auto simp: q_get_def)
  qed (use a(1) in auto)
qed

subsection \<open>States in which nothing moves\<close>

lemma rb_stuck_locs:
  assumes r: "reach (step (\<lambda>_. rb_thread (Suc n) K T)) (start (rb_init (Suc n)) (rb_threads NP NC)) c" "stuck (\<lambda>_. rb_thread (Suc n) K T) c"
    and i: "i < length (thr c)"
  obtains (producer) p k where "thr c ! i = At (Producer p k)" "\<not> k < K" | (consumer) q k where "thr c ! i = At (Consumer q k)" "\<not> k < T"
  | (full) p k where "thr c ! i = Asleep (Producer p k)" "length (ring_contents (Suc n) (rb_q (shared c))) = Suc n"
  | (empty) q k where "thr c ! i = Asleep (Consumer q k)" "ring_contents (Suc n) (rb_q (shared c)) = []" "k < T"
proof -
  note ok = reach_ok [OF r(1)]
  from r(2) i ok(1,2) show thesis
  proof (cases rule: stuck_cases)
    case (fin l)
    then show thesis using producer consumer by (cases l) (auto split: if_splits)
  next
    case (blocked l f)
    then show thesis by (cases l) (auto split: if_splits)
  next
    case (asleep l m v p b)
    show thesis
    proof (cases l)
      case (Producer q k)
      then have "rb_thread (Suc n) K T l = call rb_q rb_q_update (q_put (Suc n) 0 1 2 (rb_item q k)) (\<lambda>_. PrintPut q k)"
        using asleep(2) by (auto split: if_splits)
      from rb.stuck_push [OF r i asleep(1) this] show thesis using full asleep(1) Producer by blast
    next
      case (Consumer q k)
      then have k: "k < T" and "rb_thread (Suc n) K T l = call rb_q rb_q_update (q_get (Suc n) 0 1 2) (\<lambda>v. PrintGot q k v)"
        using asleep(2) by (auto split: if_splits)
      from rb.stuck_pop [OF r i asleep(1) this(2)] show thesis using empty asleep(1) Consumer k by blast
    qed (use asleep(2) in auto)
  qed
qed

definition rb_items :: "nat \<Rightarrow> nat \<Rightarrow> int multiset" where
  "rb_items NP K = (\<Sum>p\<leftarrow>[0..<NP]. mset (map (rb_item p) [0..<K]))"

lemma size_rb_items: "size (rb_items NP K) = NP * K"
  by (simp add: rb_items_def size_sum_list_mset comp_def sum_list_triv)

fun rb_quota :: "nat \<Rightarrow> nat + nat \<Rightarrow> int multiset" where
  "rb_quota K (Inl p) = mset (map (rb_item p) [0..<K])"
| "rb_quota K (Inr c) = {#}"

lemma rb_put_le: "rb_bound K T l \<Longrightarrow> rb_put l \<subseteq># rb_quota K (rb_role l)"
proof -
  have le: "i \<le> K \<Longrightarrow> mset (map f [0..<i]) \<subseteq># mset (map f [0..<K])" for i and f :: "nat \<Rightarrow> int"
    by (metis le_add_diff_inverse map_append mset_append mset_subset_eq_add_left upt_add_eq_append zero_le)
  show "rb_bound K T l \<Longrightarrow> ?thesis"
    by (cases l) (simp_all only: rb_put.simps rb_role.simps rb_quota.simps rb_bound.simps le Suc_leI empty_le)
qed

text \<open>Nothing is made up: what has been put is among the items.\<close>

lemma rb_put_items: "rb_inv n NP NC K T s ls \<Longrightarrow> sum_list (map rb_put ls) \<subseteq># rb_items NP K"
proof -
  assume inv: "rb_inv n NP NC K T s ls"
  then have "sum_list (map rb_put ls) \<subseteq># sum_list (map (rb_quota K) (map rb_role ls))"
    using rb_put_le by (intro sum_list_subset_mset) (auto simp: rb_inv_def)
  moreover have roles: "map rb_role ls = map Inl [0..<NP] @ map Inr [0..<NC]" using inv by (simp add: rb_inv_def)
  ultimately show ?thesis unfolding roles by (simp add: comp_def rb_items_def sum_list_map_zero)
qed

lemma rb_taken_le: "rb_inv n NP NC K T s ls \<Longrightarrow> sum_list (map rb_taken ls) \<le> NP * K"
proof -
  assume inv: "rb_inv n NP NC K T s ls"
  then have "size (sum_list (map rb_put ls)) \<le> NP * K" using size_mset_mono [OF rb_put_items [OF inv]] by (simp add: size_rb_items)
  moreover have "length (rb_got s) + size (sum_list (map rb_held ls)) \<le> size (sum_list (map rb_put ls))"
    using arg_cong [of _ _ size, OF conjunct1 [OF conjunct2 [OF conjunct2 [OF conjunct2 [OF inv [unfolded rb_inv_def]]]]]] by simp
  ultimately show ?thesis using inv by (simp add: rb_inv_def size_sum_list_mset comp_def)
qed

lemma rb_stuck_result:
  assumes r: "reach (step (\<lambda>_. rb_thread (Suc n) K T)) (start (rb_init (Suc n)) (rb_threads NP NC)) c" "stuck (\<lambda>_. rb_thread (Suc n) K T) c"
    and more: "NP * K < NC * T"
  shows "\<forall>i<length (thr c). (\<exists>p. thr c ! i = At (Producer p K)) \<or> (\<exists>q. thr c ! i = At (Consumer q T)) \<or> (\<exists>q k. thr c ! i = Asleep (Consumer q k))"
    "mset (rb_got (shared c)) = rb_items NP K" "ring_contents (Suc n) (rb_q (shared c)) = []"
    "\<exists>i<length (thr c). \<exists>q k. thr c ! i = Asleep (Consumer q k)"
proof -
  let ?ls = "locs c" and ?s = "shared c"
  have inv: "rb_inv (Suc n) NP NC K T ?s ?ls" using rb.I_reach [OF r(1)] .
  have roles: "map rb_role ?ls = map Inl [0..<NP] @ map Inr [0..<NC]" and bound: "\<forall>l\<in>set ?ls. rb_bound K T l"
    and flow: "mset (ring_contents (Suc n) (rb_q ?s)) + mset (rb_got ?s) + sum_list (map rb_held ?ls) = sum_list (map rb_put ?ls)"
    using inv by (auto simp: rb_inv_def)
  have bnd: "rb_bound K T (loc (thr c ! i))" if "i < length (thr c)" for i using bound that by (metis length_locs nth_locs nth_mem)
  have some: "\<exists>i<length (thr c). \<exists>q k. loc (thr c ! i) = Consumer q k \<and> k < T"
  proof (rule ccontr)
    assume none: "\<not> ?thesis"
    have "(case rb_role l of Inl p \<Rightarrow> 0 | Inr q \<Rightarrow> T) \<le> rb_taken l" if l: "l \<in> set ?ls" for l
    proof -
      from l obtain i where i: "i < length (thr c)" "l = loc (thr c ! i)" by (auto simp: in_set_conv_nth)
      show ?thesis by (rule rb_stuck_locs [OF r i(1)]) (use i none in force)+
    qed
    then have "(\<Sum>l\<leftarrow>?ls. case rb_role l of Inl p \<Rightarrow> 0 | Inr q \<Rightarrow> T) \<le> sum_list (map rb_taken ?ls)"
      by (intro sum_list_mono) simp
    also have "(\<Sum>l\<leftarrow>?ls. case rb_role l of Inl p \<Rightarrow> 0 | Inr q \<Rightarrow> T) = (\<Sum>r\<leftarrow>map rb_role ?ls. case r of Inl p \<Rightarrow> 0 | Inr q \<Rightarrow> T)"
      by (simp add: comp_def)
    also have "\<dots> = NC * T" unfolding roles by (simp add: comp_def sum_list_triv)
    also have "sum_list (map rb_taken ?ls) \<le> NP * K" by (rule rb_taken_le [OF inv])
    finally show False using more by simp
  qed
  then obtain i q k where ik: "i < length (thr c)" "loc (thr c ! i) = Consumer q k" "k < T" by blast
  have empty: "ring_contents (Suc n) (rb_q ?s) = [] \<and> thr c ! i = Asleep (Consumer q k)"
    by (rule rb_stuck_locs [OF r ik(1)]) (use ik in auto)
  then show "ring_contents (Suc n) (rb_q ?s) = []" "\<exists>i<length (thr c). \<exists>q k. thr c ! i = Asleep (Consumer q k)"
    using ik(1) by blast+
  show locs: "\<forall>i<length (thr c). (\<exists>p. thr c ! i = At (Producer p K)) \<or> (\<exists>q. thr c ! i = At (Consumer q T)) \<or> (\<exists>q k. thr c ! i = Asleep (Consumer q k))"
  proof (intro allI impI)
    fix j assume j: "j < length (thr c)"
    show "(\<exists>p. thr c ! j = At (Producer p K)) \<or> (\<exists>q. thr c ! j = At (Consumer q T)) \<or> (\<exists>q k. thr c ! j = Asleep (Consumer q k))"
      by (rule rb_stuck_locs [OF r j]) (use bnd [OF j] empty in auto)
  qed
  have at: "(\<exists>p. l = Producer p K) \<or> (\<exists>q k. l = Consumer q k)" if l: "l \<in> set ?ls" for l
  proof -
    from l obtain j where "j < length (thr c)" "l = loc (thr c ! j)" by (auto simp: in_set_conv_nth)
    with locs show ?thesis by force
  qed
  then have "map rb_put ?ls = map (rb_quota K) (map rb_role ?ls)" by force
  then have "sum_list (map rb_put ?ls) = rb_items NP K" by (simp add: roles comp_def rb_items_def sum_list_map_zero)
  moreover have "sum_list (map rb_held ?ls) = {#}" using at by (intro sum_list_map_zero) force
  ultimately show "mset (rb_got ?s) = rb_items NP K" using flow empty by simp
qed

subsection \<open>Cancelling the consumers\<close>

text \<open>
  After it has joined the producers, \<open>main\<close> cancels the consumers and joins them. A thread
  cancelled in \<open>pthread_cond_wait\<close> locks the mutex again before it runs its clean-up handlers
  (POSIX); the program installs none, so it dies with the mutex locked. \<open>InWait\<close>: cancelled
  but not dead yet.
\<close>

datatype cstatus = Returned | InWait | Gone

inductive cancel_step :: "nat option \<times> cstatus list \<Rightarrow> nat option \<times> cstatus list \<Rightarrow> bool" where
  die: "i < length ts \<Longrightarrow> ts ! i = InWait \<Longrightarrow> cancel_step (None, ts) (Some i, ts[i := Gone])"

inductive_cases cancel_stepE: "cancel_step (ow, ts) d"

inductive_simps cancel_step_locked [simp]: "cancel_step (Some i, ts) d"

fun status :: "rb_loc phase \<Rightarrow> cstatus" where
  "status (Asleep l) = InWait"
| "status _ = Returned"

definition cancelled :: "nat \<Rightarrow> (rb_state, rb_loc) cfg \<Rightarrow> nat option \<times> cstatus list" where
  "cancelled NP c = (owner c 0, map status (drop NP (thr c)))"

text \<open>\<open>main\<close>'s joins return when every consumer has.\<close>

definition joined :: "nat option \<times> cstatus list \<Rightarrow> bool" where
  "joined d \<longleftrightarrow> InWait \<notin> set (snd d)"

lemma cancel_two:
  assumes "cancel_step\<^sup>*\<^sup>* (None, ts) d" "i < length ts" "j < length ts" "i \<noteq> j" "ts ! i = InWait" "ts ! j = InWait"
  shows "\<not> joined d"
  using assms(1)
proof (cases rule: converse_rtranclpE)
  case base
  then show ?thesis using assms nth_mem [of i ts] by (auto simp: joined_def)
next
  case (step e)
  from step(1) obtain k where k: "e = (Some k, ts[k := Gone])" by (auto elim: cancel_stepE)
  from step(2) have "d = e" by (cases rule: converse_rtranclpE) (simp_all add: k)
  moreover have "\<exists>l<length ts. l \<noteq> k \<and> ts ! l = InWait" using assms(2-6) by metis
  then obtain l where "l < length ts" "l \<noteq> k" "ts ! l = InWait" by blast
  then have "InWait \<in> set (ts[k := Gone])" by (metis length_list_update nth_list_update_neq nth_mem)
  ultimately show ?thesis by (simp add: joined_def k)
qed

text \<open>A schedule of \<open>main\<close> that leaves two consumers waiting, each one item short of its share.\<close>

definition rb_hang :: "(rb_state, rb_loc) cfg" where
  "rb_hang = (let P = rb_prog CAP 2 8 3; go = (\<lambda>is n c. snd (drive P is n c)) in
     go [3] 20 (go [4, 0, 1] 200 (go [0, 1] 100 (go [3] 5 (go [0, 1] 100 (go [3] 20 (go [0, 1, 2] 200 rb_main)))))))"

lemma rb_hang_reach: "reach (step (rb_prog CAP 2 8 3)) rb_main rb_hang"
  unfolding rb_hang_def Let_def by (intro reach_trans [OF _ drive_reach] drive_reach)

lemma rb_hang_stuck: "stuckb (rb_prog CAP 2 8 3) rb_hang \<and> cancelled 2 rb_hang = (None, [Returned, InWait, InWait])"
  by code_simp

subsection \<open>Properties\<close>

text \<open>C11: the ring buffer is a FIFO queue: on a well-formed buffer \<open>q_put\<close> appends to the list of queued values and \<open>q_get\<close> returns
  and removes its first element, whatever the position of the indices, and both keep the buffer well-formed.\<close>

theorem ring_refines_list:
  assumes "ring_invar n q" "body (q_put n m f e v) q = (qp, u, pre, post)" "body (q_get n m f e) q = (qg, x, pre', post')"
  shows "(rb_count q < n \<longrightarrow> ring_invar n qp \<and> ring_contents n qp = ring_contents n q @ [v])
    \<and> (rb_count q \<noteq> 0 \<longrightarrow> ring_invar n qg \<and> ring_contents n q = x # ring_contents n qg)"
proof (intro conjI impI)
  assume "rb_count q < n"
  from ring_put [OF assms(1) this assms(2)] show "ring_invar n qp" "ring_contents n qp = ring_contents n q @ [v]" by blast+
next
  assume "rb_count q \<noteq> 0"
  then obtain y ys where "ring_contents n q = y # ys" using ring_empty [of n q] by (cases "ring_contents n q") auto
  from this ring_get [OF assms(1) this assms(3)] show "ring_invar n qg" "ring_contents n q = x # ring_contents n qg" by simp_all
qed

text \<open>A full buffer whose indices have wrapped around once.\<close>

theorem ring_refines_list_witness: "ring_contents 2 \<lparr>rb_buf = [5, 9], rb_head = 1, rb_tail = 1, rb_count = 2\<rparr> =
    9 # ring_contents 2 \<lparr>rb_buf = [5, 9], rb_head = 1, rb_tail = 0, rb_count = 1\<rparr>"
  using ring_refines_list [of 2 "\<lparr>rb_buf = [5, 9], rb_head = 1, rb_tail = 1, rb_count = 2\<rparr>" 0 1 2 7 _ _ _ _
      "\<lparr>rb_buf = [5, 9], rb_head = 1, rb_tail = 0, rb_count = 1\<rparr>" 9 "[NotifyOne 1]" "[]"]
  by (simp add: q_put_def q_get_def ring_invar_def)

text \<open>every schedule of the C producer/consumer program ends (before the cancellation), after a number of steps linear in the
  number of puts and gets.\<close>

theorem ringbuf_terminates:
  assumes "0 < n" "run (step (rb_prog n NP K NC)) (rb_start n NP NC) es = Some c"
  shows "length es \<le> (3 * (NP + NC) + 5) * (NP * (2 * K) + NC * (2 * rb_total NP K NC)) + 2 * (NP + NC) + 3 * spurs es"
proof -
  obtain k where n: "n = Suc k" using assms(1) by (cases n) auto
  have "sum_list (map (rb_todo K T) (rb_threads NP NC)) = NP * (2 * K) + NC * (2 * T)" for T
    by (simp add: rb_threads_def comp_def sum_list_triv)
  moreover have "rb.fee (length (rb_threads NP NC)) = 3 * (NP + NC) + 5" unfolding rb.fee_def by (simp add: rb_threads_def)
  ultimately show ?thesis
    using rb.run_bounded [of k K "rb_total NP K NC" NP NC es c] assms(2) by (simp add: rb_prog_def rb_start_def n rb_threads_def)
qed

definition rb_demo :: "(nat \<times> choice) list \<times> (rb_state, rb_loc) cfg" where
  "rb_demo = drive (rb_prog 1 1 2 1) [1, 0] 60 (rb_start 1 1 1)"

lemma rb_demo_run: "run (step (rb_prog 1 1 2 1)) (rb_start 1 1 1) (fst rb_demo) = Some (snd rb_demo)"
  unfolding rb_demo_def by (rule drive_run) simp

lemma rb_demo_stuck: "stuckb (rb_prog 1 1 2 1) (snd rb_demo)"
  by code_simp

theorem ringbuf_terminates_witness: "length (fst rb_demo) \<le> 11 * 10 + 4 + 3 * spurs (fst rb_demo)"
  using ringbuf_terminates [OF _ rb_demo_run] by (simp add: rb_total_def)

text \<open>C12: it delivers: under every schedule the number of steps (before the cancellation) is bounded, and when nothing moves any more the
  producers have returned, the consumers have printed every item exactly once and the buffer is empty; but since the
  shares add up to more than the items, some consumer is still waiting for one and will wait for ever.\<close>

theorem ringbuf_delivers:
  assumes "0 < n" "0 < NC" "run (step (rb_prog n NP K NC)) (rb_start n NP NC) es = Some c"
  shows "length es \<le> (3 * (NP + NC) + 5) * (NP * (2 * K) + NC * (2 * rb_total NP K NC)) + 2 * (NP + NC) + 3 * spurs es \<and>
    (stuck (rb_prog n NP K NC) c \<longrightarrow> mset (rb_got (shared c)) = rb_items NP K \<and> ring_contents n (rb_q (shared c)) = []
    \<and> (\<forall>i<length (thr c). (\<exists>p. thr c ! i = At (Producer p K)) \<or> (\<exists>q. thr c ! i = At (Consumer q (rb_total NP K NC)))
        \<or> (\<exists>q k. thr c ! i = Asleep (Consumer q k)))
    \<and> (\<exists>i<length (thr c). \<exists>q k. thr c ! i = Asleep (Consumer q k)))"
proof (intro conjI [OF ringbuf_terminates [OF assms(1,3)]] impI)
  assume st: "stuck (rb_prog n NP K NC) c"
  obtain k where n: "n = Suc k" using assms(1) by (cases n) auto
  have more: "NP * K < NC * rb_total NP K NC"
    using assms(2) by (metis Suc_eq_plus1 dividend_less_times_div rb_total_def mult_Suc_right)
  note r = run_reach [OF assms(3), unfolded rb_prog_def rb_start_def n]
  from rb_stuck_result [OF r st [unfolded rb_prog_def n] more]
  show "mset (rb_got (shared c)) = rb_items NP K \<and> ring_contents n (rb_q (shared c)) = []
    \<and> (\<forall>i<length (thr c). (\<exists>p. thr c ! i = At (Producer p K)) \<or> (\<exists>q. thr c ! i = At (Consumer q (rb_total NP K NC)))
        \<or> (\<exists>q k. thr c ! i = Asleep (Consumer q k)))
    \<and> (\<exists>i<length (thr c). \<exists>q k. thr c ! i = Asleep (Consumer q k))" by (simp add: n)
qed

theorem ringbuf_delivers_witness: "mset (rb_got (shared (snd rb_demo))) = {#0, 1#}"
  using ringbuf_delivers [OF _ _ rb_demo_run] stuckb [OF rb_demo_stuck]
  by (simp add: rb_items_def rb_item_def numeral_2_eq_2)

text \<open>C38: the queue is well typed in every state that the program reaches: the buffer keeps its length, both indices stay inside it, so
  that no access of \<open>q_put\<close> or \<open>q_get\<close> is out of bounds, the count stays between 0 and the capacity, and the head is the tail
  moved on by the count.\<close>

theorem ringbuf_well_typed:
  assumes "0 < n" "reach (step (rb_prog n NP K NC)) (rb_start n NP NC) c"
  shows "length (rb_buf (rb_q (shared c))) = n \<and> rb_head (rb_q (shared c)) < n \<and> rb_tail (rb_q (shared c)) < n \<and>
    rb_count (rb_q (shared c)) \<le> n \<and> rb_head (rb_q (shared c)) = (rb_tail (rb_q (shared c)) + rb_count (rb_q (shared c))) mod n"
proof -
  obtain k where n: "n = Suc k" using assms(1) by (cases n) auto
  have "ring_invar n (rb_q (shared c))"
    using rb_inv_ring [OF rb.I_reach [OF assms(2) [unfolded rb_prog_def rb_start_def n]]] n by simp
  then show ?thesis using assms(1) by (simp add: ring_invar_def)
qed

theorem ringbuf_well_typed_witness: "rb_head (rb_q (shared (snd rb_demo))) < 1"
  using ringbuf_well_typed [OF _ run_reach [OF rb_demo_run]] by simp

text \<open>C13: the cancellation at the end of \<open>main\<close> is not safe: the program can reach a state in which two consumers wait for an item
  when they are cancelled; the first dies with the mutex locked, the second cannot lock it any more, and \<open>main\<close>
  never gets past its joins.\<close>

theorem ringbuf_cancel_hangs:
  "\<exists>c. reach (step (rb_prog CAP 2 8 3)) rb_main c \<and> stuck (rb_prog CAP 2 8 3) c
     \<and> (\<nexists>d. cancel_step\<^sup>*\<^sup>* (cancelled 2 c) d \<and> joined d)"
proof -
  have "\<not> joined d" if "cancel_step\<^sup>*\<^sup>* (cancelled 2 rb_hang) d" for d
    using cancel_two [of "[Returned, InWait, InWait]" d 1 2] that rb_hang_stuck by simp
  then show ?thesis using rb_hang_reach stuckb rb_hang_stuck by blast
qed

end
