(* ===== verification/LockFree.thy ===== *)
theory LockFree
  imports Threads
begin

text \<open>
  The lock-free stacks: \<open>LockFreeStack\<close> (Treiber's stack,
  \<open>examples/02_cpp11_threads/04_atomics/05_lockfree_stack.cpp\<close>) and \<open>TaggedStack\<close>
  (\<open>examples/04_pitfalls/06_aba_problem.cpp\<close>). The heap is explicit, so that what happens when the
  addresses of popped nodes are used again can be stated: without a tag the stack is corrupted
  (the ABA problem), with a tag, or when popped nodes are leaked as both classes do, every
  run is one of an atomic stack.
\<close>

subsection \<open>State and operations\<close>

text \<open>
  Address 0 is \<open>nullptr\<close>. The head is a pointer and a tag, which a change adds \<open>bump\<close> to: 0 for
  \<open>LockFreeStack\<close>, whose head is just the pointer, 1 for \<open>TaggedStack\<close>. \<open>lf_alloc\<close> are the allocated
  addresses, \<open>lf_out i\<close> what the \<open>pop\<close>s of thread \<open>i\<close> have returned.
\<close>

record 'a lf_state =
  lf_head :: "nat \<times> nat"
  lf_heap :: "nat \<Rightarrow> 'a \<times> nat"
  lf_alloc :: "nat list"
  lf_out :: "nat \<Rightarrow> 'a option list"

datatype 'a stack_op = Push 'a | Pop

datatype 'a lf_loc =
    Next "'a stack_op list"
  | PushLoad nat "'a stack_op list"
  | PushTry nat "nat \<times> nat" "'a stack_op list"
  | PopNext "nat \<times> nat" "'a stack_op list"
  | PopTry "nat \<times> nat" nat "'a stack_op list"
  | PopRead nat "'a stack_op list"

text \<open>Where \<open>new\<close> may place a node: any address not in use.\<close>

definition free_addrs :: "'a lf_state \<Rightarrow> nat list" where
  "free_addrs s = filter (\<lambda>a. a \<notin> set (lf_alloc s)) [1..<length (lf_alloc s) + 2]"

definition set_next :: "nat \<Rightarrow> nat \<Rightarrow> 'a lf_state \<Rightarrow> 'a lf_state" where
  "set_next n p s = s\<lparr>lf_heap := (lf_heap s)(n := (fst (lf_heap s n), p))\<rparr>"

definition returns :: "nat \<Rightarrow> 'a option \<Rightarrow> 'a lf_state \<Rightarrow> 'a lf_state" where
  "returns i r s = s\<lparr>lf_out := (lf_out s)(i := lf_out s i @ [r])\<rparr>"

text \<open>
  \<open>compare_exchange_weak\<close> may fail although the head is the expected one. \<open>reclaim\<close> says whether
  \<open>pop\<close> frees the node, which the classes do not do.
\<close>

fun lf_thread :: "nat \<Rightarrow> bool \<Rightarrow> nat \<Rightarrow> 'a lf_loc \<Rightarrow> ('a lf_state, 'a lf_loc) stmt" where
  "lf_thread bump reclaim i (Next []) = Fin"
| "lf_thread bump reclaim i (Next (Push v # os)) = Act (\<lambda>s.
     map (\<lambda>n. (s\<lparr>lf_heap := (lf_heap s)(n := (v, 0)), lf_alloc := n # lf_alloc s\<rparr>, PushLoad n os)) (free_addrs s))"
| "lf_thread bump reclaim i (PushLoad n os) = Act (\<lambda>s. [(set_next n (fst (lf_head s)) s, PushTry n (lf_head s) os)])"
| "lf_thread bump reclaim i (PushTry n cur os) = Act (\<lambda>s.
     (if lf_head s = cur then [(s\<lparr>lf_head := (n, snd cur + bump)\<rparr>, Next os)] else [])
       @ [(set_next n (fst (lf_head s)) s, PushTry n (lf_head s) os)])"
| "lf_thread bump reclaim i (Next (Pop # os)) = Act (\<lambda>s. [(s, PopNext (lf_head s) os)])"
| "lf_thread bump reclaim i (PopNext cur os) = Act (\<lambda>s.
     if fst cur = 0 then [(returns i None s, Next os)] else [(s, PopTry cur (snd (lf_heap s (fst cur))) os)])"
| "lf_thread bump reclaim i (PopTry cur nxt os) = Act (\<lambda>s.
     (if lf_head s = cur then [(s\<lparr>lf_head := (nxt, snd cur + bump)\<rparr>, PopRead (fst cur) os)] else [])
       @ [(s, PopNext (lf_head s) os)])"
| "lf_thread bump reclaim i (PopRead p os) = Act (\<lambda>s.
     let s1 = returns i (Some (fst (lf_heap s p))) s
     in [(if reclaim then s1\<lparr>lf_alloc := removeAll p (lf_alloc s1)\<rparr> else s1, Next os)])"

definition lf_init :: "'a \<Rightarrow> 'a lf_state" where
  "lf_init u = \<lparr>lf_head = (0, 0), lf_heap = (\<lambda>_. (u, 0)), lf_alloc = [], lf_out = (\<lambda>_. [])\<rparr>"

definition lf_start :: "'a \<Rightarrow> 'a stack_op list list \<Rightarrow> ('a lf_state, 'a lf_loc) cfg" where
  "lf_start u progs = start (lf_init u) (map Next progs)"

subsection \<open>The specification: an atomic stack\<close>

record 'a stack_spec =
  sp_stack :: "'a list"
  sp_out :: "nat \<Rightarrow> 'a option list"

fun spec_thread :: "nat \<Rightarrow> 'a stack_op list \<Rightarrow> ('a stack_spec, 'a stack_op list) stmt" where
  "spec_thread i [] = Fin"
| "spec_thread i (Push v # os) = Act (\<lambda>s. [(s\<lparr>sp_stack := v # sp_stack s\<rparr>, os)])"
| "spec_thread i (Pop # os) = Act (\<lambda>s. case sp_stack s of
       [] \<Rightarrow> [(s\<lparr>sp_out := (sp_out s)(i := sp_out s i @ [None])\<rparr>, os)]
     | v # vs \<Rightarrow> [(s\<lparr>sp_stack := vs, sp_out := (sp_out s)(i := sp_out s i @ [Some v])\<rparr>, os)])"

definition spec_init :: "'a stack_spec" where
  "spec_init = \<lparr>sp_stack = [], sp_out = (\<lambda>_. [])\<rparr>"

subsection \<open>The abstraction\<close>

text \<open>The addresses of the nodes from \<open>p\<close> on; the number of allocated nodes is fuel enough.\<close>

fun chain :: "nat \<Rightarrow> (nat \<Rightarrow> 'a \<times> nat) \<Rightarrow> nat \<Rightarrow> nat list" where
  "chain 0 h p = []"
| "chain (Suc k) h p = (if p = 0 then [] else p # chain k h (snd (h p)))"

definition nodes :: "'a lf_state \<Rightarrow> nat list" where
  "nodes s = chain (length (lf_alloc s)) (lf_heap s) (fst (lf_head s))"

definition stack_of :: "'a lf_state \<Rightarrow> 'a list" where
  "stack_of s = map (\<lambda>a. fst (lf_heap s a)) (nodes s)"

text \<open>
  A push takes effect with its successful CAS, a pop with its successful CAS or when it loads a
  null head.
\<close>

fun todo :: "'a lf_state \<Rightarrow> 'a lf_loc \<Rightarrow> 'a stack_op list" where
  "todo s (Next os) = os"
| "todo s (PushLoad n os) = Push (fst (lf_heap s n)) # os"
| "todo s (PushTry n cur os) = Push (fst (lf_heap s n)) # os"
| "todo s (PopNext cur os) = (if fst cur = 0 then os else Pop # os)"
| "todo s (PopTry cur nxt os) = Pop # os"
| "todo s (PopRead p os) = os"

fun pend :: "'a lf_state \<Rightarrow> 'a lf_loc \<Rightarrow> 'a option list" where
  "pend s (PopNext cur os) = (if fst cur = 0 then [None] else [])"
| "pend s (PopRead p os) = [Some (fst (lf_heap s p))]"
| "pend s _ = []"

definition lf_abs :: "'a lf_state \<Rightarrow> 'a lf_loc list \<Rightarrow> 'a stack_spec" where
  "lf_abs s ls = \<lparr>sp_stack = stack_of s, sp_out = (\<lambda>i. lf_out s i @ (if i < length ls then pend s (ls ! i) else []))\<rparr>"

subsection \<open>The invariant\<close>

fun path :: "(nat \<Rightarrow> 'a \<times> nat) \<Rightarrow> nat \<Rightarrow> nat list \<Rightarrow> bool" where
  "path h p [] = (p = 0)"
| "path h p (a # as) = (p = a \<and> a \<noteq> 0 \<and> path h (snd (h a)) as)"

lemma path_chain: "path h p as \<Longrightarrow> length as \<le> k \<Longrightarrow> chain k h p = as"
  by (induction k h p arbitrary: "as" rule: chain.induct) (auto simp: neq_Nil_conv elim: path.elims)

lemma path_unique: "path h p as \<Longrightarrow> path h p bs \<Longrightarrow> as = bs"
proof (induction "as" arbitrary: p bs)
  case (Cons a "as")
  then show ?case by (cases bs) auto
qed (metis path.elims(2) path.simps(1))

lemma path_frame: "n \<notin> set as \<Longrightarrow> path (h(n := x)) p as = path h p as"
  by (induction "as" arbitrary: p) auto

text \<open>The node a thread owns: the one it is pushing, or the one it has popped and not read yet.\<close>

fun owns :: "'a lf_loc \<Rightarrow> nat option" where
  "owns (PushLoad n os) = Some n"
| "owns (PushTry n cur os) = Some n"
| "owns (PopRead p os) = Some p"
| "owns _ = None"

fun pushing :: "'a lf_loc \<Rightarrow> nat option" where
  "pushing (PushLoad n os) = Some n"
| "pushing (PushTry n cur os) = Some n"
| "pushing _ = None"

text \<open>What a head that a thread has loaded says about the present.\<close>

definition cur_ok :: "nat \<Rightarrow> bool \<Rightarrow> 'a lf_state \<Rightarrow> 'a lf_loc list \<Rightarrow> nat \<times> nat \<Rightarrow> bool" where
  "cur_ok bump reclaim s ls cur \<longleftrightarrow>
     (reclaim \<longrightarrow> snd cur \<le> snd (lf_head s) \<and> (snd cur = snd (lf_head s) \<longrightarrow> cur = lf_head s))
     \<and> (\<not> reclaim \<longrightarrow> fst cur = 0 \<or> fst cur \<in> set (lf_alloc s) \<and> (\<forall>l\<in>set ls. pushing l \<noteq> Some (fst cur)))"

fun loc_ok :: "nat \<Rightarrow> bool \<Rightarrow> 'a lf_state \<Rightarrow> 'a lf_loc list \<Rightarrow> 'a lf_loc \<Rightarrow> bool" where
  "loc_ok bump reclaim s ls (PushTry n cur os) = (snd (lf_heap s n) = fst cur)"
| "loc_ok bump reclaim s ls (PopNext cur os) = cur_ok bump reclaim s ls cur"
| "loc_ok bump reclaim s ls (PopTry cur nxt os) = (cur_ok bump reclaim s ls cur \<and> fst cur \<noteq> 0
     \<and> (lf_head s = cur \<or> \<not> reclaim \<longrightarrow> nxt = snd (lf_heap s (fst cur))))"
| "loc_ok bump reclaim s ls _ = True"

definition lf_inv :: "nat \<Rightarrow> bool \<Rightarrow> 'a lf_state \<Rightarrow> 'a lf_loc list \<Rightarrow> nat list \<Rightarrow> bool" where
  "lf_inv bump reclaim s ls as \<longleftrightarrow> path (lf_heap s) (fst (lf_head s)) as \<and> distinct as \<and> set as \<subseteq> set (lf_alloc s)
     \<and> 0 \<notin> set (lf_alloc s) \<and> distinct (lf_alloc s)
     \<and> (\<forall>l\<in>set ls. \<forall>p. owns l = Some p \<longrightarrow> p \<in> set (lf_alloc s) \<and> p \<notin> set as)
     \<and> (\<forall>i<length ls. \<forall>j<length ls. i \<noteq> j \<longrightarrow> owns (ls ! i) = None \<or> owns (ls ! i) \<noteq> owns (ls ! j))
     \<and> (\<forall>l\<in>set ls. loc_ok bump reclaim s ls l)"

lemma lf_inv_nodes: "lf_inv bump reclaim s ls as \<Longrightarrow> nodes s = as"
proof -
  assume a: "lf_inv bump reclaim s ls as"
  then have "length as \<le> length (lf_alloc s)"
    by (metis card_mono distinct_card finite_set lf_inv_def)
  then show ?thesis using a by (simp add: nodes_def path_chain lf_inv_def)
qed

lemma lf_inv_init: "lf_inv bump reclaim (lf_init u) (map Next progs) []"
  by (auto simp: lf_inv_def lf_init_def)

lemma nth_other: "i < length ls \<Longrightarrow> l \<in> set (ls[i := l']) \<Longrightarrow> l = l' \<or> (\<exists>j<length ls. j \<noteq> i \<and> l = ls ! j)"
  by (metis in_set_conv_nth length_list_update nth_list_update_eq nth_list_update_neq)

lemma loc_ok_keep:
  assumes ok: "loc_ok bump reclaim s ls l"
    and own: "\<And>p. owns l = Some p \<Longrightarrow> lf_heap s' p = lf_heap s p"
    and head: "reclaim \<Longrightarrow> lf_head s' = lf_head s \<and> (fst (lf_head s) \<noteq> 0 \<longrightarrow> lf_heap s' (fst (lf_head s)) = lf_heap s (fst (lf_head s)))
       \<or> snd (lf_head s) < snd (lf_head s')"
    and leak: "\<not> reclaim \<Longrightarrow> set (lf_alloc s) \<subseteq> set (lf_alloc s') \<and>
       (\<forall>p\<in>set (lf_alloc s). (\<forall>l\<in>set ls. pushing l \<noteq> Some p) \<longrightarrow> lf_heap s' p = lf_heap s p \<and> (\<forall>l\<in>set ls'. pushing l \<noteq> Some p))"
  shows "loc_ok bump reclaim s' ls' l"
proof -
  have cur: "cur_ok bump reclaim s' ls' cur" if "cur_ok bump reclaim s ls cur" for cur
    using that head leak by (cases reclaim) (fastforce simp: cur_ok_def)+
  show ?thesis
  proof (cases l)
    case (PopTry cur nxt os)
    have a: "cur_ok bump reclaim s ls cur" "fst cur \<noteq> 0" "lf_head s = cur \<or> \<not> reclaim \<longrightarrow> nxt = snd (lf_heap s (fst cur))"
      using ok PopTry by auto
    have "nxt = snd (lf_heap s' (fst cur))" if "lf_head s' = cur \<or> \<not> reclaim"
    proof (cases reclaim)
      case True
      then have "lf_head s' = cur" using that by simp
      then have "lf_head s' = lf_head s" using a(1) head [OF True] True unfolding cur_ok_def by auto
      then show ?thesis using a head [OF True] \<open>lf_head s' = cur\<close> by auto
    next
      case False
      then show ?thesis using a leak unfolding cur_ok_def by auto
    qed
    then show ?thesis using PopTry a cur by simp
  qed (use ok own cur in auto)
qed

lemma lf_inv_upd:
  assumes inv: "lf_inv bump reclaim s ls as" and i: "i < length ls"
    and heap: "path (lf_heap s') (fst (lf_head s')) as'" "distinct as'" "set as' \<subseteq> set (lf_alloc s')" "0 \<notin> set (lf_alloc s')" "distinct (lf_alloc s')"
    and own: "\<And>p. owns l' = Some p \<Longrightarrow> p \<in> set (lf_alloc s') \<and> p \<notin> set as' \<and> (owns (ls ! i) \<noteq> Some p \<longrightarrow> p \<notin> set (lf_alloc s) \<or> p \<in> set as)"
    and others: "\<And>p. p \<in> set (lf_alloc s) \<Longrightarrow> p \<notin> set as \<Longrightarrow> owns (ls ! i) \<noteq> Some p \<Longrightarrow> p \<in> set (lf_alloc s') \<and> p \<notin> set as'"
    and ok: "loc_ok bump reclaim s' (ls[i := l']) l'"
    and okothers: "\<And>j. j < length ls \<Longrightarrow> j \<noteq> i \<Longrightarrow> loc_ok bump reclaim s' (ls[i := l']) (ls ! j)"
  shows "lf_inv bump reclaim s' (ls[i := l']) as'"
proof -
  have o: "p \<in> set (lf_alloc s) \<and> p \<notin> set as" if "owns (ls ! j) = Some p" "j < length ls" for p j
    using inv that unfolding lf_inv_def by (metis nth_mem)
  have d: "owns (ls ! j) = None \<or> owns (ls ! j) \<noteq> owns (ls ! k)" if "j < length ls" "k < length ls" "j \<noteq> k" for j k
    using inv that unfolding lf_inv_def by metis
  have d': "owns (ls ! i) \<noteq> Some p" if "owns (ls ! j) = Some p" "j < length ls" "j \<noteq> i" for j p
    using d [OF that(2) i that(3)] that(1) by auto
  have "owns (ls[i := l'] ! j) = None \<or> owns (ls[i := l'] ! j) \<noteq> owns (ls[i := l'] ! k)"
    if jk: "j < length ls" "k < length ls" "j \<noteq> k" for j k
  proof -
    have "owns l' \<noteq> owns (ls ! m)" if "m < length ls" "m \<noteq> i" "owns l' \<noteq> None" for m
      using own o d' that by (metis not_None_eq)
    then show ?thesis using jk d by (cases "j = i"; cases "k = i") (metis nth_list_update_eq nth_list_update_neq)+
  qed
  moreover have "p \<in> set (lf_alloc s') \<and> p \<notin> set as'" if l: "l \<in> set (ls[i := l'])" "owns l = Some p" for l p
    using nth_other [OF i l(1)] own others o d' l(2) by metis
  moreover have "loc_ok bump reclaim s' (ls[i := l']) l" if "l \<in> set (ls[i := l'])" for l
    using nth_other [OF i that] ok okothers by metis
  ultimately show ?thesis using heap by (simp add: lf_inv_def)
qed

subsection \<open>Steps\<close>

lemma set_free_addrs: "n \<in> set (free_addrs s) \<longleftrightarrow> n \<noteq> 0 \<and> n < length (lf_alloc s) + 2 \<and> n \<notin> set (lf_alloc s)"
  unfolding free_addrs_def set_filter set_upt by auto

lemma lf_cases [consumes 1, case_names alloc load push_ok push_fail pop_load pop_none pop_next pop_ok pop_fail read]:
  assumes "(s', l') \<in> set (effects (lf_thread bump reclaim i l) s)"
  obtains (alloc) v os n where "l = Next (Push v # os)" "n \<noteq> 0" "n \<notin> set (lf_alloc s)" "l' = PushLoad n os"
      "s' = s\<lparr>lf_heap := (lf_heap s)(n := (v, 0)), lf_alloc := n # lf_alloc s\<rparr>"
  | (load) n os where "l = PushLoad n os" "s' = set_next n (fst (lf_head s)) s" "l' = PushTry n (lf_head s) os"
  | (push_ok) n cur os where "l = PushTry n cur os" "lf_head s = cur" "s' = s\<lparr>lf_head := (n, snd cur + bump)\<rparr>" "l' = Next os"
  | (push_fail) n cur os where "l = PushTry n cur os" "s' = set_next n (fst (lf_head s)) s" "l' = PushTry n (lf_head s) os"
  | (pop_load) os where "l = Next (Pop # os)" "s' = s" "l' = PopNext (lf_head s) os"
  | (pop_none) cur os where "l = PopNext cur os" "fst cur = 0" "s' = returns i None s" "l' = Next os"
  | (pop_next) cur os where "l = PopNext cur os" "fst cur \<noteq> 0" "s' = s" "l' = PopTry cur (snd (lf_heap s (fst cur))) os"
  | (pop_ok) cur nxt os where "l = PopTry cur nxt os" "lf_head s = cur" "s' = s\<lparr>lf_head := (nxt, snd cur + bump)\<rparr>" "l' = PopRead (fst cur) os"
  | (pop_fail) cur nxt os where "l = PopTry cur nxt os" "s' = s" "l' = PopNext (lf_head s) os"
  | (read) p os where "l = PopRead p os" "l' = Next os"
      "s' = (if reclaim then (returns i (Some (fst (lf_heap s p))) s)\<lparr>lf_alloc := removeAll p (lf_alloc s)\<rparr> else returns i (Some (fst (lf_heap s p))) s)"
proof (cases "(bump, reclaim, i, l)" rule: lf_thread.cases)
  case (2 bump reclaim i v os)
  then show thesis using assms alloc by (auto simp: set_free_addrs)
next
  case (4 bump reclaim i n cur os)
  then show thesis using assms push_ok push_fail by (auto split: if_splits)
next
  case (6 bump reclaim i cur os)
  then show thesis using assms pop_none pop_next by (auto split: if_splits)
next
  case (7 bump reclaim i cur nxt os)
  then show thesis using assms pop_ok pop_fail by (auto split: if_splits)
next
  case (8 bump reclaim i p os)
  then show thesis using assms read by (auto simp: returns_def Let_def split: if_splits)
qed (use assms load pop_load in auto)

lemma cur_ok_head: "lf_inv bump reclaim s ls as \<Longrightarrow> cur_ok bump reclaim s (ls[i := l']) (lf_head s)" if "pushing l' = None" "i < length ls"
proof -
  assume inv: "lf_inv bump reclaim s ls as"
  have "pushing l \<noteq> Some p" if l: "l \<in> set (ls[i := l'])" "p \<in> set as" for l p
  proof
    assume p: "pushing l = Some p"
    then have "owns l = Some p" by (cases l) auto
    moreover have "l \<noteq> l'" using p that(1) \<open>pushing l' = None\<close> by auto
    then have "l \<in> set ls" using l(1) set_updD by fastforce
    ultimately show False using inv l(2) by (auto simp: lf_inv_def)
  qed
  moreover have "fst (lf_head s) = 0 \<or> fst (lf_head s) \<in> set as" using inv by (cases "as") (auto simp: lf_inv_def)
  ultimately show "cur_ok bump reclaim s (ls[i := l']) (lf_head s)" using inv by (auto simp: cur_ok_def lf_inv_def)
qed

lemma lf_inv_alloc:
  assumes inv: "lf_inv bump reclaim s ls as" and i: "i < length ls" and l: "owns (ls ! i) = None"
    and n: "n \<noteq> 0" "n \<notin> set (lf_alloc s)"
  shows "lf_inv bump reclaim (s\<lparr>lf_heap := (lf_heap s)(n := (v, 0)), lf_alloc := n # lf_alloc s\<rparr>) (ls[i := PushLoad n os]) as"
proof (rule lf_inv_upd [OF inv i])
  let ?s' = "s\<lparr>lf_heap := (lf_heap s)(n := (v, 0)), lf_alloc := n # lf_alloc s\<rparr>"
  have sub: "set as \<subseteq> set (lf_alloc s)" using inv by (simp add: lf_inv_def)
  show "path (lf_heap ?s') (fst (lf_head ?s')) as" using inv path_frame [of n "as" "lf_heap s" "(v, 0)"] n(2) sub by (auto simp: lf_inv_def)
  fix j assume j: "j < length ls" "j \<noteq> i"
  then have ok: "loc_ok bump reclaim s ls (ls ! j)" and o: "\<And>p. owns (ls ! j) = Some p \<Longrightarrow> p \<in> set (lf_alloc s)"
    using inv by (auto simp: lf_inv_def)
  from ok show "loc_ok bump reclaim ?s' (ls[i := PushLoad n os]) (ls ! j)"
  proof (rule loc_ok_keep)
    have "fst (lf_head s) \<noteq> n" using inv n sub by (cases "as") (auto simp: lf_inv_def)
    then show "lf_head ?s' = lf_head s \<and> (fst (lf_head s) \<noteq> 0 \<longrightarrow> lf_heap ?s' (fst (lf_head s)) = lf_heap s (fst (lf_head s)))
       \<or> snd (lf_head s) < snd (lf_head ?s')" by simp
    show "set (lf_alloc s) \<subseteq> set (lf_alloc ?s') \<and> (\<forall>p\<in>set (lf_alloc s). (\<forall>l\<in>set ls. pushing l \<noteq> Some p) \<longrightarrow>
      lf_heap ?s' p = lf_heap s p \<and> (\<forall>l\<in>set (ls[i := PushLoad n os]). pushing l \<noteq> Some p))"
      using n(2) by (auto dest!: set_updD)
  qed (use o n(2) in auto)
qed (use inv n l in \<open>auto simp: lf_inv_def\<close>)

text \<open>A step that leaves the heap alone.\<close>

lemma lf_inv_local:
  assumes inv: "lf_inv bump reclaim s ls as" and i: "i < length ls" and l: "owns l' = None" "loc_ok bump reclaim s (ls[i := l']) l'"
    and s': "lf_head s' = lf_head s" "lf_heap s' = lf_heap s" "lf_alloc s' = lf_alloc s" and own: "owns (ls ! i) = None"
  shows "lf_inv bump reclaim s' (ls[i := l']) as"
proof (rule lf_inv_upd [OF inv i])
  have push: "pushing l' = None" using l(1) by (cases l') auto
  have eq: "loc_ok bump reclaim s' = loc_ok bump reclaim s" using s'
    by (intro ext) (rename_tac ls l, case_tac l, auto simp: cur_ok_def)
  show "loc_ok bump reclaim s' (ls[i := l']) l'" using l(2) by (simp add: eq)
  fix j assume j: "j < length ls" "j \<noteq> i"
  then have "loc_ok bump reclaim s ls (ls ! j)" using inv by (auto simp: lf_inv_def)
  then show "loc_ok bump reclaim s' (ls[i := l']) (ls ! j)"
    by (rule loc_ok_keep) (use s' push in \<open>auto dest!: set_updD\<close>)
qed (use inv l own s' in \<open>auto simp: lf_inv_def\<close>)

lemma lf_inv_owned:
  assumes "lf_inv bump reclaim s ls as" "i < length ls" "owns (ls ! i) = Some n"
  shows "n \<in> set (lf_alloc s)" "n \<notin> set as" "n \<noteq> 0" "n \<noteq> fst (lf_head s)"
    "j < length ls \<Longrightarrow> j \<noteq> i \<Longrightarrow> owns (ls ! j) \<noteq> Some n"
proof -
  have A: "\<forall>l\<in>set ls. \<forall>p. owns l = Some p \<longrightarrow> p \<in> set (lf_alloc s) \<and> p \<notin> set as"
    and D: "\<forall>i<length ls. \<forall>j<length ls. i \<noteq> j \<longrightarrow> owns (ls ! i) = None \<or> owns (ls ! i) \<noteq> owns (ls ! j)"
    using assms(1) by (simp_all add: lf_inv_def)
  have "ls ! i \<in> set ls" using assms(2) by simp
  with A assms(3) show a: "n \<in> set (lf_alloc s)" "n \<notin> set as" by auto
  have "0 \<notin> set (lf_alloc s)" using assms(1) by (simp add: lf_inv_def)
  with a(1) show "n \<noteq> 0" by metis
  with a show "n \<noteq> fst (lf_head s)" using assms(1) by (cases "as") (auto simp: lf_inv_def)
  show "j < length ls \<Longrightarrow> j \<noteq> i \<Longrightarrow> owns (ls ! j) \<noteq> Some n"
    using D [rule_format, OF assms(2), of j] assms(3) by auto
qed

text \<open>Writing the next field of the node a thread is pushing.\<close>

lemma lf_inv_write:
  assumes inv: "lf_inv bump reclaim s ls as" and i: "i < length ls" and l: "owns (ls ! i) = Some n" "pushing (ls ! i) = Some n"
  shows "lf_inv bump reclaim (set_next n (fst (lf_head s)) s) (ls[i := PushTry n (lf_head s) os]) as"
proof (rule lf_inv_upd [OF inv i])
  let ?s' = "set_next n (fst (lf_head s)) s"
  note n = lf_inv_owned [OF inv i l(1)]
  have s': "lf_head ?s' = lf_head s" "lf_alloc ?s' = lf_alloc s" "lf_heap ?s' = (lf_heap s)(n := (fst (lf_heap s n), fst (lf_head s)))"
    by (simp_all add: set_next_def)
  show "path (lf_heap ?s') (fst (lf_head ?s')) as" using inv n(2) by (simp add: s' path_frame lf_inv_def)
  show "loc_ok bump reclaim ?s' (ls[i := PushTry n (lf_head s) os]) (PushTry n (lf_head s) os)" by (simp add: s')
  fix j assume j: "j < length ls" "j \<noteq> i"
  have ok: "loc_ok bump reclaim s ls (ls ! j)" using inv j by (auto simp: lf_inv_def)
  then show "loc_ok bump reclaim ?s' (ls[i := PushTry n (lf_head s) os]) (ls ! j)"
  proof (rule loc_ok_keep)
    show "lf_head ?s' = lf_head s \<and> (fst (lf_head s) \<noteq> 0 \<longrightarrow> lf_heap ?s' (fst (lf_head s)) = lf_heap s (fst (lf_head s)))
       \<or> snd (lf_head s) < snd (lf_head ?s')" using n(4) by (simp add: s')
    have "ls ! i \<in> set ls" using i by simp
    then show "set (lf_alloc s) \<subseteq> set (lf_alloc ?s') \<and> (\<forall>p\<in>set (lf_alloc s). (\<forall>l\<in>set ls. pushing l \<noteq> Some p) \<longrightarrow>
      lf_heap ?s' p = lf_heap s p \<and> (\<forall>l\<in>set (ls[i := PushTry n (lf_head s) os]). pushing l \<noteq> Some p))"
      using l(2) by (auto simp: s' dest!: set_updD)
    show "lf_heap ?s' p = lf_heap s p" if "owns (ls ! j) = Some p" for p
      using n(5) [OF j] that by (auto simp: s')
  qed
qed (use inv l lf_inv_owned [OF inv i l(1)] in \<open>auto simp: lf_inv_def set_next_def\<close>)

text \<open>A successful CAS.\<close>

lemma lf_inv_cas:
  assumes inv: "lf_inv bump reclaim s ls as" and i: "i < length ls" and bump: "reclaim \<Longrightarrow> 0 < bump"
    and heap: "path (lf_heap s) p as'" "distinct as'" "set as' \<subseteq> set (lf_alloc s)"
    and own: "\<And>p. owns l' = Some p \<Longrightarrow> p \<in> set as \<and> p \<notin> set as'"
    and others: "\<And>p. p \<in> set as' \<Longrightarrow> p \<in> set as \<or> owns (ls ! i) = Some p"
    and l: "pushing l' = None" "loc_ok bump reclaim (s\<lparr>lf_head := (p, snd (lf_head s) + bump)\<rparr>) (ls[i := l']) l'"
  shows "lf_inv bump reclaim (s\<lparr>lf_head := (p, snd (lf_head s) + bump)\<rparr>) (ls[i := l']) as'"
proof (rule lf_inv_upd [OF inv i])
  let ?s' = "s\<lparr>lf_head := (p, snd (lf_head s) + bump)\<rparr>"
  fix j assume j: "j < length ls" "j \<noteq> i"
  then have "loc_ok bump reclaim s ls (ls ! j)" using inv by (auto simp: lf_inv_def)
  then show "loc_ok bump reclaim ?s' (ls[i := l']) (ls ! j)"
    by (rule loc_ok_keep) (use bump l(1) in \<open>auto dest!: set_updD\<close>)
qed (use inv heap own others l in \<open>auto simp: lf_inv_def\<close>)

lemma lf_inv_read:
  assumes inv: "lf_inv bump reclaim s ls as" and i: "i < length ls" and l: "ls ! i = PopRead p os"
  shows "lf_inv bump reclaim (if reclaim then (returns i r s)\<lparr>lf_alloc := removeAll p (lf_alloc s)\<rparr> else returns i r s) (ls[i := Next os]) as"
proof (rule lf_inv_upd [OF inv i])
  let ?s' = "if reclaim then (returns i r s)\<lparr>lf_alloc := removeAll p (lf_alloc s)\<rparr> else returns i r s"
  have "owns (ls ! i) = Some p" using l by simp
  note n = lf_inv_owned [OF inv i this]
  have s': "lf_head ?s' = lf_head s" "lf_heap ?s' = lf_heap s" "set (lf_alloc ?s') = (if reclaim then set (lf_alloc s) - {p} else set (lf_alloc s))"
    by (simp_all add: returns_def)
  show "set as \<subseteq> set (lf_alloc ?s')" using n(2) inv by (auto simp: s' lf_inv_def)
  show "distinct (lf_alloc ?s')" using inv by (auto simp: lf_inv_def returns_def distinct_removeAll)
  show "q \<in> set (lf_alloc ?s') \<and> q \<notin> set as" if "q \<in> set (lf_alloc s)" "q \<notin> set as" "owns (ls ! i) \<noteq> Some q" for q
    using that l by (auto simp: s')
  fix j assume j: "j < length ls" "j \<noteq> i"
  then have "loc_ok bump reclaim s ls (ls ! j)" using inv by (auto simp: lf_inv_def)
  then show "loc_ok bump reclaim ?s' (ls[i := Next os]) (ls ! j)"
    by (rule loc_ok_keep) (use s' in \<open>auto dest!: set_updD\<close>)
qed (use inv in \<open>auto simp: lf_inv_def returns_def\<close>)

text \<open>What a step of thread \<open>i\<close> amounts to, for the abstract stack with nodes \<open>as\<close> before and \<open>as'\<close> after it.\<close>

definition results :: "nat \<Rightarrow> 'a lf_state \<Rightarrow> 'a lf_loc \<Rightarrow> 'a option list" where
  "results i s l = lf_out s i @ pend s l"

definition vals :: "'a lf_state \<Rightarrow> nat list \<Rightarrow> 'a list" where
  "vals s as = map (\<lambda>a. fst (lf_heap s a)) as"

definition simulates :: "nat \<Rightarrow> 'a lf_state \<Rightarrow> 'a lf_loc \<Rightarrow> nat list \<Rightarrow> 'a lf_state \<Rightarrow> 'a lf_loc \<Rightarrow> nat list \<Rightarrow> bool" where
  "simulates i s l as s' l' as' \<longleftrightarrow>
     (vals s' as' = vals s as \<and> todo s' l' = todo s l \<and> results i s' l' = results i s l)
   \<or> (\<exists>v. todo s l = Push v # todo s' l' \<and> vals s' as' = v # vals s as \<and> results i s' l' = results i s l)
   \<or> (\<exists>v. todo s l = Pop # todo s' l' \<and> vals s as = v # vals s' as' \<and> results i s' l' = results i s l @ [Some v])
   \<or> (todo s l = Pop # todo s' l' \<and> vals s as = [] \<and> vals s' as' = [] \<and> results i s' l' = results i s l @ [None])"

lemma simulates_local:
  "vals s' as = vals s as \<Longrightarrow> todo s' l' = todo s l \<Longrightarrow> results i s' l' = results i s l \<Longrightarrow> simulates i s l as s' l' as"
  by (simp add: simulates_def)

text \<open>Loading the head is a pop of the empty stack when the head is null.\<close>

lemma simulates_load:
  assumes "lf_inv bump reclaim s ls as" "todo s l = Pop # os" "pend s l = []"
  shows "simulates i s l as s (PopNext (lf_head s) os) as"
proof (cases "fst (lf_head s) = 0")
  case True
  then have "as = []" using assms(1) by (cases "as") (auto simp: lf_inv_def)
  then show ?thesis using assms True by (simp add: simulates_def vals_def results_def)
qed (use assms in \<open>simp add: simulates_def results_def\<close>)

lemma lf_step:
  assumes inv: "lf_inv bump reclaim s ls as" and i: "i < length ls" and bump: "reclaim \<Longrightarrow> 0 < bump"
    and e: "(s', l') \<in> set (effects (lf_thread bump reclaim i (ls ! i)) s)"
  shows "\<exists>as'. lf_inv bump reclaim s' (ls[i := l']) as' \<and> simulates i s (ls ! i) as s' l' as'"
proof -
  have ok: "loc_ok bump reclaim s ls (ls ! i)" using inv i by (auto simp: lf_inv_def)
  have path: "path (lf_heap s) (fst (lf_head s)) as" "distinct as" "set as \<subseteq> set (lf_alloc s)" using inv by (auto simp: lf_inv_def)
  have cur: "cur_ok bump reclaim s (ls[i := PopNext (lf_head s) os]) (lf_head s)" for os
    by (rule cur_ok_head [OF _ i inv]) simp
  show ?thesis using e
  proof (cases rule: lf_cases)
    case (alloc v os n)
    have "lf_inv bump reclaim s' (ls[i := l']) as"
      unfolding alloc(4,5) by (rule lf_inv_alloc [OF inv i]) (use alloc in auto)
    moreover have "vals s' as = vals s as" using alloc path(3) by (auto simp: vals_def)
    then have "simulates i s (ls ! i) as s' l' as" using alloc by (intro simulates_local) (auto simp: results_def)
    ultimately show ?thesis by blast
  next
    case (load n os)
    have "lf_inv bump reclaim s' (ls[i := l']) as" unfolding load(2,3) by (rule lf_inv_write [OF inv i]) (use load in auto)
    moreover have "simulates i s (ls ! i) as s' l' as" using load by (intro simulates_local) (auto simp: results_def vals_def set_next_def)
    ultimately show ?thesis by blast
  next
    case (push_ok n cur os)
    have "owns (ls ! i) = Some n" using push_ok by simp
    note n = lf_inv_owned [OF inv i this]
    have s': "s' = s\<lparr>lf_head := (n, snd (lf_head s) + bump)\<rparr>" using push_ok by simp
    have nxt: "snd (lf_heap s n) = fst (lf_head s)" using ok push_ok by simp
    have "lf_inv bump reclaim s' (ls[i := l']) (n # as)" unfolding s'
      by (rule lf_inv_cas [OF inv i bump]) (use n path nxt push_ok in auto)
    moreover have "simulates i s (ls ! i) as s' l' (n # as)" using push_ok by (simp add: simulates_def results_def vals_def)
    ultimately show ?thesis by blast
  next
    case (push_fail n cur os)
    have "lf_inv bump reclaim s' (ls[i := l']) as" unfolding push_fail(2,3) by (rule lf_inv_write [OF inv i]) (use push_fail in auto)
    moreover have "simulates i s (ls ! i) as s' l' as"
      using push_fail by (intro simulates_local) (auto simp: results_def vals_def set_next_def)
    ultimately show ?thesis by blast
  next
    case (pop_load os)
    have "lf_inv bump reclaim s' (ls[i := l']) as"
      by (rule lf_inv_local [OF inv i]) (use pop_load cur in auto)
    then show ?thesis using pop_load simulates_load [OF inv, of "ls ! i" os i] by auto
  next
    case (pop_none cur os)
    have "lf_inv bump reclaim s' (ls[i := l']) as"
      by (rule lf_inv_local [OF inv i]) (use pop_none in \<open>auto simp: returns_def\<close>)
    moreover have "simulates i s (ls ! i) as s' l' as"
      using pop_none by (intro simulates_local) (auto simp: results_def vals_def returns_def)
    ultimately show ?thesis by blast
  next
    case (pop_next cur os)
    have "cur_ok bump reclaim s ls cur" using ok pop_next by simp
    then have "cur_ok bump reclaim s (ls[i := l']) cur" using pop_next by (auto simp: cur_ok_def dest!: set_updD)
    then have "lf_inv bump reclaim s' (ls[i := l']) as"
      by (intro lf_inv_local [OF inv i]) (use pop_next in auto)
    moreover have "simulates i s (ls ! i) as s' l' as" using pop_next by (intro simulates_local) (auto simp: results_def)
    ultimately show ?thesis by blast
  next
    case (pop_ok cur nxt os)
    then have nxt: "fst (lf_head s) \<noteq> 0" "nxt = snd (lf_heap s (fst (lf_head s)))" using ok by auto
    then obtain bs where bs: "as = fst (lf_head s) # bs" "path (lf_heap s) nxt bs" using path(1) by (cases "as") auto
    have s': "s' = s\<lparr>lf_head := (nxt, snd (lf_head s) + bump)\<rparr>" "l' = PopRead (fst (lf_head s)) os" using pop_ok by auto
    have "lf_inv bump reclaim s' (ls[i := l']) bs" unfolding s'
      by (rule lf_inv_cas [OF inv i bump]) (use bs path in auto)
    moreover have "simulates i s (ls ! i) as s' l' bs"
      using pop_ok bs by (simp add: simulates_def results_def vals_def)
    ultimately show ?thesis by blast
  next
    case (pop_fail cur nxt os)
    have "lf_inv bump reclaim s' (ls[i := l']) as"
      by (rule lf_inv_local [OF inv i]) (use pop_fail cur in auto)
    then show ?thesis using pop_fail simulates_load [OF inv, of "ls ! i" os i] by auto
  next
    case (read p os)
    have "lf_inv bump reclaim s' (ls[i := l']) as" unfolding read(2,3) by (rule lf_inv_read [OF inv i read(1)])
    moreover have "simulates i s (ls ! i) as s' l' as"
      using read by (intro simulates_local) (auto simp: results_def vals_def returns_def)
    ultimately show ?thesis by blast
  qed
qed

text \<open>Nobody else notices.\<close>

lemma lf_frame:
  assumes inv: "lf_inv bump reclaim s ls as" and e: "(s', l') \<in> set (effects (lf_thread bump reclaim i (ls ! i)) s)"
    and j: "j < length ls" "j \<noteq> i"
  shows "todo s' (ls ! j) = todo s (ls ! j)" "pend s' (ls ! j) = pend s (ls ! j)" "lf_out s' j = lf_out s j"
proof -
  have "\<forall>p\<in>set (lf_alloc s). fst (lf_heap s' p) = fst (lf_heap s p)"
    using e by (cases rule: lf_cases) (auto simp: set_next_def returns_def)
  moreover have "owns (ls ! j) = Some p \<Longrightarrow> p \<in> set (lf_alloc s)" for p
    using lf_inv_owned(1) [OF inv j(1)] by blast
  ultimately show "todo s' (ls ! j) = todo s (ls ! j)" "pend s' (ls ! j) = pend s (ls ! j)" by (cases "ls ! j"; simp)+
  show "lf_out s' j = lf_out s j" using e j(2) by (cases rule: lf_cases) (auto simp: set_next_def returns_def)
qed

lemma stack_of_vals: "lf_inv bump reclaim s ls as \<Longrightarrow> stack_of s = vals s as"
  by (simp add: stack_of_def vals_def lf_inv_nodes)

lemma lf_sim:
  assumes inv: "lf_inv bump reclaim s ls as" and i: "i < length ls" and bump: "reclaim \<Longrightarrow> 0 < bump"
    and e: "(s', l') \<in> set (effects (lf_thread bump reclaim i (ls ! i)) s)"
  shows "(lf_abs s' (ls[i := l']), map (todo s') (ls[i := l'])) = (lf_abs s ls, map (todo s) ls)
    \<or> (\<exists>k. astep spec_thread (lf_abs s ls, map (todo s) ls) (i, k) = Some (lf_abs s' (ls[i := l']), map (todo s') (ls[i := l'])))"
proof -
  obtain as' where inv': "lf_inv bump reclaim s' (ls[i := l']) as'" and sim: "simulates i s (ls ! i) as s' l' as'"
    using lf_step [OF inv i bump e] by blast
  note fr = lf_frame [OF inv e]
  have todos: "map (todo s') (ls[i := l']) = (map (todo s) ls)[i := todo s' l']"
    using i by (intro nth_equalityI) (simp_all add: nth_list_update fr(1))
  have outs: "sp_out (lf_abs s' (ls[i := l'])) = (sp_out (lf_abs s ls))(i := results i s' l')"
    using i fr(2,3) by (auto simp: lf_abs_def results_def fun_eq_iff nth_list_update)
      (use e in \<open>cases rule: lf_cases; simp add: set_next_def returns_def\<close>)
  have st: "sp_stack (lf_abs s ls) = vals s as" "sp_stack (lf_abs s' (ls[i := l'])) = vals s' as'"
    "sp_out (lf_abs s ls) i = results i s (ls ! i)"
    using i by (simp_all add: lf_abs_def results_def stack_of_vals [OF inv] stack_of_vals [OF inv'])
  obtain os where abs: "lf_abs s ls = \<lparr>sp_stack = vals s as, sp_out = os\<rparr>" and os: "os i = results i s (ls ! i)"
    using st(1,3) by (cases "lf_abs s ls") simp
  have abs': "lf_abs s' (ls[i := l']) = \<lparr>sp_stack = vals s' as', sp_out = os(i := results i s' l')\<rparr>"
    using st(2) outs abs by (cases "lf_abs s' (ls[i := l'])") simp
  have step: "\<exists>k. astep spec_thread (lf_abs s ls, map (todo s) ls) (i, k) = Some (lf_abs s' (ls[i := l']), map (todo s') (ls[i := l']))"
    if "effects (spec_thread i (todo s (ls ! i))) (lf_abs s ls) = [(lf_abs s' (ls[i := l']), todo s' l')]"
    using that i todos by (intro exI [of _ 0]) (simp add: astep_def)
  from sim consider
      (stay) "vals s' as' = vals s as" "todo s' l' = todo s (ls ! i)" "results i s' l' = results i s (ls ! i)"
    | (push) v where "todo s (ls ! i) = Push v # todo s' l'" "vals s' as' = v # vals s as" "results i s' l' = results i s (ls ! i)"
    | (pop) v where "todo s (ls ! i) = Pop # todo s' l'" "vals s as = v # vals s' as'" "results i s' l' = results i s (ls ! i) @ [Some v]"
    | (empty) "todo s (ls ! i) = Pop # todo s' l'" "vals s as = []" "vals s' as' = []" "results i s' l' = results i s (ls ! i) @ [None]"
    unfolding simulates_def by blast
  then show ?thesis
  proof cases
    case stay
    then have "map (todo s') (ls[i := l']) = map (todo s) ls" using todos i by (simp add: map_update [symmetric])
    moreover have "lf_abs s' (ls[i := l']) = lf_abs s ls" using stay os abs abs' by (simp add: fun_upd_idem)
    ultimately show ?thesis by simp
  next
    case (push v)
    then show ?thesis using os abs abs' by (intro disjI2 step) (simp add: fun_upd_idem)
  next
    case (pop v)
    then show ?thesis using os abs abs' by (intro disjI2 step) (simp add: fun_upd_idem)
  next
    case empty
    then show ?thesis using os abs' abs by (intro disjI2 step) simp
  qed
qed

lemma lf_refines_reach:
  assumes "reclaim \<Longrightarrow> 0 < bump" "reach (step (lf_thread bump reclaim)) (lf_start u progs) c"
  shows "reach (astep spec_thread) (spec_init, progs) (lf_abs (shared c) (locs c), map (todo (shared c)) (locs c))
    \<and> (\<exists>as. lf_inv bump reclaim (shared c) (locs c) as)"
proof -
  have "reach (astep (lf_thread bump reclaim)) (lf_init u, map Next progs) (shared c, locs c)"
    using step_refines_atomic assms(2) by (simp add: lf_start_def)
  then have "case (shared c, locs c) of (s, ls) \<Rightarrow> reach (astep spec_thread) (spec_init, progs) (lf_abs s ls, map (todo s) ls)
      \<and> (\<exists>as. lf_inv bump reclaim s ls as)"
  proof (rule reach_induct_inv)
    have "lf_abs (lf_init u) (map Next progs) = spec_init"
      by (auto simp: lf_abs_def spec_init_def stack_of_def nodes_def lf_init_def fun_eq_iff)
    moreover have "map (todo (lf_init u)) (map Next progs) = progs" by (simp add: comp_def)
    ultimately show "case (lf_init u, map Next progs) of (s, ls) \<Rightarrow>
        reach (astep spec_thread) (spec_init, progs) (lf_abs s ls, map (todo s) ls) \<and> (\<exists>as. lf_inv bump reclaim s ls as)"
      using lf_inv_init [of bump reclaim u progs] reach_refl by (metis (mono_tags, lifting) case_prod_conv)
  next
    fix d d' :: "'a lf_state \<times> 'a lf_loc list" and ev
    assume inv_d: "case d of (s, ls) \<Rightarrow> reach (astep spec_thread) (spec_init, progs) (lf_abs s ls, map (todo s) ls)
        \<and> (\<exists>as. lf_inv bump reclaim s ls as)" and st: "astep (lf_thread bump reclaim) d ev = Some d'"
    obtain s ls i k where d: "d = (s, ls)" "ev = (i, k)" by (cases d; cases ev)
    from inv_d d obtain as where r: "reach (astep spec_thread) (spec_init, progs) (lf_abs s ls, map (todo s) ls)"
      and inv: "lf_inv bump reclaim s ls as" by auto
    from st d obtain s' l' where i: "i < length ls" and e: "(s', l') \<in> set (effects (lf_thread bump reclaim i (ls ! i)) s)" and d': "d' = (s', ls[i := l'])"
      by (auto simp: astep_def split: if_splits prod.splits) (metis nth_mem)
    from lf_step [OF inv i assms(1) e] obtain as' where "lf_inv bump reclaim s' (ls[i := l']) as'" by blast
    moreover have "reach (astep spec_thread) (spec_init, progs) (lf_abs s' (ls[i := l']), map (todo s') (ls[i := l']))"
      using lf_sim [OF inv i assms(1) e] r by (metis reach_step)
    ultimately show "case d' of (s, ls) \<Rightarrow> reach (astep spec_thread) (spec_init, progs) (lf_abs s ls, map (todo s) ls)
        \<and> (\<exists>as. lf_inv bump reclaim s ls as)" by (auto simp: d')
  qed
  then show ?thesis by simp
qed

subsection \<open>The classes\<close>

definition LockFreeStack :: "nat \<Rightarrow> 'a lf_loc \<Rightarrow> ('a lf_state, 'a lf_loc) stmt" where
  "LockFreeStack = lf_thread 0 False"


text \<open>Treiber's stack with nodes that are freed, as the header of \<open>06_aba_problem.cpp\<close> describes it.\<close>

definition aba_stack :: "nat \<Rightarrow> 'a lf_loc \<Rightarrow> ('a lf_state, 'a lf_loc) stmt" where
  "aba_stack = lf_thread 0 True"

text \<open>The threads of \<open>05_lockfree_stack.cpp\<close> and the calls of \<open>main\<close> in \<open>06_aba_problem.cpp\<close>.\<close>

definition lockfree_main :: "nat \<Rightarrow> nat \<Rightarrow> int stack_op list list" where
  "lockfree_main N K = map (\<lambda>p. map (\<lambda>i. Push (int p * 1000 + int i)) [0..<K]) [0..<N]"


subsection \<open>What the specification conserves\<close>

fun pushes :: "'a stack_op list \<Rightarrow> 'a multiset" where
  "pushes [] = {#}"
| "pushes (Push v # os) = add_mset v (pushes os)"
| "pushes (Pop # os) = pushes os"

definition popped :: "'a option list \<Rightarrow> 'a multiset" where
  "popped rs = mset (map the (filter (\<lambda>r. r \<noteq> None) rs))"

definition spec_inv :: "'a stack_op list list \<Rightarrow> 'a stack_spec \<Rightarrow> 'a stack_op list list \<Rightarrow> bool" where
  "spec_inv progs s ls \<longleftrightarrow> length ls = length progs \<and>
     mset (sp_stack s) + (\<Sum>i<length ls. popped (sp_out s i)) + sum_list (map pushes ls) = sum_list (map pushes progs)"

lemma popped_simps [simp]: "popped [] = {#}" "popped (rs @ [None]) = popped rs" "popped (rs @ [Some v]) = add_mset v (popped rs)"
  by (simp_all add: popped_def)

lemma spec_inv_reach:
  assumes "reach (astep spec_thread) (spec_init, progs) d"
  shows "spec_inv progs (fst d) (snd d)"
  using assms
proof (rule reach_induct_inv)
  show "spec_inv progs (fst (spec_init, progs)) (snd (spec_init, progs))" by (simp add: spec_inv_def spec_init_def)
next
  fix d d' :: "'a stack_spec \<times> 'a stack_op list list" and ev
  assume inv: "spec_inv progs (fst d) (snd d)" and st: "astep spec_thread d ev = Some d'"
  obtain s ls i k where d: "d = (s, ls)" "ev = (i, k)" by (cases d; cases ev)
  with st obtain s' l' where i: "i < length ls" and e: "(s', l') \<in> set (effects (spec_thread i (ls ! i)) s)" and d': "d' = (s', ls[i := l'])"
    by (auto simp: astep_def split: if_splits prod.splits) (metis nth_mem)
  obtain R where R: "sum_list (map pushes ls) = R + pushes (ls ! i)" "\<And>x. sum_list (map pushes (ls[i := x])) = R + pushes x"
    using sum_list_split [OF i] by blast
  note upd = sum_fun_upd [OF i, of popped "sp_out s"]
  have len: "length ls = length progs"
    and inv: "mset (sp_stack s) + (\<Sum>i<length progs. popped (sp_out s i)) + sum_list (map pushes ls) = sum_list (map pushes progs)"
    using inv by (auto simp: spec_inv_def d)
  show "spec_inv progs (fst d') (snd d')"
  proof (cases "ls ! i")
    case (Cons p os)
    show ?thesis
    proof (cases p)
      case (Push v)
      then show ?thesis using Cons inv e by (auto simp: spec_inv_def d d' R len)
    next
      case Pop
      show ?thesis
      proof (cases "sp_stack s")
        case Nil
        then show ?thesis using Pop Cons inv e upd [of "sp_out s i @ [None]"] by (simp add: spec_inv_def d d' R len)
      next
        case (Cons v vs)
        then show ?thesis using Pop \<open>ls ! i = p # os\<close> inv e upd [of "sp_out s i @ [Some v]"] by (simp add: spec_inv_def d d' R len)
      qed
    qed
  qed (use e in simp)
qed

subsection \<open>Properties\<close>


definition lf_demo :: "(nat \<times> choice) list \<times> (int lf_state, int lf_loc) cfg" where
  "lf_demo = drive LockFreeStack [1, 0] 30 (lf_start 0 [[Push 7, Pop], [Pop, Push 8]])"





text \<open>Thread 0 is preempted between loading the head and its CAS; the address it holds is freed, used again, and freed.\<close>

definition aba_run :: "(nat \<times> choice) list" where
  "aba_run = map (\<lambda>i. (i, Norm 0)) ([1, 1, 1, 1, 1, 1] @ [0, 0] @ [1, 1, 1, 1] @ [1, 1, 1] @ [2, 2, 2] @ [1, 0])"

lemma aba_run: "case run (step aba_stack) (lf_start 0 [[Pop], [Push 10, Push 20, Pop, Pop], [Push 30]]) aba_run of
    None \<Rightarrow> False | Some c \<Rightarrow> fst (lf_head (shared c)) = 1 \<and> 1 \<notin> set (lf_alloc (shared c :: int lf_state))"
  by code_simp

text \<open>without a tag, freeing popped nodes corrupts the stack: there is a run of three threads after which the head points to a
  node that has been freed.\<close>

theorem aba_corrupts:
  "\<exists>progs c. reach (step aba_stack) (lf_start (0 :: int) progs) c
     \<and> fst (lf_head (shared c)) \<noteq> 0 \<and> fst (lf_head (shared c)) \<notin> set (lf_alloc (shared c))"
proof -
  from aba_run obtain c where r: "reach (step aba_stack) (lf_start (0 :: int) [[Pop], [Push 10, Push 20, Pop, Pop], [Push 30]]) c"
    and h: "fst (lf_head (shared c)) = 1" "1 \<notin> set (lf_alloc (shared c))"
    by (auto split: option.splits dest!: run_reach simp del: run.simps One_nat_def)
  then show ?thesis by (metis zero_neq_one)
qed

text \<open>nothing is lost or duplicated: when all threads of \<open>05_lockfree_stack.cpp\<close> have returned, the stack holds every value
  they pushed exactly once; with pops among the operations, what was popped and what is left add up to what was pushed.\<close>

theorem lockfree_stack_conserves:
  assumes "reach (step LockFreeStack) (lf_start u progs) c" "all_fin LockFreeStack c"
  shows "mset (stack_of (shared c)) + (\<Sum>i<length progs. popped (lf_out (shared c) i)) = sum_list (map pushes progs)
    \<and> (progs = lockfree_main N K \<longrightarrow> length (stack_of (shared c)) + size (\<Sum>i<N. popped (lf_out (shared c) i)) = N * K)"
proof -
  let ?s = "shared c" and ?ls = "locs c"
  have inv: "spec_inv progs (lf_abs ?s ?ls) (map (todo ?s) ?ls)"
    using spec_inv_reach [OF lf_refines_reach [of False 0 u progs c, THEN conjunct1]] assms(1) by (simp add: LockFreeStack_def)
  have len: "length ?ls = length progs" using inv by (simp add: spec_inv_def)
  have fin: "?ls ! i = Next []" if "i < length ?ls" for i
  proof -
    from that assms(2) obtain l where "thr c ! i = At l" "LockFreeStack i l = Fin" by (auto simp: all_fin_def)
    then have "loc (thr c ! i) = Next []" by (cases "(0 :: nat, False, i, l)" rule: lf_thread.cases) (auto simp: LockFreeStack_def)
    with that show ?thesis by simp
  qed
  have left: "sum_list (map pushes (map (todo ?s) ?ls)) = {#}"
  proof (rule sum_list_map_zero)
    fix os assume "os \<in> set (map (todo ?s) ?ls)"
    then obtain i where "i < length ?ls" "os = todo ?s (?ls ! i)" by (auto simp: in_set_conv_nth)
    then show "pushes os = {#}" using fin by simp
  qed
  have outs: "sp_out (lf_abs ?s ?ls) i = lf_out ?s i" if "i < length progs" for i
    using fin [of i] that len by (simp add: lf_abs_def)
  have total: "mset (stack_of ?s) + (\<Sum>i<length progs. popped (lf_out ?s i)) = sum_list (map pushes progs)"
  proof -
    have "(\<Sum>i<length progs. popped (sp_out (lf_abs ?s ?ls) i)) = (\<Sum>i<length progs. popped (lf_out ?s i))"
      by (rule sum.cong) (use outs in auto)
    moreover have "sp_stack (lf_abs ?s ?ls) = stack_of ?s" by (simp add: lf_abs_def)
    moreover from inv have "mset (sp_stack (lf_abs ?s ?ls)) + (\<Sum>i<length ?ls. popped (sp_out (lf_abs ?s ?ls) i))
        + sum_list (map pushes (map (todo ?s) ?ls)) = sum_list (map pushes progs)" unfolding spec_inv_def length_map by (rule conjunct2)
    ultimately show ?thesis unfolding left len by simp
  qed
  have "size (pushes (map (\<lambda>i. Push (f i)) xs)) = length xs" for f :: "nat \<Rightarrow> int" and xs by (induction xs) auto
  then have "size (sum_list (map pushes (lockfree_main N K))) = N * K"
    by (simp add: lockfree_main_def size_sum_list_mset comp_def sum_list_triv)
  moreover have "length (lockfree_main N K) = N" by (simp add: lockfree_main_def)
  ultimately have "progs = lockfree_main N K \<Longrightarrow> size (mset (stack_of ?s) + (\<Sum>i<N. popped (lf_out ?s i))) = N * K"
    using total by metis
  then show ?thesis using total by (simp only: size_union size_mset) blast
qed

lemma lf_demo_fin: "all_finb LockFreeStack (snd lf_demo)"
  by code_simp

theorem lockfree_stack_conserves_witness:
  "mset (stack_of (shared (snd lf_demo))) + (\<Sum>i<2. popped (lf_out (shared (snd lf_demo)) i)) = {#7, 8#}"
proof -
  have "reach (step LockFreeStack) (lf_start 0 [[Push 7, Pop], [Pop, Push 8]]) (snd lf_demo)" by (simp add: lf_demo_def drive_reach)
  from lockfree_stack_conserves [OF this, THEN conjunct1] lf_demo_fin show ?thesis
    by (simp add: all_finb numeral_2_eq_2 add_mset_commute)
qed

end
