(* ===== verification/Scripts.thy ===== *)
theory Scripts
  imports Progress
begin

text \<open>
  Threads given as lists of commands. A command of the program text is executed in one atomic
  step, which may block (no outcome) and may put commands in front of the rest of the list (a
  loop that goes on, a branch taken). Mutexes, read-write locks, barriers and so on are then
  part of the state the commands act on. The theory has what all these programs share: what a
  state in which nothing moves looks like, invariants, and a bound on the number of steps.
\<close>

lemma astepI:
  assumes "i < length ls" "(s', l') \<in> set (effects (P i (ls ! i)) s)"
  shows "reach (astep P) (s, ls) (s', ls[i := l'])"
proof -
  obtain k where "k < length (effects (P i (ls ! i)) s)" "effects (P i (ls ! i)) s ! k = (s', l')"
    using assms(2) by (auto simp: in_set_conv_nth)
  then have "astep P (s, ls) (i, k) = Some (s', ls[i := l'])" using assms(1) by (simp add: astep_def)
  then show ?thesis by (rule reach_step [OF reach_refl])
qed

subsection \<open>Programs without monitors\<close>

text \<open>
  A program whose statements are all atomic actions is always between two statements, and its
  steps are those of the atomic machine.
\<close>

locale act_only =
  fixes P :: "('s, 'l) prog"
  assumes no_monitor: "P i l \<noteq> Monitor m w b"
begin

lemma act_at: "reach (step P) (start s0 ps) c \<Longrightarrow> thr c = map At (locs c)"
proof (induction rule: reach.induct)
  case reach_refl
  show ?case by (simp add: start_def locs_def)
next
  case (reach_step c e d)
  have at: "\<exists>l. thr c ! i = At l" if "i < length (thr c)" for i
    using arg_cong [OF reach_step.IH, of "\<lambda>xs. xs ! i"] that by (simp add: exI)
  from reach_step(2) have "step P c (fst e, snd e) = Some d" by simp
  then show ?case
  proof (cases rule: step_cases)
    case (act k l f s' l')
    then show ?thesis using arg_cong [OF reach_step.IH, of "\<lambda>xs. xs[fst e := At l']"] by (simp add: map_update del: nth_locs)
  next
    case (acquire l m w b)
    then show ?thesis using no_monitor by simp
  qed (use at in fastforce)+
qed

lemma act_step:
  assumes "thr c = map At (locs c)" "step P c e = Some d"
  shows "\<exists>k. astep P (shared c, locs c) (fst e, k) = Some (shared d, locs d)"
proof -
  have at: "\<exists>l. thr c ! i = At l" if "i < length (thr c)" for i using arg_cong [OF assms(1), of "\<lambda>xs. xs ! i"] that by (simp add: exI)
  from assms(2) have "step P c (fst e, snd e) = Some d" by simp
  then show ?thesis
  proof (cases rule: step_cases)
    case (act k l f s' l')
    then have "astep P (shared c, locs c) (fst e, k) = Some (shared d, locs d)" by (simp add: astep_def)
    then show ?thesis by blast
  next
    case (acquire l m w b)
    then show ?thesis using no_monitor by simp
  qed (use at in fastforce)+
qed

lemma act_run:
  assumes "reach (step P) (start s0 ps) c" "run (step P) c es = Some d"
  shows "\<exists>fs. length fs = length es \<and> run (astep P) (shared c, locs c) fs = Some (shared d, locs d)"
  using assms
proof (induction es arbitrary: c)
  case (Cons e es)
  then obtain c' where c': "step P c e = Some c'" "run (step P) c' es = Some d" by (auto split: option.splits)
  obtain k where "astep P (shared c, locs c) (fst e, k) = Some (shared c', locs c')"
    using act_step [OF act_at [OF Cons.prems(1)] c'(1)] by blast
  moreover obtain fs where "length fs = length es" "run (astep P) (shared c', locs c') fs = Some (shared d, locs d)"
    using Cons.IH [OF reach_step [OF Cons.prems(1) c'(1)] c'(2)] by blast
  ultimately show ?case by (intro exI [where x = "(fst e, k) # fs"]) simp
qed simp

lemma act_stuck:
  assumes "reach (step P) (start s0 ps) c" "stuck P c" "i < length ps"
  shows "thr c ! i = At (locs c ! i) \<and> (P i (locs c ! i) = Fin \<or> effects (P i (locs c ! i)) (shared c) = [])"
proof -
  note ok = reach_ok [OF assms(1)]
  have i: "i < length (thr c)" using assms(3) ok(4) by simp
  from assms(2) i ok(1,2) show ?thesis by (cases rule: stuck_cases) (use i no_monitor in auto)
qed

lemma act_fin:
  assumes "reach (step P) (start s0 ps) c" "\<And>i. i < length ps \<Longrightarrow> P i (locs c ! i) = Fin"
  shows "all_fin P c"
  using act_at [OF assms(1)] assms(2) reach_ok(4) [OF assms(1)] unfolding all_fin_def
  by (metis length_locs nth_map)

text \<open>
  A potential that falls with every step from some moment on bounds the rest of the run. \<open>J\<close> is
  what holds from that moment.
\<close>

lemma act_run_bound:
  assumes r: "reach (step P) (start s0 ps) c" and run: "run (step P) c es = Some d" and J: "J (shared c) (locs c)"
    and step: "\<And>s ls i s' l'. J s ls \<Longrightarrow> i < length ls \<Longrightarrow> (s', l') \<in> set (effects (P i (ls ! i)) s) \<Longrightarrow>
      J s' (ls[i := l']) \<and> pot s' (ls[i := l']) < (pot s ls :: nat)"
  shows "J (shared d) (locs d) \<and> length es + pot (shared d) (locs d) \<le> pot (shared c) (locs c)"
proof -
  obtain fs where fs: "length fs = length es" "run (astep P) (shared c, locs c) fs = Some (shared d, locs d)"
    using act_run [OF r run] by blast
  have "J s' ls' \<and> length fs + pot s' ls' \<le> pot s ls" if "run (astep P) (s, ls) fs = Some (s', ls')" "J s ls" for s ls s' ls'
    using that
  proof (induction fs arbitrary: s ls)
    case (Cons e fs)
    then obtain s1 ls1 where st: "astep P (s, ls) e = Some (s1, ls1)" "run (astep P) (s1, ls1) fs = Some (s', ls')"
      by (auto split: option.splits)
    then obtain l' where l': "fst e < length ls" "(s1, l') \<in> set (effects (P (fst e) (ls ! fst e)) s)" "ls1 = ls[fst e := l']"
      by (cases e) (auto simp: astep_def split: if_splits prod.splits intro: nth_mem_eq)
    show ?case using Cons.IH [OF st(2)] step [OF Cons.prems(2) l'(1,2)] l'(3) by auto
  qed simp
  from this [OF fs(2) J] show ?thesis using fs(1) by simp
qed

text \<open>Conversely a step of the atomic machine is a step of the machine.\<close>

lemma act_lift:
  assumes "reach (astep P) (shared c, locs c) p" "thr c = map At (locs c)"
  shows "\<exists>d. reach (step P) c d \<and> shared d = fst p \<and> locs d = snd p \<and> thr d = map At (locs d)"
  using assms(1)
proof (induction rule: reach.induct)
  case reach_refl
  show ?case using assms(2) by (intro exI [where x = c]) (simp add: reach.reach_refl)
next
  case (reach_step p e p')
  then obtain d where d: "reach (step P) c d" "shared d = fst p" "locs d = snd p" "thr d = map At (locs d)" by blast
  obtain i k where e: "e = (i, k)" by (cases e)
  obtain s' l' where i: "i < length (snd p)" "k < length (effects (P i (snd p ! i)) (fst p))"
    and o: "effects (P i (snd p ! i)) (fst p) ! k = (s', l')" "p' = (s', (snd p)[i := l'])"
    using reach_step(2) by (cases p) (auto simp: e astep_def split: if_splits prod.splits)
  obtain f where f: "P i (snd p ! i) = Act f" using i(2) no_monitor by (cases "P i (snd p ! i)") auto
  have "thr d ! i = At (snd p ! i)" "i < length (thr d)" using i(1) d(3,4) by (simp_all del: nth_locs)
  then have "step P d (i, Norm k) = Some (set_thr i (At l') (d\<lparr>shared := s'\<rparr>))"
    using i o f d(2) by (simp add: step_def step_at_def)
  then have "reach (step P) c (set_thr i (At l') (d\<lparr>shared := s'\<rparr>))" by (rule reach.reach_step [OF d(1)])
  then show ?case using o d by (intro exI) (auto simp: map_update simp del: nth_locs)
qed

end

text \<open>
  A program of which some continuation always comes closer to the end can always be finished:
  whatever has happened so far, there is a schedule under which every thread returns.
\<close>

locale may_finish = act_only P + monitor_invariant P s0 ls0 I
  for P :: "('s, 'l) prog" and s0 ls0 I +
  fixes todo :: "'s \<Rightarrow> 'l list \<Rightarrow> nat"
  assumes closer: "I s ls \<Longrightarrow> i < length ls \<Longrightarrow> P i (ls ! i) \<noteq> Fin \<Longrightarrow> \<exists>s' ls'. reach (astep P) (s, ls) (s', ls') \<and> todo s' ls' < todo s ls"
begin

lemma can_finish:
  assumes "reach (step P) (start s0 ls0) c"
  shows "\<exists>d. reach (step P) c d \<and> all_fin P d"
  using assms
proof (induction "todo (shared c) (locs c)" arbitrary: c rule: less_induct)
  case less
  note at = act_at [OF less.prems]
  show ?case
  proof (cases "all_fin P c")
    case False
    have "\<exists>i<length (thr c). P i (locs c ! i) \<noteq> Fin"
    proof (rule ccontr)
      assume a: "\<not> (\<exists>i<length (thr c). P i (locs c ! i) \<noteq> Fin)"
      have "thr c ! i = At (locs c ! i) \<and> P i (locs c ! i) = Fin" if "i < length (thr c)" for i
        using a that arg_cong [OF at, of "\<lambda>xs. xs ! i"] by (simp del: nth_locs)
      then show False using False unfolding all_fin_def by blast
    qed
    then obtain s' ls' where c': "reach (astep P) (shared c, locs c) (s', ls')" "todo s' ls' < todo (shared c) (locs c)"
      using closer [OF I_reach [OF less.prems]] by fastforce
    then obtain d where d: "reach (step P) c d" "shared d = s'" "locs d = ls'" using act_lift [OF c'(1) at] by auto
    then show ?thesis using less.hyps [of d] c'(2) reach_trans [OF less.prems d(1)] by (metis reach_trans)
  qed (auto intro: reach_refl)
qed

text \<open>So it is never stuck before all threads have returned.\<close>

lemma stuck_fin:
  assumes "reach (step P) (start s0 ls0) c" "stuck P c"
  shows "all_fin P c"
proof -
  obtain d where d: "reach (step P) c d" "all_fin P d" using can_finish [OF assms(1)] by blast
  have at: "\<exists>l. thr c ! i = At l" if "i < length (thr c)" for i
    using arg_cong [OF act_at [OF assms(1)], of "\<lambda>xs. xs ! i"] that by (simp add: exI)
  have none: "step P c e = None" for e
  proof (rule ccontr)
    assume "step P c e \<noteq> None"
    then obtain c' where c': "step P c (fst e, snd e) = Some c'" by auto
    then show False
    proof (cases rule: step_cases)
      case (act k l f s' l')
      then show ?thesis using assms(2) c' unfolding stuck_def by simp
    next
      case (acquire l m w b)
      then show ?thesis using no_monitor by simp
    qed (use at in fastforce)+
  qed
  have "d = c" using d(1) none by (induction rule: reach.induct) auto
  then show ?thesis using d(2) by simp
qed

end

subsection \<open>Lists of commands\<close>

fun script :: "(nat \<Rightarrow> 'c \<Rightarrow> 's \<Rightarrow> ('s \<times> 'c list) list) \<Rightarrow> nat \<Rightarrow> 'c list \<Rightarrow> ('s, 'c list) stmt" where
  "script ex i [] = Fin"
| "script ex i (c # cs) = Act (\<lambda>s. map (\<lambda>(s', ds). (s', ds @ cs)) (ex i c s))"

text \<open>Commands that are executed once: the outcomes are just the new states.\<close>

definition once :: "(nat \<Rightarrow> 'c \<Rightarrow> 's \<Rightarrow> 's list) \<Rightarrow> nat \<Rightarrow> 'c \<Rightarrow> 's \<Rightarrow> ('s \<times> 'c list) list" where
  "once ex i c s = map (\<lambda>s'. (s', [])) (ex i c s)"

lemma in_once [simp]: "(s', ds) \<in> set (once ex i c s) \<longleftrightarrow> s' \<in> set (ex i c s) \<and> ds = []"
  by (auto simp: once_def)

lemma once_Nil [simp]: "once ex i c s = [] \<longleftrightarrow> ex i c s = []"
  by (simp add: once_def)

lemma script_Fin [simp]: "script ex i l = Fin \<longleftrightarrow> l = []"
  by (cases l) auto

lemma script_not_Monitor [simp]: "script ex i l \<noteq> Monitor m w b"
  by (cases l) auto

interpretation script: act_only "script ex" for ex
  by unfold_locales simp

lemma script_effectE:
  assumes "(s', l') \<in> set (effects (script ex i l) s)"
  obtains c cs ds where "l = c # cs" "(s', ds) \<in> set (ex i c s)" "l' = ds @ cs"
  using assms by (cases l) auto

text \<open>In a state without enabled steps every thread has returned or is blocked in its next command.\<close>

lemma script_stuckD:
  assumes "reach (step (script ex)) (start s0 ps) c" "stuck (script ex) c" "i < length ps"
  shows "thr c ! i = At (locs c ! i) \<and> (locs c ! i = [] \<or> (\<exists>d ds. locs c ! i = d # ds \<and> ex i d (shared c) = []))"
  using script.act_stuck [OF assms] by (cases "locs c ! i") auto

lemma script_all_fin:
  assumes "reach (step (script ex)) (start s0 ps) c" "stuck (script ex) c"
  shows "all_fin (script ex) c \<longleftrightarrow> (\<forall>i<length ps. locs c ! i = [])"
  unfolding all_fin_def using script_stuckD [OF assms] reach_ok(4) [OF assms(1)] by (auto simp del: nth_locs)

lemma all_fin_locs: "all_fin (script ex) c \<Longrightarrow> locs c = replicate (length (thr c)) []"
  by (intro nth_equalityI) (auto simp: all_fin_def)

lemma all_fin_nth: "all_fin (script ex) c \<Longrightarrow> i < length (thr c) \<Longrightarrow> locs c ! i = []"
  by (simp add: all_fin_locs del: nth_locs)

text \<open>The reachable states are exactly those of the atomic machine, with every thread between two commands.\<close>

lemma astep_script:
  assumes "astep (script ex) (s, ls) (i, k) = Some (s', ls')"
  shows "step (script ex) (start s ls) (i, Norm k) = Some (start s' ls')"
proof -
  have i: "i < length ls" and k: "k < length (effects (script ex i (ls ! i)) s)"
    and e: "effects (script ex i (ls ! i)) s ! k = (s', ls' ! i)" "ls' = ls[i := ls' ! i]"
    using assms by (auto simp: astep_def split: if_splits prod.splits)
  obtain c cs where l: "ls ! i = c # cs" using k by (cases "ls ! i") auto
  have "(map At ls)[i := At (ls' ! i)] = map At ls'" by (subst (2) e(2)) (simp add: map_update)
  then show ?thesis using i k e(1) l
    by (auto simp: step_def start_def step_at_def set_thr_def Let_def split: prod.splits)
qed

lemma script_reach_astep:
  "reach (astep (script ex)) (s0, ps) (s, ls) \<longleftrightarrow> reach (step (script ex)) (start s0 ps) (start s ls)"
proof
  assume "reach (step (script ex)) (start s0 ps) (start s ls)"
  from step_refines_atomic [OF this] show "reach (astep (script ex)) (s0, ps) (s, ls)"
    by (simp add: start_def locs_def comp_def)
next
  have "reach (step (script ex)) (start s0 ps) (start (fst c) (snd c))" if "reach (astep (script ex)) (s0, ps) c" for c
    using that
  proof (induction rule: reach.induct)
    case (reach_step c e c')
    then show ?case using astep_script [of ex "fst c" "snd c" "fst e" "snd e" "fst c'" "snd c'"]
      by (auto intro: reach.reach_step)
  qed (simp add: reach_refl)
  from this [of "(s, ls)"] show "reach (astep (script ex)) (s0, ps) (s, ls) \<Longrightarrow> reach (step (script ex)) (start s0 ps) (start s ls)"
    by simp
qed

subsection \<open>Invariants and termination\<close>

locale script_invariant =
  fixes ex :: "nat \<Rightarrow> 'c \<Rightarrow> 's \<Rightarrow> ('s \<times> 'c list) list" and s0 :: 's and ps :: "'c list list"
    and I :: "'s \<Rightarrow> 'c list list \<Rightarrow> bool"
  assumes script_init: "I s0 ps"
    and script_step: "I s ls \<Longrightarrow> i < length ls \<Longrightarrow> ls ! i = c # cs \<Longrightarrow> (s', ds) \<in> set (ex i c s) \<Longrightarrow> I s' (ls[i := ds @ cs])"

sublocale script_invariant \<subseteq> monitor_invariant "script ex" s0 ps I
  by unfold_locales (auto intro: script_init script_step elim!: script_effectE)

context script_invariant
begin

lemma script_reach: "reach (step (script ex)) (start s0 ps) c \<Longrightarrow> I (shared c) (locs c)"
  by (rule I_reach)

end

text \<open>A weight per command that covers the commands it may put in front.\<close>

definition weigh :: "('c \<Rightarrow> nat) \<Rightarrow> 'c list \<Rightarrow> nat" where
  "weigh wt cs = sum_list (map wt cs)"

lemma weigh_simps [simp]: "weigh wt [] = 0" "weigh wt (c # cs) = wt c + weigh wt cs" "weigh wt (cs @ ds) = weigh wt cs + weigh wt ds"
  by (simp_all add: weigh_def)

locale script_terminating =
  fixes ex :: "nat \<Rightarrow> 'c \<Rightarrow> 's \<Rightarrow> ('s \<times> 'c list) list" and wt :: "'c \<Rightarrow> nat"
  assumes weight_step: "(s', ds) \<in> set (ex i c s) \<Longrightarrow> weigh wt ds < wt c"
begin

lemma script_terminating:
  "terminating (script ex) s0 ps (\<lambda>s ls. True) (\<lambda>s ls. sum_list (map (weigh wt) ls)) 0"
proof unfold_locales
  fix s ls i s' l' assume i: "i < length (ls :: 'c list list)" and "(s', l') \<in> set (effects (script ex i (ls ! i)) s)"
  then obtain c cs ds where l: "ls ! i = c # cs" "(s', ds) \<in> set (ex i c s)" "l' = ds @ cs" by (auto elim: script_effectE)
  obtain R where "sum_list (map (weigh wt) ls) = R + weigh wt (ls ! i)" "\<And>x. sum_list (map (weigh wt) (ls[i := x])) = R + weigh wt x"
    using sum_list_split [OF i] by blast
  then show "sum_list (map (weigh wt) (ls[i := l'])) < sum_list (map (weigh wt) ls)" using weight_step [OF l(2)] l by simp
qed auto

lemma script_bounded:
  assumes "run (step (script ex)) (start s0 ps) es = Some c"
  shows "length es \<le> 4 * sum_list (map (weigh wt) ps) + 2 * length ps + 3 * spurs es"
  using terminating.run_bounded [OF script_terminating assms] by (simp add: terminating.fee_def [OF script_terminating])

end

text \<open>Commands that are executed once weigh 1.\<close>

interpretation once: script_terminating "once ex" "\<lambda>_. 1" for ex
  by unfold_locales simp

lemma weigh_length: "weigh (\<lambda>_. 1) = length"
  by (simp add: weigh_def [abs_def] sum_list_triv)

lemma once_bounded:
  assumes "run (step (script (once ex))) (start s0 ps) es = Some c"
  shows "length es \<le> 4 * sum_list (map length ps) + 2 * length ps + 3 * spurs es"
  using once.script_bounded [OF assms] unfolding weigh_length .

end
