(* ===== verification/RWLocks.thy ===== *)
theory RWLocks
  imports Scripts Pipeline
begin

text \<open>
  Read-write locks and two programs that use them: \<open>examples/01_pthreads/04_rwlock/01_rwlock_basic.c\<close> and
  \<open>examples/02_cpp11_threads/02_mutex/07_shared_mutex.cpp\<close> with its class \<open>Config\<close>. The provider of the contract of
  a read-write lock is \<open>std::shared_mutex\<close> (and \<open>pthread_rwlock_t\<close>); a \<open>std::mutex\<close> is one that is only taken
  in exclusive mode. Shown once for every lock that meets the contract and every program that holds one
  lock at a time: a writer is alone, and nothing deadlocks.
\<close>

subsection \<open>Locks with two modes\<close>

datatype mode = Shared | Excl

text \<open>\<open>acq m k\<close>: the lock after a thread has got it in mode \<open>m\<close>, \<open>None\<close> while the thread has to wait.\<close>

locale rw_lock =
  fixes acq :: "mode \<Rightarrow> 'k \<Rightarrow> 'k option" and rel :: "mode \<Rightarrow> 'k \<Rightarrow> 'k"
    and readers :: "'k \<Rightarrow> nat" and writers :: "'k \<Rightarrow> nat" and fresh :: 'k
  assumes fresh_idle: "readers fresh = 0" "writers fresh = 0"
    and acq_shared: "acq Shared k = Some k' \<Longrightarrow> writers k = 0 \<and> readers k' = Suc (readers k) \<and> writers k' = 0"
    and acq_excl: "acq Excl k = Some k' \<Longrightarrow> writers k = 0 \<and> readers k = 0 \<and> readers k' = 0 \<and> writers k' = 1"
    and acq_wait: "acq m k = None \<Longrightarrow> 0 < readers k + writers k"
    and rel_shared: "0 < readers k \<Longrightarrow> readers (rel Shared k) = readers k - 1 \<and> writers (rel Shared k) = writers k"
    and rel_excl: "writers k = 1 \<Longrightarrow> readers (rel Excl k) = readers k \<and> writers (rel Excl k) = 0"

text \<open>\<open>std::shared_mutex\<close>, \<open>pthread_rwlock_t\<close>: the state matrix in the header of \<open>01_rwlock_basic.c\<close>.\<close>

record rwl =
  rl_readers :: nat
  rl_writer :: bool

definition rw_free :: rwl where
  "rw_free = \<lparr>rl_readers = 0, rl_writer = False\<rparr>"

fun rw_acquire :: "mode \<Rightarrow> rwl \<Rightarrow> rwl option" where
  "rw_acquire Shared k = (if rl_writer k then None else Some (k\<lparr>rl_readers := Suc (rl_readers k)\<rparr>))"
| "rw_acquire Excl k = (if rl_writer k \<or> 0 < rl_readers k then None else Some (k\<lparr>rl_writer := True\<rparr>))"

fun rw_release :: "mode \<Rightarrow> rwl \<Rightarrow> rwl" where
  "rw_release Shared k = k\<lparr>rl_readers := rl_readers k - 1\<rparr>"
| "rw_release Excl k = k\<lparr>rl_writer := False\<rparr>"

fun_cases rw_acquire_SharedE: "rw_acquire Shared k = Some k'"
  and rw_acquire_ExclE: "rw_acquire Excl k = Some k'"

interpretation shared_mutex: rw_lock rw_acquire rw_release rl_readers "\<lambda>k. of_bool (rl_writer k)" rw_free
proof
  show "rw_acquire m k = None \<Longrightarrow> 0 < rl_readers k + of_bool (rl_writer k)" for m k by (cases m) (auto split: if_splits)
qed (auto simp: rw_free_def elim!: rw_acquire_SharedE rw_acquire_ExclE split: if_splits)

subsection \<open>Programs\<close>

text \<open>A thread locks and unlocks numbered locks and acts on the data in between.\<close>

datatype 'd rwc = Acq nat mode | Rel nat mode | Do 'd

fun rw_exec :: "(mode \<Rightarrow> 'k \<Rightarrow> 'k option) \<Rightarrow> (mode \<Rightarrow> 'k \<Rightarrow> 'k) \<Rightarrow> (nat \<Rightarrow> 'd \<Rightarrow> 's \<Rightarrow> 's list) \<Rightarrow>
    nat \<Rightarrow> 'd rwc \<Rightarrow> (nat \<Rightarrow> 'k) \<times> 's \<Rightarrow> ((nat \<Rightarrow> 'k) \<times> 's) list" where
  "rw_exec acq rel dex i (Acq n m) (L, s) = (case acq m (L n) of None \<Rightarrow> [] | Some k \<Rightarrow> [(L(n := k), s)])"
| "rw_exec acq rel dex i (Rel n m) (L, s) = [(L(n := rel m (L n)), s)]"
| "rw_exec acq rel dex i (Do d) (L, s) = map (Pair L) (dex i d s)"

definition rw_thread :: "(mode \<Rightarrow> 'k \<Rightarrow> 'k option) \<Rightarrow> (mode \<Rightarrow> 'k \<Rightarrow> 'k) \<Rightarrow> (nat \<Rightarrow> 'd \<Rightarrow> 's \<Rightarrow> 's list) \<Rightarrow>
    nat \<Rightarrow> 'd rwc list \<Rightarrow> ((nat \<Rightarrow> 'k) \<times> 's, 'd rwc list) stmt" where
  "rw_thread acq rel dex = script (once (rw_exec acq rel dex))"

definition rw_start :: "'k \<Rightarrow> 's \<Rightarrow> 'd rwc list list \<Rightarrow> ((nat \<Rightarrow> 'k) \<times> 's, 'd rwc list) cfg" where
  "rw_start fresh s ps = start (\<lambda>_. fresh, s) ps"

text \<open>The lock a thread holds is the one it releases next.\<close>

fun holding :: "'d rwc list \<Rightarrow> (nat \<times> mode) option" where
  "holding [] = None"
| "holding (Acq n m # cs) = None"
| "holding (Rel n m # cs) = Some (n, m)"
| "holding (Do d # cs) = holding cs"

text \<open>A program that holds at most one lock at a time and releases it.\<close>

fun one_lock :: "(nat \<times> mode) option \<Rightarrow> 'd rwc list \<Rightarrow> bool" where
  "one_lock h [] = (h = None)"
| "one_lock h (Acq n m # cs) = (h = None \<and> one_lock (Some (n, m)) cs)"
| "one_lock h (Rel n m # cs) = (h = Some (n, m) \<and> one_lock None cs)"
| "one_lock h (Do d # cs) = one_lock h cs"

lemma one_lock_holding: "one_lock h cs \<Longrightarrow> h = holding cs"
  by (induction cs arbitrary: h rule: holding.induct) auto

lemma one_lock_append: "one_lock h cs \<Longrightarrow> one_lock h (cs @ ds) = one_lock None ds"
  by (induction h cs rule: one_lock.induct) auto

lemma one_lock_concat: "(\<And>cs. cs \<in> set css \<Longrightarrow> one_lock None cs) \<Longrightarrow> one_lock None (concat css)"
  by (induction css) (auto simp: one_lock_append)

text \<open>
  \<open>x += e\<close> on a plain variable is a load \<open>ld\<close> into a register and a store \<open>st\<close>. In a program of which
  \<open>incs_ok ld st n\<close> holds the store follows its load and lock \<open>n\<close> is held exclusively; then no two threads are
  between load and store.
\<close>

fun store_next :: "'d \<Rightarrow> 'd rwc list \<Rightarrow> bool" where
  "store_next st [] = False"
| "store_next st (c # cs) = (c = Do st)"

fun incs_ok :: "'d \<Rightarrow> 'd \<Rightarrow> nat \<Rightarrow> 'd rwc list \<Rightarrow> bool" where
  "incs_ok ld st n [] = True"
| "incs_ok ld st n (c # cs) = (store_next st cs = (c = Do ld) \<and> (c = Do st \<longrightarrow> holding cs = Some (n, Excl)) \<and> incs_ok ld st n cs)"

lemma store_next_iff: "store_next st cs \<longleftrightarrow> (\<exists>ds. cs = Do st # ds)"
  by (cases cs) auto

lemma store_next_holds: "store_next st cs \<Longrightarrow> incs_ok ld st n cs \<Longrightarrow> holding cs = Some (n, Excl)"
  by (cases cs) auto

context rw_lock
begin

text \<open>What a lock records is who holds it.\<close>

definition locks_ok :: "(nat \<Rightarrow> 'k) \<Rightarrow> 'd rwc list list \<Rightarrow> bool" where
  "locks_ok L ls \<longleftrightarrow> (\<forall>cs\<in>set ls. one_lock (holding cs) cs) \<and>
     (\<forall>n. readers (L n) = sum_list (map (\<lambda>cs. of_bool (holding cs = Some (n, Shared))) ls) \<and>
          writers (L n) = sum_list (map (\<lambda>cs. of_bool (holding cs = Some (n, Excl))) ls) \<and>
          writers (L n) \<le> 1 \<and> (writers (L n) = 1 \<longrightarrow> readers (L n) = 0))"

lemma locks_okD:
  assumes "locks_ok L ls"
  shows "cs \<in> set ls \<Longrightarrow> one_lock (holding cs) cs"
    "readers (L n) = sum_list (map (\<lambda>cs. of_bool (holding cs = Some (n, Shared))) ls)"
    "writers (L n) = sum_list (map (\<lambda>cs. of_bool (holding cs = Some (n, Excl))) ls)"
    "writers (L n) \<le> 1" "writers (L n) = 1 \<Longrightarrow> readers (L n) = 0"
  using assms unfolding locks_ok_def by blast+

lemma locks_ok_init:
  assumes "\<And>cs. cs \<in> set ps \<Longrightarrow> one_lock None cs"
  shows "locks_ok (\<lambda>_. fresh) ps"
proof -
  have "holding cs = None" if "cs \<in> set ps" for cs using one_lock_holding [OF assms [OF that]] by simp
  then show ?thesis using assms by (auto simp: locks_ok_def fresh_idle intro!: sum_list_map_zero [symmetric])
qed

lemma locks_ok_step:
  assumes ok: "locks_ok L (ls :: 'd rwc list list)" and i: "i < length ls" "ls ! i = c # cs" and e: "(L', s') \<in> set (rw_exec acq rel dex j c (L, s))"
  shows "locks_ok L' (ls[i := cs])"
proof -
  have one: "one_lock (holding (c # cs)) (c # cs)" using locks_okD(1) [OF ok nth_mem [OF i(1)]] i(2) by simp
  have set: "\<forall>cs'\<in>set (ls[i := cs]). one_lock (holding cs') cs'" if "one_lock (holding cs) cs"
    using that locks_okD(1) [OF ok] i(1) by (auto simp: all_set_upd)
  have count: "sum_list (map f (ls[i := cs])) + f (c # cs) = sum_list (map f ls) + f cs" for f :: "'d rwc list \<Rightarrow> nat"
    using sum_list_map_upd [OF i(1), of f cs] i(2) by simp
  note r = locks_okD(2) [OF ok] and w = locks_okD(3) [OF ok] and le = locks_okD(4,5) [OF ok]
  let ?R = "\<lambda>n cs. of_bool (holding cs = Some (n, Shared)) :: nat" and ?W = "\<lambda>n cs. of_bool (holding cs = Some (n, Excl)) :: nat"
  have counts: "readers (L n) + ?R n cs = sum_list (map (?R n) (ls[i := cs])) + ?R n (c # cs)"
    "writers (L n) + ?W n cs = sum_list (map (?W n) (ls[i := cs])) + ?W n (c # cs)" for n
    unfolding r w using count [of "?R n"] count [of "?W n"] by simp_all
  show ?thesis
  proof (cases c)
    case (Acq n m)
    then have h: "holding cs = Some (n, m)" "one_lock (holding cs) cs" using one one_lock_holding [of "Some (n, m)" cs] by auto
    obtain k where k: "acq m (L n) = Some k" "L' = L(n := k)" using e Acq by (cases "acq m (L n)") auto
    have "readers (L' q) = sum_list (map (?R q) (ls[i := cs])) \<and> writers (L' q) = sum_list (map (?W q) (ls[i := cs]))
        \<and> writers (L' q) \<le> 1 \<and> (writers (L' q) = 1 \<longrightarrow> readers (L' q) = 0)" for q
      using counts [of q] le [of q] k h Acq acq_shared [of "L n" k] acq_excl [of "L n" k] by (cases m; cases "q = n") auto
    then show ?thesis using set [OF h(2)] unfolding locks_ok_def by blast
  next
    case (Rel n m)
    then have h: "holding cs = None" "one_lock (holding cs) cs" using one one_lock_holding [of None cs] by auto
    have L': "L' = L(n := rel m (L n))" using e Rel by auto
    have "readers (L' q) = sum_list (map (?R q) (ls[i := cs])) \<and> writers (L' q) = sum_list (map (?W q) (ls[i := cs]))
        \<and> writers (L' q) \<le> 1 \<and> (writers (L' q) = 1 \<longrightarrow> readers (L' q) = 0)" for q
    proof (cases m)
      case Shared
      have "0 < readers (L n)" using counts(1) [of n] h Rel Shared by simp
      then show ?thesis using counts [of q] le [of q] L' h Rel Shared rel_shared [of "L n"] by (cases "q = n") auto
    next
      case Excl
      have "writers (L n) = 1" using counts(2) [of n] h Rel Excl le(1) [of n] by simp
      then show ?thesis using counts [of q] le [of q] L' h Rel Excl rel_excl [of "L n"] by (cases "q = n") auto
    qed
    then show ?thesis using set [OF h(2)] unfolding locks_ok_def by blast
  next
    case (Do d)
    then have h: "holding (c # cs) = holding cs" "one_lock (holding cs) cs" "L' = L" using one e by auto
    have "sum_list (map (?R q) (ls[i := cs])) = readers (L q)" "sum_list (map (?W q) (ls[i := cs])) = writers (L q)" for q
      using counts [of q] h by simp_all
    then show ?thesis using set [OF h(2)] le h(3) unfolding locks_ok_def by auto
  qed
qed

text \<open>A thread in exclusive mode is alone.\<close>

lemma locks_ok_alone:
  assumes ok: "locks_ok L ls" and i: "i < length ls" "j < length ls" "i \<noteq> j" "holding (ls ! i) = Some (n, Excl)"
  shows "holding (ls ! j) \<noteq> Some (n, m)"
proof
  assume j: "holding (ls ! j) = Some (n, m)"
  obtain W where W: "sum_list (map (\<lambda>cs. of_bool (holding cs = Some (n, Excl))) ls) = W + of_bool (holding (ls ! i) = Some (n, Excl))"
     "\<And>x. sum_list (map (\<lambda>cs. of_bool (holding cs = Some (n, Excl)) :: nat) (ls[i := x])) = W + of_bool (holding x = Some (n, Excl))"
    using sum_list_split [OF i(1), of "\<lambda>cs. of_bool (holding cs = Some (n, Excl)) :: nat"] by blast
  have w: "writers (L n) = 1" "W = 0" using W(1) i(4) locks_okD(3,4) [OF ok, of n] by auto
  show False
  proof (cases m)
    case Excl
    have "of_bool (holding (ls[i := []] ! j) = Some (n, Excl)) \<le> sum_list (map (\<lambda>cs. of_bool (holding cs = Some (n, Excl)) :: nat) (ls[i := []]))"
      using i(2) by (intro member_le_sum_list_nat) simp
    then show False using W(2) [of "[]"] w(2) i(2,3) j Excl by simp
  next
    case Shared
    have "of_bool (holding (ls ! j) = Some (n, Shared)) \<le> sum_list (map (\<lambda>cs. of_bool (holding cs = Some (n, Shared)) :: nat) ls)"
      by (rule member_le_sum_list_nat [OF i(2)])
    then show False using j Shared locks_okD(5) [OF ok w(1)] locks_okD(2) [OF ok, of n] by simp
  qed
qed

lemma locks_ok_store:
  assumes "locks_ok L ls" "\<forall>cs\<in>set ls. incs_ok ld st n cs" "i < length ls" "j < length ls" "j \<noteq> i" "store_next st (ls ! i)"
  shows "\<not> store_next st (ls ! j)"
  using locks_ok_alone [OF assms(1,3,4)] store_next_holds [of st "ls ! i" ld n] store_next_holds [of st "ls ! j" ld n] assms(2-6) by auto

text \<open>A lock nobody holds can be taken.\<close>

lemma locks_ok_wait:
  assumes "locks_ok L ls" "acq m (L n) = None"
  shows "\<exists>j<length ls. holding (ls ! j) \<noteq> None"
proof (rule ccontr)
  assume "\<not> (\<exists>j<length ls. holding (ls ! j) \<noteq> None)"
  then have none: "holding cs = None" if "cs \<in> set ls" for cs using that by (auto simp: in_set_conv_nth simp del: not_None_eq)
  then have "readers (L n) = 0" "writers (L n) = 0"
    unfolding locks_okD(2,3) [OF assms(1)] by (auto intro!: sum_list_map_zero)
  then show False using acq_wait [OF assms(2)] by simp
qed

end

text \<open>Programs over such locks: what is said about the data may use that writers are alone.\<close>

locale rw_program = rw_lock acq rel readers writers fresh
  for acq :: "mode \<Rightarrow> 'k \<Rightarrow> 'k option" and rel and readers and writers and fresh +
  fixes dex :: "nat \<Rightarrow> 'd \<Rightarrow> 's \<Rightarrow> 's list" and s0 :: 's and ps :: "'d rwc list list" and J :: "'s \<Rightarrow> 'd rwc list list \<Rightarrow> bool"
  assumes ps_ok: "cs \<in> set ps \<Longrightarrow> one_lock None cs"
    and J_init: "J s0 ps"
    and J_step: "locks_ok L ls \<Longrightarrow> J s ls \<Longrightarrow> i < length ls \<Longrightarrow> ls ! i = c # cs
      \<Longrightarrow> (L', s') \<in> set (rw_exec acq rel dex i c (L, s)) \<Longrightarrow> J s' (ls[i := cs])"
    and dex_runs: "dex i d s \<noteq> []"
begin

sublocale script_invariant "once (rw_exec acq rel dex)" "(\<lambda>_. fresh, s0)" ps "\<lambda>p ls. case p of (L, s) \<Rightarrow> length ls = length ps \<and> locks_ok L ls \<and> J s ls"
proof
  show "case (\<lambda>_. fresh, s0) of (L, s) \<Rightarrow> length ps = length ps \<and> locks_ok L ps \<and> J s ps"
    using locks_ok_init [OF ps_ok] J_init by simp
qed (auto intro: locks_ok_step J_step)

lemma rw_reach:
  assumes "reach (step (rw_thread acq rel dex)) (rw_start fresh s0 ps) c"
  shows "length (locs c) = length ps" "locks_ok (fst (shared c)) (locs c)" "J (snd (shared c)) (locs c)"
  using I_reach [OF assms [unfolded rw_thread_def rw_start_def]] by (auto split: prod.splits)

lemma rw_stuck_fin:
  assumes r: "reach (step (rw_thread acq rel dex)) (rw_start fresh s0 ps) c" and st: "stuck (rw_thread acq rel dex) c"
  shows "all_fin (rw_thread acq rel dex) c" "locs c = replicate (length ps) []"
proof -
  note r' = r [unfolded rw_thread_def rw_start_def] and st' = st [unfolded rw_thread_def]
  have at: "locs c ! i = [] \<or> (\<exists>n m cs. locs c ! i = Acq n m # cs \<and> acq m (fst (shared c) n) = None)" if i: "i < length ps" for i
  proof -
    from script_stuckD [OF r' st' i] consider "locs c ! i = []" | d ds where "locs c ! i = d # ds" "rw_exec acq rel dex i d (shared c) = []"
      by auto
    then show ?thesis
    proof cases
      case 2
      then show ?thesis using dex_runs by (cases d; cases "shared c") (auto split: option.splits)
    qed simp
  qed
  then have "holding (locs c ! i) = None" if "i < length ps" for i using at [OF that] by auto
  then have "acq m (fst (shared c) n) \<noteq> None" for m n
    using locks_ok_wait [OF rw_reach(2) [OF r]] rw_reach(1) [OF r] by metis
  with at have fin: "\<forall>i<length ps. locs c ! i = []" by metis
  then show "all_fin (rw_thread acq rel dex) c" unfolding rw_thread_def script_all_fin [OF r' st'] .
  show "locs c = replicate (length ps) []" using fin rw_reach(1) [OF r] by (intro nth_equalityI) (auto simp del: nth_locs)
qed

end

subsection \<open>01_rwlock_basic.c\<close>

text \<open>
  \<open>++shared\<close> is a load and a store; \<open>ba_out i\<close> is what thread \<open>i\<close> prints. A reader makes \<open>R\<close> rounds, a
  writer \<open>W\<close>.
\<close>

record basic_state =
  ba_shared :: int
  ba_reg :: "nat \<Rightarrow> int"
  ba_out :: "nat \<Rightarrow> int list"

datatype basic_cmd = LoadShared | StoreShared | PrintShared

fun basic_exec :: "nat \<Rightarrow> basic_cmd \<Rightarrow> basic_state \<Rightarrow> basic_state list" where
  "basic_exec i LoadShared s = [s\<lparr>ba_reg := (ba_reg s)(i := ba_shared s)\<rparr>]"
| "basic_exec i StoreShared s = [s\<lparr>ba_shared := ba_reg s i + 1\<rparr>]"
| "basic_exec i PrintShared s = [s\<lparr>ba_out := (ba_out s)(i := ba_out s i @ [ba_shared s])\<rparr>]"

definition rwlock_reader :: "nat \<Rightarrow> basic_cmd rwc list" where
  "rwlock_reader R = concat (replicate R [Acq 0 Shared, Do PrintShared, Rel 0 Shared])"

definition rwlock_writer :: "nat \<Rightarrow> basic_cmd rwc list" where
  "rwlock_writer W = concat (replicate W [Acq 0 Excl, Do LoadShared, Do StoreShared, Do PrintShared, Rel 0 Excl])"

definition rwlock_threads :: "nat \<Rightarrow> nat \<Rightarrow> nat \<Rightarrow> nat \<Rightarrow> basic_cmd rwc list list" where
  "rwlock_threads NR R NW W = replicate NR (rwlock_reader R) @ replicate NW (rwlock_writer W)"

definition basic_init :: basic_state where
  "basic_init = \<lparr>ba_shared = 0, ba_reg = (\<lambda>_. 0), ba_out = (\<lambda>_. [])\<rparr>"

definition rwlock_prog :: "nat \<Rightarrow> basic_cmd rwc list \<Rightarrow> ((nat \<Rightarrow> rwl) \<times> basic_state, basic_cmd rwc list) stmt" where
  "rwlock_prog = rw_thread rw_acquire rw_release basic_exec"

text \<open>\<open>main\<close>: four readers with three rounds, one writer with two.\<close>

definition rwlock_main :: "((nat \<Rightarrow> rwl) \<times> basic_state, basic_cmd rwc list) cfg" where
  "rwlock_main = rw_start rw_free basic_init (rwlock_threads 4 3 1 2)"

definition stores :: "basic_cmd rwc list \<Rightarrow> nat" where
  "stores cs = length (filter (\<lambda>c. c = Do StoreShared) cs)"

lemma stores_simps [simp]: "stores [] = 0" "stores (c # cs) = (if c = Do StoreShared then Suc (stores cs) else stores cs)"
  "stores (cs @ ds) = stores cs + stores ds"
  by (simp_all add: stores_def)

lemma rwlock_reader_ok:
  "one_lock None (rwlock_reader R)" "incs_ok LoadShared StoreShared 0 (rwlock_reader R)" "\<not> store_next StoreShared (rwlock_reader R)" "stores (rwlock_reader R) = 0"
  by (induction R) (simp_all add: rwlock_reader_def)

lemma rwlock_writer_ok:
  "one_lock None (rwlock_writer W)" "incs_ok LoadShared StoreShared 0 (rwlock_writer W)" "\<not> store_next StoreShared (rwlock_writer W)" "stores (rwlock_writer W) = W"
  by (induction W) (simp_all add: rwlock_writer_def)

definition basic_inv :: "int \<Rightarrow> basic_state \<Rightarrow> basic_cmd rwc list list \<Rightarrow> bool" where
  "basic_inv T s ls \<longleftrightarrow> ba_shared s + int (sum_list (map stores ls)) = T \<and> (\<forall>cs\<in>set ls. incs_ok LoadShared StoreShared 0 cs) \<and>
     (\<forall>i<length ls. store_next StoreShared (ls ! i) \<longrightarrow> ba_reg s i = ba_shared s)"

lemma basic_rwc_cases [case_names Acq Rel LoadShared StoreShared PrintShared]:
  obtains n m where "c = Acq n m" | n m where "c = Rel n m" | "c = Do LoadShared" | "c = Do StoreShared" | "c = Do PrintShared"
  by (cases c) (auto intro: basic_cmd.exhaust)

text \<open>An increment between lock and unlock loses nothing: what is stored and what is still to be added stays the same.\<close>

lemma basic_inv_step:
  assumes ok: "shared_mutex.locks_ok L ls" and inv: "basic_inv Z s ls" and i: "i < length ls" "ls ! i = c # cs"
    and e: "(L', s') \<in> set (rw_exec rw_acquire rw_release basic_exec i c (L, s))"
  shows "basic_inv Z s' (ls[i := cs])"
proof -
  obtain T where T: "sum_list (map stores ls) = T + stores (c # cs)" "\<And>x. sum_list (map stores (ls[i := x])) = T + stores x"
    using sum_list_split [OF i(1), of stores] i(2) by metis
  have incs: "\<forall>cs\<in>set ls. incs_ok LoadShared StoreShared 0 cs" and l: "store_next StoreShared (c # cs) \<longrightarrow> ba_reg s i = ba_shared s"
    using inv i by (auto simp: basic_inv_def)
  have c: "incs_ok LoadShared StoreShared 0 (c # cs)" using bspec [OF incs nth_mem [OF i(1)]] i(2) by (simp only:)
  have now: "ba_shared s + int (T + stores (c # cs)) = Z" using inv T by (simp add: basic_inv_def)
  have others: "ba_reg s j = ba_shared s" if "j < length ls" "store_next StoreShared (ls ! j)" for j
    using inv that by (auto simp: basic_inv_def)
  have alone: "\<not> store_next StoreShared (ls ! j)" if "c = Do StoreShared" "j < length ls" "j \<noteq> i" for j
    using shared_mutex.locks_ok_store [OF ok incs i(1) that(2,3)] that(1) i(2) by simp
  have "ba_shared s' + int (T + stores cs) = Z" "store_next StoreShared cs \<Longrightarrow> ba_reg s' i = ba_shared s'"
    using e now l c by (cases c rule: basic_rwc_cases; auto split: option.splits)+
  moreover have "ba_reg s' j = ba_shared s'" if "j < length ls" "j \<noteq> i" "store_next StoreShared (ls ! j)" for j
    using e others that alone by (cases c rule: basic_rwc_cases; auto split: option.splits)
  ultimately show ?thesis
    unfolding basic_inv_def T using incs c i(1) by (auto simp: nth_list_update dest: set_updD)
qed

lemma basic_exec_runs: "basic_exec i d s \<noteq> []"
  by (cases d) auto

interpretation rwlock: rw_program rw_acquire rw_release rl_readers "\<lambda>k. of_bool (rl_writer k)" rw_free
  basic_exec basic_init "rwlock_threads NR R NW W" "basic_inv (int (NW * W))"
proof unfold_locales
  show "one_lock None cs" if "cs \<in> set (rwlock_threads NR R NW W)" for cs
    using that by (auto simp: rwlock_threads_def rwlock_reader_ok rwlock_writer_ok split: if_splits)
  have "incs_ok LoadShared StoreShared 0 cs \<and> \<not> store_next StoreShared cs" if "cs \<in> set (rwlock_threads NR R NW W)" for cs
    using that by (auto simp: rwlock_threads_def rwlock_reader_ok rwlock_writer_ok split: if_splits)
  moreover have "sum_list (map stores (rwlock_threads NR R NW W)) = NW * W"
    by (simp add: rwlock_threads_def rwlock_reader_ok rwlock_writer_ok sum_list_replicate_nat)
  ultimately show "basic_inv (int (NW * W)) basic_init (rwlock_threads NR R NW W)"
    by (auto simp: basic_inv_def basic_init_def)
qed (auto intro: basic_inv_step simp: basic_exec_runs)

subsection \<open>07_shared_mutex.cpp\<close>

text \<open>\<open>Config::set\<close> and \<open>Config::get\<close> on the map; \<open>cf_got i\<close> are the results of the calls of \<open>get\<close> in thread \<open>i\<close>.\<close>

definition Config_set :: "string \<Rightarrow> string \<Rightarrow> (string \<Rightarrow> string option) \<Rightarrow> string \<Rightarrow> string option" where
  "Config_set k v kv = kv(k \<mapsto> v)"


record config_state =
  cf_kv :: "string \<Rightarrow> string option"
  cf_got :: "nat \<Rightarrow> string list"

datatype config_cmd = SetKv string string | GetKv string


definition config_set_call :: "string \<Rightarrow> string \<Rightarrow> config_cmd rwc list" where
  "config_set_call k v = [Acq 0 Excl, Do (SetKv k v), Rel 0 Excl]"

definition config_get_call :: "string \<Rightarrow> config_cmd rwc list" where
  "config_get_call k = [Acq 0 Shared, Do (GetKv k), Rel 0 Shared]"

definition config_reader :: "nat \<Rightarrow> config_cmd rwc list" where
  "config_reader K = concat (replicate K (config_get_call ''greeting''))"

definition new_greeting :: "nat \<Rightarrow> string" where
  "new_greeting k = ''hi #'' @ to_string (int k)"

definition config_writer :: "nat \<Rightarrow> config_cmd rwc list" where
  "config_writer W = concat (map (\<lambda>k. config_set_call ''greeting'' (new_greeting k)) [0..<W])"

definition config_threads :: "nat \<Rightarrow> nat \<Rightarrow> nat \<Rightarrow> config_cmd rwc list list" where
  "config_threads N K W = replicate N (config_reader K) @ [config_writer W]"

definition config_init :: config_state where
  "config_init = \<lparr>cf_kv = Config_set ''greeting'' ''hi'' Map.empty, cf_got = (\<lambda>_. [])\<rparr>"


text \<open>\<open>main\<close>: six readers with five calls, one writer with three.\<close>

definition config_main :: "((nat \<Rightarrow> rwl) \<times> config_state, config_cmd rwc list) cfg" where
  "config_main = rw_start rw_free config_init (config_threads 6 5 3)"















subsection \<open>Properties\<close>

text \<open>Programs over read-write locks end after a bounded number of steps: every command is executed once.\<close>

lemma rw_bounded:
  assumes "run (step (rw_thread acq rel dex)) (rw_start fresh s0 ps) es = Some c"
  shows "length es \<le> 4 * sum_list (map length ps) + 2 * length ps + 3 * spurs es"
  by (rule once_bounded [OF assms [unfolded rw_thread_def rw_start_def]])

text \<open>C18: \<open>01_rwlock_basic.c\<close>: a thread that has the lock for writing is alone; every run has a bounded number of steps, and when nothing can
  move any more all threads have returned and \<open>shared\<close> counts every write, for any numbers of readers, writers and rounds;
  \<open>++shared\<close> is a load and a store.\<close>

theorem rwlock_correct:
  assumes "run (step rwlock_prog) (rw_start rw_free basic_init (rwlock_threads NR R NW W)) es = Some c"
  shows "(i < length (thr c) \<and> j < length (thr c) \<and> i \<noteq> j \<and> holding (locs c ! i) = Some (0, Excl) \<longrightarrow> holding (locs c ! j) \<noteq> Some (0, m))
    \<and> length es \<le> 4 * sum_list (map length (rwlock_threads NR R NW W)) + 2 * length (rwlock_threads NR R NW W) + 3 * spurs es
    \<and> (stuck rwlock_prog c \<longrightarrow> all_fin rwlock_prog c \<and> ba_shared (snd (shared c)) = int (NW * W))"
proof -
  note run = assms [unfolded rwlock_prog_def]
  note r = run_reach [OF run]
  have "ba_shared (snd (shared c)) = int (NW * W)" if "locs c = replicate (length (rwlock_threads NR R NW W)) []"
    using rwlock.rw_reach(3) [OF r] unfolding that basic_inv_def by (simp add: sum_list_replicate_nat)
  then show ?thesis
    using shared_mutex.locks_ok_alone [OF rwlock.rw_reach(2) [OF r], of i j 0 m] rwlock.rw_stuck_fin [OF r] rw_bounded [OF run]
    unfolding rwlock_prog_def by (simp del: nth_locs)
qed

definition rwlock_demo :: "(nat \<times> choice) list \<times> ((nat \<Rightarrow> rwl) \<times> basic_state, basic_cmd rwc list) cfg" where
  "rwlock_demo = drive rwlock_prog [2, 0, 1] 60 (rw_start rw_free basic_init (rwlock_threads 1 2 2 1))"

lemma rwlock_demo_fin: "all_finb rwlock_prog (snd rwlock_demo)"
  by code_simp

theorem rwlock_correct_witness: "ba_shared (snd (shared (snd rwlock_demo))) = 2"
proof -
  have run: "run (step rwlock_prog) (rw_start rw_free basic_init (rwlock_threads 1 2 2 1)) (fst rwlock_demo) = Some (snd rwlock_demo)"
    unfolding rwlock_demo_def by (rule drive_run) simp
  show ?thesis using rwlock_correct [OF run] rwlock_demo_fin by (simp add: all_finb all_fin_stuck)
qed





end
