(* ===== verification/ReadersWriters.thy ===== *)
theory ReadersWriters
  imports RWLocks
begin

text \<open>
  \<open>examples/03_patterns/03_readers_writers.cpp\<close>: one benchmark with a mutex, a shared mutex and an atomic variable. The
  theory shows that the three variants have exactly the same results, because a lock around a
  single atomic access changes none, and bounds the sum.
\<close>

subsection \<open>A lock around atomic accesses\<close>

text \<open>
  \<open>wrap md\<close> puts lock 0 around the accesses that \<open>md\<close> gives a mode; \<open>unwrap\<close> takes it away again. Programs
  that use only other locks have the same results with and without: an access is one step, so
  lock 0 only restricts the schedules, and no result needs the others.
\<close>

fun wrap :: "('d \<Rightarrow> mode option) \<Rightarrow> 'd rwc \<Rightarrow> 'd rwc list" where
  "wrap md (Do d) = (case md d of Some m \<Rightarrow> [Acq 0 m, Do d, Rel 0 m] | None \<Rightarrow> [Do d])"
| "wrap md c = [c]"

fun on_zero :: "'d rwc \<Rightarrow> bool" where
  "on_zero (Acq n m) = (n = 0)"
| "on_zero (Rel n m) = (n = 0)"
| "on_zero (Do d) = False"

definition wrap_all :: "('d \<Rightarrow> mode option) \<Rightarrow> 'd rwc list \<Rightarrow> 'd rwc list" where
  "wrap_all md cs = concat (map (wrap md) cs)"

definition unwrap :: "'d rwc list \<Rightarrow> 'd rwc list" where
  "unwrap cs = filter (\<lambda>c. \<not> on_zero c) cs"

lemma wrap_all_simps [simp]: "wrap_all md [] = []" "wrap_all md (c # cs) = wrap md c @ wrap_all md cs"
  "wrap_all md (cs @ ds) = wrap_all md cs @ wrap_all md ds"
  by (simp_all add: wrap_all_def)

lemma unwrap_simps [simp]: "unwrap [] = []" "unwrap (c # cs) = (if on_zero c then unwrap cs else c # unwrap cs)"
  by (simp_all add: unwrap_def)

lemma unwrap_wrap: "\<forall>c\<in>set cs. \<not> on_zero c \<Longrightarrow> unwrap (wrap_all md cs) = cs"
proof (induction cs)
  case (Cons c cs)
  then show ?case by (cases c) (auto split: option.splits)
qed simp

text \<open>The results of a program: the data when all threads have returned.\<close>

definition outcomes :: "(nat \<Rightarrow> 'l \<Rightarrow> ('k \<times> 's, 'l) stmt) \<Rightarrow> ('k \<times> 's, 'l) cfg \<Rightarrow> 's set" where
  "outcomes P c0 = {snd (shared c) | c. reach (step P) c0 c \<and> all_fin P c}"

lemma outcomes_rw:
  "outcomes (rw_thread acq rel dex) (rw_start fresh s0 ps) =
    {s. \<exists>L. reach (astep (rw_thread acq rel dex)) ((\<lambda>_. fresh, s0), ps) ((L, s), replicate (length ps) [])}"
proof (intro equalityI subsetI)
  fix s assume "s \<in> outcomes (rw_thread acq rel dex) (rw_start fresh s0 ps)"
  then obtain c where c: "reach (step (rw_thread acq rel dex)) (rw_start fresh s0 ps) c" "all_fin (rw_thread acq rel dex) c" "s = snd (shared c)"
    by (auto simp: outcomes_def)
  have "locs c = replicate (length ps) []"
    using all_fin_locs c(2) reach_ok(4) c(1) unfolding rw_thread_def rw_start_def by metis
  then show "s \<in> {s. \<exists>L. reach (astep (rw_thread acq rel dex)) ((\<lambda>_. fresh, s0), ps) ((L, s), replicate (length ps) [])}"
    using step_refines_atomic [OF c(1) [unfolded rw_start_def]] c(3) by (cases "shared c") auto
next
  fix s assume "s \<in> {s. \<exists>L. reach (astep (rw_thread acq rel dex)) ((\<lambda>_. fresh, s0), ps) ((L, s), replicate (length ps) [])}"
  then obtain L where "reach (step (rw_thread acq rel dex)) (rw_start fresh s0 ps) (start (L, s) (replicate (length ps) []))"
    unfolding rw_thread_def rw_start_def script_reach_astep [symmetric] by blast
  moreover have "all_fin (rw_thread acq rel dex) (start (L, s) (replicate (length ps) []))"
    by (simp add: all_fin_def start_def rw_thread_def)
  ultimately show "s \<in> outcomes (rw_thread acq rel dex) (rw_start fresh s0 ps)"
    unfolding outcomes_def by (force simp: start_def)
qed

lemma rw_astepE:
  assumes "astep (rw_thread acq rel dex) (p, ls) e = Some (p', ls')"
  obtains i c cs where "i < length ls" "ls ! i = c # cs" "p' \<in> set (rw_exec acq rel dex i c p)" "ls' = ls[i := cs]"
proof -
  have i: "fst e < length ls" and eff: "(p', ls' ! fst e) \<in> set (effects (rw_thread acq rel dex (fst e) (ls ! fst e)) p)"
    and ls': "ls' = ls[fst e := ls' ! fst e]"
    using assms by (auto simp: astep_def split: if_splits prod.splits intro: nth_mem_eq)
  from eff obtain c cs where "ls ! fst e = c # cs" "p' \<in> set (rw_exec acq rel dex (fst e) c p)" "ls' ! fst e = cs"
    unfolding rw_thread_def by (elim script_effectE) simp
  then show thesis using that i ls' by metis
qed

lemma rw_astepI:
  assumes "i < length ls" "ls ! i = c # cs" "p' \<in> set (rw_exec acq rel dex i c p)"
  shows "reach (astep (rw_thread acq rel dex)) (p, ls) (p', ls[i := cs])"
proof -
  from assms(3) obtain k where "k < length (rw_exec acq rel dex i c p)" "rw_exec acq rel dex i c p ! k = p'"
    by (auto simp: in_set_conv_nth)
  then have "astep (rw_thread acq rel dex) (p, ls) (i, k) = Some (p', ls[i := cs])"
    using assms(1,2) by (simp add: astep_def rw_thread_def once_def)
  then show ?thesis by (rule reach_step [OF reach_refl])
qed

text \<open>A command that is not about lock 0 does not depend on it.\<close>

lemma rw_exec_elsewhere:
  assumes "\<not> on_zero c" "\<And>n. n \<noteq> 0 \<Longrightarrow> L n = K n" "(K', s') \<in> set (rw_exec acq rel dex i c (K, s))"
  obtains L' where "(L', s') \<in> set (rw_exec acq rel dex i c (L, s))" "\<And>n. n \<noteq> 0 \<Longrightarrow> L' n = K' n" "L' 0 = L 0"
proof (cases c)
  case (Acq n m)
  then obtain k where k: "acq m (K n) = Some k" "K' = K(n := k)" "s' = s" using assms(3) by (cases "acq m (K n)") auto
  show thesis by (rule that [of "L(n := k)"]) (use assms(1,2) k Acq in auto)
next
  case (Rel n m)
  show thesis by (rule that [of "L(n := rel m (L n))"]) (use assms Rel in auto)
next
  case (Do d)
  show thesis by (rule that [of L]) (use assms Do in auto)
qed

context rw_lock
begin

lemma unwrap_refines:
  assumes "reach (astep (rw_thread acq rel dex)) ((\<lambda>_. fresh, s0), ps) (p, ls)"
  shows "\<exists>L. reach (astep (rw_thread acq rel dex)) ((\<lambda>_. fresh, s0), map unwrap ps) ((L, snd p), map unwrap ls) \<and> (\<forall>n. n \<noteq> 0 \<longrightarrow> L n = fst p n)"
proof -
  define sim where "sim = (\<lambda>((K, s), ls). \<exists>L. reach (astep (rw_thread acq rel dex)) ((\<lambda>_. fresh, s0), map unwrap ps) ((L, s), map unwrap ls) \<and>
    (\<forall>n. n \<noteq> 0 \<longrightarrow> L n = (K :: nat \<Rightarrow> 'k) n))"
  have "sim (p, ls)"
  proof (rule reach_induct_inv [OF assms])
    show "sim ((\<lambda>_. fresh, s0), ps)" unfolding sim_def by (auto intro: reach_refl)
  next
    fix c e c' assume "sim c" and st: "astep (rw_thread acq rel dex) c e = Some c'"
    obtain K s ls K' s' ls' where c: "c = ((K, s), ls)" "c' = ((K', s'), ls')" by (metis prod.collapse)
    from \<open>sim c\<close> obtain L where r: "reach (astep (rw_thread acq rel dex)) ((\<lambda>_. fresh, s0), map unwrap ps) ((L, s), map unwrap ls)"
      and L: "\<And>n. n \<noteq> 0 \<Longrightarrow> L n = K n" unfolding sim_def c by blast
    from st [unfolded c] obtain i a cs where i: "i < length ls" "ls ! i = a # cs" "(K', s') \<in> set (rw_exec acq rel dex i a (K, s))" "ls' = ls[i := cs]"
      by (rule rw_astepE)
    show "sim c'"
    proof (cases "on_zero a")
      case True
      then have "s' = s" "\<And>n. n \<noteq> 0 \<Longrightarrow> K' n = K n" using i(3) by (cases a; auto split: option.splits)+
      moreover have "map unwrap ls' = map unwrap ls" unfolding i(4) by (rule map_upd_same) (simp add: i(2) True)
      ultimately show ?thesis using r L unfolding sim_def c by auto
    next
      case False
      from rw_exec_elsewhere [OF False L i(3)] obtain L' where L': "(L', s') \<in> set (rw_exec acq rel dex i a (L, s))" "\<And>n. n \<noteq> 0 \<Longrightarrow> L' n = K' n"
        by blast
      have "reach (astep (rw_thread acq rel dex)) ((L, s), map unwrap ls) ((L', s'), map unwrap ls')"
        unfolding i(4) map_update by (rule rw_astepI [where c = a]) (use i False L' in auto)
      then show ?thesis using reach_trans [OF r] L'(2) unfolding sim_def c by blast
    qed
  qed
  then show ?thesis unfolding sim_def by (auto split: prod.splits)
qed

text \<open>Where lock 0 is free, a wrapped access can be carried out at once.\<close>

lemma wrapped_access:
  assumes i: "i < length ls" "ls ! i = Acq 0 m # Do d # Rel 0 m # cs" and idle: "readers (L 0) = 0" "writers (L 0) = 0"
    and d: "s' \<in> set (dex i d s)"
  shows "\<exists>L'. reach (astep (rw_thread acq rel dex)) ((L, s), ls) ((L', s'), ls[i := cs])
    \<and> (\<forall>n. n \<noteq> 0 \<longrightarrow> L' n = L n) \<and> readers (L' 0) = 0 \<and> writers (L' 0) = 0"
proof -
  obtain k where k: "acq m (L 0) = Some k" using acq_wait [of m "L 0"] idle by (cases "acq m (L 0)") auto
  let ?L1 = "L(0 := k)" and ?L2 = "L(0 := rel m k)"
  have idle': "readers (rel m k) = 0 \<and> writers (rel m k) = 0"
    using acq_shared [of "L 0" k] acq_excl [of "L 0" k] rel_shared [of k] rel_excl [of k] k idle by (cases m) auto
  have "reach (astep (rw_thread acq rel dex)) ((L, s), ls) ((?L1, s), ls[i := Do d # Rel 0 m # cs])"
    by (rule rw_astepI [OF i]) (simp add: k)
  moreover have "reach (astep (rw_thread acq rel dex)) ((?L1, s), ls[i := Do d # Rel 0 m # cs]) ((?L1, s'), ls[i := Rel 0 m # cs])"
    using rw_astepI [of i "ls[i := Do d # Rel 0 m # cs]" "Do d" "Rel 0 m # cs" "(?L1, s')" acq rel dex "(?L1, s)"] i d by simp
  moreover have "reach (astep (rw_thread acq rel dex)) ((?L1, s'), ls[i := Rel 0 m # cs]) ((?L2, s'), ls[i := cs])"
    using rw_astepI [of i "ls[i := Rel 0 m # cs]" "Rel 0 m" cs "(?L2, s')" acq rel dex "(?L1, s')"] i by simp
  ultimately have "reach (astep (rw_thread acq rel dex)) ((L, s), ls) ((?L2, s'), ls[i := cs])"
    by (rule reach_trans [OF reach_trans])
  then show ?thesis using idle' by (intro exI [where x = ?L2]) simp
qed

lemma wrap_simulates:
  assumes "reach (astep (rw_thread acq rel dex)) ((\<lambda>_. fresh, s0), ps) (p, ls)" and ps: "\<forall>cs\<in>set ps. \<forall>c\<in>set cs. \<not> on_zero c"
  shows "\<exists>L. reach (astep (rw_thread acq rel dex)) ((\<lambda>_. fresh, s0), map (wrap_all md) ps) ((L, snd p), map (wrap_all md) ls)"
proof -
  define sim where "sim = (\<lambda>((K, s), ls). (\<forall>cs\<in>set ls. \<forall>c\<in>set cs. \<not> on_zero c) \<and>
    (\<exists>L. reach (astep (rw_thread acq rel dex)) ((\<lambda>_. fresh, s0), map (wrap_all md) ps) ((L, s), map (wrap_all md) ls) \<and>
       (\<forall>n. n \<noteq> 0 \<longrightarrow> L n = (K :: nat \<Rightarrow> 'k) n) \<and> readers (L 0) = 0 \<and> writers (L 0) = 0))"
  have "sim (p, ls)"
  proof (rule reach_induct_inv [OF assms(1)])
    show "sim ((\<lambda>_. fresh, s0), ps)" unfolding sim_def using ps fresh_idle by (auto intro: reach_refl)
  next
    fix c e c' assume "sim c" and st: "astep (rw_thread acq rel dex) c e = Some c'"
    obtain K s ls K' s' ls' where c: "c = ((K, s), ls)" "c' = ((K', s'), ls')" by (metis prod.collapse)
    from \<open>sim c\<close> obtain L where z: "\<forall>cs\<in>set ls. \<forall>c\<in>set cs. \<not> on_zero c"
      and r: "reach (astep (rw_thread acq rel dex)) ((\<lambda>_. fresh, s0), map (wrap_all md) ps) ((L, s), map (wrap_all md) ls)"
      and L: "\<And>n. n \<noteq> 0 \<Longrightarrow> L n = K n" "readers (L 0) = 0" "writers (L 0) = 0" unfolding sim_def c by blast
    from st [unfolded c] obtain i a cs where i: "i < length ls" "ls ! i = a # cs" "(K', s') \<in> set (rw_exec acq rel dex i a (K, s))" "ls' = ls[i := cs]"
      by (rule rw_astepE)
    have a: "\<not> on_zero a" "\<forall>cs\<in>set ls'. \<forall>c\<in>set cs. \<not> on_zero c"
      using z nth_mem [OF i(1)] i by (auto dest: set_updD)
    have ls': "map (wrap_all md) ls' = (map (wrap_all md) ls)[i := wrap_all md cs]" by (simp add: i(4) map_update)
    have "\<exists>L'. reach (astep (rw_thread acq rel dex)) ((L, s), map (wrap_all md) ls) ((L', s'), map (wrap_all md) ls')
        \<and> (\<forall>n. n \<noteq> 0 \<longrightarrow> L' n = K' n) \<and> readers (L' 0) = 0 \<and> writers (L' 0) = 0"
    proof (cases "wrap md a = [a]")
      case True
      from rw_exec_elsewhere [OF a(1) L(1) i(3)] obtain L' where L': "(L', s') \<in> set (rw_exec acq rel dex i a (L, s))"
        "\<And>n. n \<noteq> 0 \<Longrightarrow> L' n = K' n" "L' 0 = L 0" by blast
      have "reach (astep (rw_thread acq rel dex)) ((L, s), map (wrap_all md) ls) ((L', s'), map (wrap_all md) ls')"
        unfolding ls' by (rule rw_astepI [where c = a]) (use i True L' in auto)
      then show ?thesis using L' L by (intro exI [where x = L']) simp
    next
      case False
      then obtain d m where d: "a = Do d" "md d = Some m" by (cases a) (auto split: option.splits)
      then have "K' = K" "s' \<in> set (dex i d s)" using i(3) by auto
      then show ?thesis
        using wrapped_access [of i "map (wrap_all md) ls" m d "wrap_all md cs" L s' dex s] i(1,2) d L unfolding ls' by auto
    qed
    then show "sim c'" unfolding sim_def c using a(2) reach_trans [OF r] by blast
  qed
  then show ?thesis unfolding sim_def by (auto split: prod.splits)
qed

lemma wrap_outcomes:
  assumes "\<forall>cs\<in>set ps. \<forall>c\<in>set cs. \<not> on_zero c"
  shows "outcomes (rw_thread acq rel dex) (rw_start fresh s0 (map (wrap_all md) ps)) = outcomes (rw_thread acq rel dex) (rw_start fresh s0 ps)"
proof -
  have "map unwrap (map (wrap_all md) ps) = ps" using assms by (auto intro!: map_idI simp: unwrap_wrap)
  then show ?thesis unfolding outcomes_rw
    using unwrap_refines [of dex s0 "map (wrap_all md) ps"] wrap_simulates [of dex s0 ps, OF _ assms, of _ _ md]
    by (fastforce simp: map_replicate_const comp_def)
qed

end

subsection \<open>03_readers_writers.cpp\<close>

text \<open>
  \<open>bench\<close>: a reader adds what \<open>rd\<close> returns to its sum \<open>my\<close> and in the end, under \<open>sum_m\<close> (lock 1), \<open>my\<close> to
  \<open>total\<close>; a writer calls \<open>wr\<close> with 0, 1, \<open>\<dots>\<close>. Lock 0 is the lock \<open>lk\<close>; the clock is left out.
\<close>

record bench_state =
  bs_v :: int
  bs_my :: "nat \<Rightarrow> int"
  bs_reg :: "nat \<Rightarrow> int"
  bs_total :: int

datatype bench_cmd = ReadV | WriteV int | LoadTotal | StoreTotal

fun bench_exec :: "nat \<Rightarrow> bench_cmd \<Rightarrow> bench_state \<Rightarrow> bench_state list" where
  "bench_exec i ReadV s = [s\<lparr>bs_my := (bs_my s)(i := bs_my s i + bs_v s)\<rparr>]"
| "bench_exec i (WriteV k) s = [s\<lparr>bs_v := k\<rparr>]"
| "bench_exec i LoadTotal s = [s\<lparr>bs_reg := (bs_reg s)(i := bs_total s)\<rparr>]"
| "bench_exec i StoreTotal s = [s\<lparr>bs_total := bs_reg s i + bs_my s i\<rparr>]"

definition sum_section :: "bench_cmd rwc list" where
  "sum_section = [Acq 1 Excl, Do LoadTotal, Do StoreTotal, Rel 1 Excl]"

definition rw_bench :: "bench_cmd rwc list \<Rightarrow> (int \<Rightarrow> bench_cmd rwc list) \<Rightarrow> nat \<Rightarrow> nat \<Rightarrow> nat \<Rightarrow> nat \<Rightarrow> bench_cmd rwc list list" where
  "rw_bench rd wr READERS READS WRITERS WRITES = replicate READERS (concat (replicate READS rd) @ sum_section)
     @ replicate WRITERS (concat (map (\<lambda>k. wr (int k)) [0..<WRITES]))"

definition bench_init :: bench_state where
  "bench_init = \<lparr>bs_v = 0, bs_my = (\<lambda>_. 0), bs_reg = (\<lambda>_. 0), bs_total = 0\<rparr>"

definition bench_prog :: "nat \<Rightarrow> bench_cmd rwc list \<Rightarrow> ((nat \<Rightarrow> rwl) \<times> bench_state, bench_cmd rwc list) stmt" where
  "bench_prog = rw_thread rw_acquire rw_release bench_exec"

definition bench_start :: "bench_cmd rwc list list \<Rightarrow> ((nat \<Rightarrow> rwl) \<times> bench_state, bench_cmd rwc list) cfg" where
  "bench_start ps = rw_start rw_free bench_init ps"

text \<open>(A) a mutex, (B) a shared mutex, (C) an atomic variable.\<close>

definition mutex_rd :: "bench_cmd rwc list" where
  "mutex_rd = [Acq 0 Excl, Do ReadV, Rel 0 Excl]"

definition mutex_wr :: "int \<Rightarrow> bench_cmd rwc list" where
  "mutex_wr k = [Acq 0 Excl, Do (WriteV k), Rel 0 Excl]"

definition shared_rd :: "bench_cmd rwc list" where
  "shared_rd = [Acq 0 Shared, Do ReadV, Rel 0 Shared]"

definition shared_wr :: "int \<Rightarrow> bench_cmd rwc list" where
  "shared_wr k = [Acq 0 Excl, Do (WriteV k), Rel 0 Excl]"

definition atomic_rd :: "bench_cmd rwc list" where
  "atomic_rd = [Do ReadV]"

definition atomic_wr :: "int \<Rightarrow> bench_cmd rwc list" where
  "atomic_wr k = [Do (WriteV k)]"

text \<open>\<open>main\<close>: the three variants with 8 readers of 200000 reads and one writer of 1000 writes.\<close>

definition bench_main :: "bench_cmd rwc list list list" where
  "bench_main = [rw_bench mutex_rd mutex_wr 8 200000 1 1000, rw_bench shared_rd shared_wr 8 200000 1 1000,
     rw_bench atomic_rd atomic_wr 8 200000 1 1000]"




lemma bench_one_lock:
  assumes "one_lock None rd" "\<And>k. one_lock None (wr k)" "cs \<in> set (rw_bench rd wr NR R NW W)"
  shows "one_lock None cs"
proof -
  have "one_lock None (concat (replicate R rd))" "one_lock None (concat (map (\<lambda>k. wr (int k)) [0..<W]))"
    using assms(1,2) by (auto intro!: one_lock_concat)
  then show ?thesis using assms(3) by (auto simp: rw_bench_def one_lock_append sum_section_def)
qed

lemmas bench_rds = mutex_rd_def mutex_wr_def shared_rd_def shared_wr_def atomic_rd_def atomic_wr_def

subsection \<open>The sum is bounded\<close>

fun will_read :: "bench_cmd rwc list \<Rightarrow> nat" where
  "will_read [] = 0"
| "will_read (Do ReadV # cs) = Suc (will_read cs)"
| "will_read (c # cs) = will_read cs"

definition summings :: "bench_cmd rwc list \<Rightarrow> nat" where
  "summings cs = length (filter (\<lambda>c. c = Do StoreTotal) cs)"

lemma summings_simps [simp]: "summings [] = 0" "summings (c # cs) = (if c = Do StoreTotal then Suc (summings cs) else summings cs)"
  "summings (cs @ ds) = summings cs + summings ds"
  by (simp_all add: summings_def)

definition writes_ok :: "int \<Rightarrow> bench_cmd rwc list \<Rightarrow> bool" where
  "writes_ok M cs \<longleftrightarrow> (\<forall>c\<in>set cs. \<forall>k. c = Do (WriteV k) \<longrightarrow> 0 \<le> k \<and> k \<le> M)"

definition bench_inv :: "int \<Rightarrow> nat \<Rightarrow> nat \<Rightarrow> bench_state \<Rightarrow> bench_cmd rwc list list \<Rightarrow> bool" where
  "bench_inv M NR R s ls \<longleftrightarrow> 0 \<le> bs_v s \<and> bs_v s \<le> M \<and> 0 \<le> bs_total s \<and>
     bs_total s + M * int R * int (sum_list (map summings ls)) \<le> M * int R * int NR \<and>
     (\<forall>cs\<in>set ls. incs_ok LoadTotal StoreTotal 1 cs \<and> writes_ok M cs) \<and>
     (\<forall>i<length ls. (store_next StoreTotal (ls ! i) \<longrightarrow> bs_reg s i = bs_total s) \<and>
        0 \<le> bs_my s i \<and> bs_my s i + M * int (will_read (ls ! i)) \<le> M * int R)"

lemma bench_rwc_cases [case_names Acq Rel ReadV WriteV LoadTotal StoreTotal]:
  obtains n m where "c = Acq n m" | n m where "c = Rel n m" | "c = Do ReadV" | k where "c = Do (WriteV k)" | "c = Do LoadTotal" | "c = Do StoreTotal"
proof (cases c)
  case (Do d)
  then show thesis using that by (cases d) auto
qed (use that in auto)

lemma bench_scripts:
  assumes "cs \<in> set (rw_bench rd wr NR R NW W)" "(rd, wr) \<in> {(mutex_rd, mutex_wr), (shared_rd, shared_wr), (atomic_rd, atomic_wr)}"
  shows "incs_ok LoadTotal StoreTotal 1 cs" "writes_ok (int (W - 1)) cs" "\<not> store_next StoreTotal cs" "will_read cs \<le> R" "one_lock None cs"
proof -
  have r: "incs_ok LoadTotal StoreTotal 1 (concat (replicate R rd) @ sum_section) \<and> writes_ok M (concat (replicate R rd) @ sum_section)
      \<and> \<not> store_next StoreTotal (concat (replicate R rd) @ sum_section) \<and> will_read (concat (replicate R rd) @ sum_section) \<le> R" for M
    using assms(2) by (induction R) (auto simp: bench_rds sum_section_def writes_ok_def simp del: One_nat_def)
  have w: "incs_ok LoadTotal StoreTotal 1 (concat (map (\<lambda>k. wr (int k)) ks)) \<and> (writes_ok M (concat (map (\<lambda>k. wr (int k)) ks)) \<longleftrightarrow> (\<forall>k\<in>set ks. int k \<le> M))
      \<and> \<not> store_next StoreTotal (concat (map (\<lambda>k. wr (int k)) ks)) \<and> will_read (concat (map (\<lambda>k. wr (int k)) ks)) = 0" for ks M
    using assms(2) by (induction ks) (auto simp: bench_rds writes_ok_def simp del: One_nat_def)
  show "incs_ok LoadTotal StoreTotal 1 cs" "writes_ok (int (W - 1)) cs" "\<not> store_next StoreTotal cs" "will_read cs \<le> R"
    using assms(1) r w [of "[0..<W]"] by (auto simp: rw_bench_def)
  show "one_lock None cs" by (rule bench_one_lock [OF _ _ assms(1)]) (use assms(2) in \<open>auto simp: bench_rds\<close>)
qed

lemma bench_summings:
  assumes "(rd, wr) \<in> {(mutex_rd, mutex_wr), (shared_rd, shared_wr), (atomic_rd, atomic_wr)}"
  shows "sum_list (map summings (rw_bench rd wr NR R NW W)) = NR"
proof -
  have "summings (concat (replicate R rd)) = 0" using assms by (induction R) (auto simp: bench_rds)
  moreover have "summings (concat (map (\<lambda>k. wr (int k)) ks)) = 0" for ks using assms by (induction ks) (auto simp: bench_rds)
  ultimately show ?thesis by (simp add: rw_bench_def sum_section_def sum_list_replicate_nat)
qed

lemma bench_inv_step:
  assumes ok: "shared_mutex.locks_ok L ls" and inv: "bench_inv M NR R s ls" and M: "0 \<le> M" and i: "i < length ls" "ls ! i = c # cs"
    and e: "(L', s') \<in> set (rw_exec rw_acquire rw_release bench_exec i c (L, s))"
  shows "bench_inv M NR R s' (ls[i := cs])"
proof -
  define B where "B = M * int R"
  obtain T where T: "sum_list (map summings ls) = T + summings (c # cs)" "\<And>x. sum_list (map summings (ls[i := x])) = T + summings x"
    using sum_list_split [OF i(1), of summings] i(2) by metis
  have v: "0 \<le> bs_v s" "bs_v s \<le> M" "0 \<le> bs_total s" "bs_total s + B * int (T + summings (c # cs)) \<le> B * int NR"
    and scripts: "\<forall>cs\<in>set ls. incs_ok LoadTotal StoreTotal 1 cs \<and> writes_ok M cs"
    and th: "\<And>j. j < length ls \<Longrightarrow> store_next StoreTotal (ls ! j) \<Longrightarrow> bs_reg s j = bs_total s"
      "\<And>j. j < length ls \<Longrightarrow> 0 \<le> bs_my s j \<and> bs_my s j + M * int (will_read (ls ! j)) \<le> B"
    using inv unfolding bench_inv_def T(1) [symmetric] B_def by blast+
  have c: "incs_ok LoadTotal StoreTotal 1 (c # cs)" "writes_ok M (c # cs)" using bspec [OF scripts nth_mem [OF i(1)]] i(2) by (simp_all only:)
  have alone: "\<not> store_next StoreTotal (ls ! j)" if "c = Do StoreTotal" "j < length ls" "j \<noteq> i" for j
    using shared_mutex.locks_ok_store [OF ok _ i(1) that(2,3)] scripts that(1) i(2) by fastforce
  have my: "bs_my s i \<le> B" using th(2) [OF i(1)] M by (smt (verit) mult_nonneg_nonneg of_nat_0_le_iff)
  have w: "writes_ok M cs" "\<And>k. c = Do (WriteV k) \<Longrightarrow> 0 \<le> k \<and> k \<le> M" using c(2) by (auto simp: writes_ok_def)
  have "0 \<le> bs_v s' \<and> bs_v s' \<le> M" using e v(1,2) w(2) by (cases c rule: bench_rwc_cases) (auto split: option.splits)
  moreover have "0 \<le> bs_total s' \<and> bs_total s' + B * int (T + summings cs) \<le> B * int NR"
    using e v(3,4) my th [OF i(1)] i(2) by (cases c rule: bench_rwc_cases) (auto split: option.splits simp: algebra_simps)
  moreover have "store_next StoreTotal cs \<Longrightarrow> bs_reg s' i = bs_total s'"
    using e c(1) by (cases c rule: bench_rwc_cases) (auto split: option.splits)
  moreover have "bs_reg s' j = bs_total s'" if "j < length ls" "j \<noteq> i" "store_next StoreTotal (ls ! j)" for j
    using e th(1) alone that by (cases c rule: bench_rwc_cases) (auto split: option.splits)
  moreover have "0 \<le> bs_my s' i \<and> bs_my s' i + M * int (will_read cs) \<le> B"
    using e v(1,2) th(2) [OF i(1)] i(2) by (cases c rule: bench_rwc_cases) (auto split: option.splits simp: algebra_simps)
  moreover have "bs_my s' j = bs_my s j" if "j \<noteq> i" for j
    using e that by (cases c rule: bench_rwc_cases) (auto split: option.splits)
  ultimately show ?thesis using scripts c(1) w(1) i(1) th(2)
    unfolding bench_inv_def T B_def [symmetric] by (auto simp: nth_list_update dest: set_updD)
qed

lemma bench_program:
  assumes "(rd, wr) \<in> {(mutex_rd, mutex_wr), (shared_rd, shared_wr), (atomic_rd, atomic_wr)}"
  shows "rw_program rw_acquire rw_release rl_readers (\<lambda>k. of_bool (rl_writer k)) rw_free bench_exec bench_init
    (rw_bench rd wr NR R NW W) (bench_inv (int (W - 1)) NR R)"
proof unfold_locales
  show "one_lock None cs" if "cs \<in> set (rw_bench rd wr NR R NW W)" for cs using bench_scripts(5) [OF that assms] .
next
  show "bench_inv (int (W - 1)) NR R bench_init (rw_bench rd wr NR R NW W)"
    using bench_scripts [OF nth_mem assms] bench_scripts [OF _ assms] bench_summings [OF assms]
    unfolding bench_inv_def bench_init_def by (auto intro: mult_left_mono simp del: of_nat_diff)
next
  show "bench_exec i d s \<noteq> []" for i d s by (cases d) auto
qed (rule bench_inv_step, simp_all)

subsection \<open>Properties\<close>


text \<open>in each variant, when nothing can move all threads have returned and \<open>total\<close> is the sum of reads of values that were
  written, at most \<open>READERS * READS * (WRITES - 1)\<close>, which for the constants of the program is far below the
  largest \<open>long long\<close>.\<close>

theorem bench_total_bounded:
  assumes "(rd, wr) \<in> {(mutex_rd, mutex_wr), (shared_rd, shared_wr), (atomic_rd, atomic_wr)}"
    and "reach (step bench_prog) (bench_start (rw_bench rd wr READERS READS WRITERS WRITES)) c" "stuck bench_prog c"
  shows "all_fin bench_prog c \<and> 0 \<le> bs_total (snd (shared c))
    \<and> bs_total (snd (shared c)) \<le> int READERS * int READS * int (WRITES - 1)
    \<and> (READERS = 8 \<and> READS = 200000 \<and> WRITES = 1000 \<longrightarrow> bs_total (snd (shared c)) < 2 ^ 63)"
proof -
  note r = assms(2) [unfolded bench_prog_def bench_start_def]
  have "all_fin bench_prog c"
    using rw_program.rw_stuck_fin(1) [OF bench_program [OF assms(1)] r] assms(3) by (simp add: bench_prog_def)
  moreover have inv: "bench_inv (int (WRITES - 1)) READERS READS (snd (shared c)) (locs c)"
    using rw_program.rw_reach(3) [OF bench_program [OF assms(1)] r] .
  have "0 \<le> int (WRITES - 1) * int READS * int (sum_list (map summings (locs c)))" by simp
  with inv have "0 \<le> bs_total (snd (shared c))" "bs_total (snd (shared c)) \<le> int (WRITES - 1) * int READS * int READERS"
    unfolding bench_inv_def by linarith+
  ultimately show ?thesis by (auto simp: ac_simps)
qed

definition bench_demo :: "(nat \<times> choice) list \<times> ((nat \<Rightarrow> rwl) \<times> bench_state, bench_cmd rwc list) cfg" where
  "bench_demo = drive bench_prog [1, 0] 60 (bench_start (rw_bench shared_rd shared_wr 1 2 1 3))"

lemma bench_demo_fin: "all_finb bench_prog (snd bench_demo)"
  by code_simp

theorem bench_total_bounded_witness: "bs_total (snd (shared (snd bench_demo))) \<le> 4"
proof -
  have r: "reach (step bench_prog) (bench_start (rw_bench shared_rd shared_wr 1 2 1 3)) (snd bench_demo)"
    unfolding bench_demo_def by (rule drive_reach)
  show ?thesis using bench_total_bounded [OF _ r] bench_demo_fin by (simp add: all_finb all_fin_stuck)
qed

end
