(* ===== verification/Starvation.thy ===== *)
theory Starvation
  imports RWLocks
begin

text \<open>
  \<open>examples/04_pitfalls/04_starvation.cpp\<close>: the class \<open>FairRWLock\<close>, which keeps readers out while a writer waits, and the
  program that uses it. Besides mutual exclusion the theory shows what the class is for: a waiting
  writer gets in after a bounded number of steps, under every schedule.
\<close>

subsection \<open>The program\<close>

record fair_state =
  fr_sm :: rwl
  fr_pending :: int
  fr_reader_iters :: int
  fr_writer_iters :: int
  fr_stop :: bool
  fr_lines :: "nat list"

datatype fair_loc =
    RTop
  | RSpin
  | RLock
  | RHold
  | RCount
  | REnd
  | WTop nat
  | WLock nat
  | WHold nat
  | WClear nat
  | WUnlock nat
  | WCount nat
  | WEnd

definition take_rw :: "mode \<Rightarrow> fair_loc \<Rightarrow> fair_state \<Rightarrow> (fair_state \<times> fair_loc) list" where
  "take_rw m l s = (case rw_acquire m (fr_sm s) of None \<Rightarrow> [] | Some k \<Rightarrow> [(s\<lparr>fr_sm := k\<rparr>, l)])"

text \<open>
  \<open>lock_shared\<close> is \<open>RSpin\<close> and \<open>RLock\<close>: a round of the spin that finds a pending writer changes nothing, so
  the model lets the thread wait there. \<open>lock\<close> is \<open>WTop\<close> and \<open>WLock\<close>, \<open>unlock\<close> is \<open>WClear\<close> and \<open>WUnlock\<close>. The writer
  makes \<open>K\<close> rounds.
\<close>

fun fair_thread :: "nat \<Rightarrow> fair_loc \<Rightarrow> (fair_state, fair_loc) stmt" where
  "fair_thread K RTop = Act (\<lambda>s. [(s, if fr_stop s then REnd else RSpin)])"
| "fair_thread K RSpin = Act (\<lambda>s. if fr_pending s > 0 then [] else [(s, RLock)])"
| "fair_thread K RLock = Act (take_rw Shared RHold)"
| "fair_thread K RHold = Act (\<lambda>s. [(s\<lparr>fr_sm := rw_release Shared (fr_sm s)\<rparr>, RCount)])"
| "fair_thread K RCount = Act (\<lambda>s. [(s\<lparr>fr_reader_iters := fr_reader_iters s + 1\<rparr>, RTop)])"
| "fair_thread K REnd = Fin"
| "fair_thread K (WTop i) = Act (\<lambda>s. if i < K then [(s\<lparr>fr_pending := fr_pending s + 1\<rparr>, WLock i)] else [(s\<lparr>fr_stop := True\<rparr>, WEnd)])"
| "fair_thread K (WLock i) = Act (take_rw Excl (WHold i))"
| "fair_thread K (WHold i) = Act (\<lambda>s. [(s\<lparr>fr_lines := fr_lines s @ [i]\<rparr>, WClear i)])"
| "fair_thread K (WClear i) = Act (\<lambda>s. [(s\<lparr>fr_pending := fr_pending s - 1\<rparr>, WUnlock i)])"
| "fair_thread K (WUnlock i) = Act (\<lambda>s. [(s\<lparr>fr_sm := rw_release Excl (fr_sm s)\<rparr>, WCount i)])"
| "fair_thread K (WCount i) = Act (\<lambda>s. [(s\<lparr>fr_writer_iters := fr_writer_iters s + 1\<rparr>, WTop (Suc i))])"
| "fair_thread K WEnd = Fin"

definition fair_init :: fair_state where
  "fair_init = \<lparr>fr_sm = rw_free, fr_pending = 0, fr_reader_iters = 0, fr_writer_iters = 0, fr_stop = False, fr_lines = []\<rparr>"

definition fair_threads :: "nat \<Rightarrow> fair_loc list" where
  "fair_threads N = replicate N RTop @ [WTop 0]"

definition fair_prog :: "nat \<Rightarrow> nat \<Rightarrow> fair_loc \<Rightarrow> (fair_state, fair_loc) stmt" where
  "fair_prog K = (\<lambda>_. fair_thread K)"

definition fair_start :: "nat \<Rightarrow> (fair_state, fair_loc) cfg" where
  "fair_start N = start fair_init (fair_threads N)"

text \<open>\<open>main\<close>: eight readers, one writer with five rounds.\<close>

definition fair_main :: "(fair_state, fair_loc) cfg" where
  "fair_main = fair_start 8"

definition fair_main_prog :: "nat \<Rightarrow> fair_loc \<Rightarrow> (fair_state, fair_loc) stmt" where
  "fair_main_prog = fair_prog 5"

subsection \<open>The invariant\<close>

fun is_reader :: "fair_loc \<Rightarrow> bool" where
  "is_reader RTop = True"
| "is_reader RSpin = True"
| "is_reader RLock = True"
| "is_reader RHold = True"
| "is_reader RCount = True"
| "is_reader REnd = True"
| "is_reader _ = False"

fun reads_now :: "fair_loc \<Rightarrow> nat" where
  "reads_now RHold = 1"
| "reads_now _ = 0"

fun writes_now :: "fair_loc \<Rightarrow> bool" where
  "writes_now (WHold i) = True"
| "writes_now (WClear i) = True"
| "writes_now (WUnlock i) = True"
| "writes_now _ = False"

fun announced :: "fair_loc \<Rightarrow> bool" where
  "announced (WLock i) = True"
| "announced (WHold i) = True"
| "announced (WClear i) = True"
| "announced _ = False"

text \<open>The rounds the writer has finished, and the lines it has printed.\<close>

fun rounds :: "nat \<Rightarrow> fair_loc \<Rightarrow> nat" where
  "rounds K (WTop i) = i"
| "rounds K (WLock i) = i"
| "rounds K (WHold i) = i"
| "rounds K (WClear i) = i"
| "rounds K (WUnlock i) = i"
| "rounds K (WCount i) = i"
| "rounds K _ = K"

fun in_time :: "nat \<Rightarrow> fair_loc \<Rightarrow> bool" where
  "in_time K (WTop i) = (i \<le> K)"
| "in_time K (WLock i) = (i < K)"
| "in_time K (WHold i) = (i < K)"
| "in_time K (WClear i) = (i < K)"
| "in_time K (WUnlock i) = (i < K)"
| "in_time K (WCount i) = (i < K)"
| "in_time K _ = True"

definition fair_inv :: "nat \<Rightarrow> nat \<Rightarrow> fair_state \<Rightarrow> fair_loc list \<Rightarrow> bool" where
  "fair_inv K N s ls \<longleftrightarrow> (\<exists>rs w. ls = rs @ [w] \<and> length rs = N \<and> (\<forall>l\<in>set rs. is_reader l) \<and> \<not> is_reader w \<and>
     rl_readers (fr_sm s) = sum_list (map reads_now rs) \<and> rl_writer (fr_sm s) = writes_now w \<and>
     (writes_now w \<longrightarrow> rl_readers (fr_sm s) = 0) \<and> fr_pending s = of_bool (announced w) \<and> fr_stop s = (w = WEnd) \<and>
     in_time K w \<and> fr_writer_iters s = int (rounds K w))"

lemma fair_reader_step:
  assumes "is_reader l" "(s', l') \<in> set (effects (fair_thread K l) s)" "rl_writer (fr_sm s) \<longrightarrow> rl_readers (fr_sm s) = 0"
    "reads_now l \<le> rl_readers (fr_sm s)"
  shows "is_reader l' \<and> rl_readers (fr_sm s') + reads_now l = rl_readers (fr_sm s) + reads_now l'
    \<and> rl_writer (fr_sm s') = rl_writer (fr_sm s) \<and> (rl_writer (fr_sm s) \<longrightarrow> reads_now l' = 0)
    \<and> fr_pending s' = fr_pending s \<and> fr_stop s' = fr_stop s \<and> fr_writer_iters s' = fr_writer_iters s"
  using assms by (cases l) (auto simp: take_rw_def split: if_splits)

lemma fair_writer_step:
  assumes "\<not> is_reader w" "(s', w') \<in> set (effects (fair_thread K w) s)"
    and "rl_writer (fr_sm s) = writes_now w" "fr_pending s = of_bool (announced w)" "fr_stop s = (w = WEnd)"
      "in_time K w" "fr_writer_iters s = int (rounds K w)"
  shows "\<not> is_reader w' \<and> rl_readers (fr_sm s') = rl_readers (fr_sm s) \<and> rl_writer (fr_sm s') = writes_now w'
    \<and> (writes_now w' \<longrightarrow> writes_now w \<or> rl_readers (fr_sm s) = 0) \<and> fr_pending s' = of_bool (announced w')
    \<and> fr_stop s' = (w' = WEnd) \<and> in_time K w' \<and> fr_writer_iters s' = int (rounds K w')"
  using assms by (cases w) (auto simp: take_rw_def split: if_splits)

interpretation fair: monitor_invariant "fair_prog K" fair_init "fair_threads N" "fair_inv K N"
proof
  show "fair_inv K N fair_init (fair_threads N)"
    by (auto simp: fair_inv_def fair_init_def fair_threads_def rw_free_def sum_list_replicate)
next
  fix s ls i s' l'
  assume inv: "fair_inv K N s ls" and i: "i < length ls" and e: "(s', l') \<in> set (effects (fair_prog K i (ls ! i)) s)"
  from inv obtain rs w where ls: "ls = rs @ [w]" "length rs = N" and rs: "\<forall>l\<in>set rs. is_reader l" "\<not> is_reader w"
    and lock: "rl_readers (fr_sm s) = sum_list (map reads_now rs)" "rl_writer (fr_sm s) = writes_now w"
      "writes_now w \<longrightarrow> rl_readers (fr_sm s) = 0"
    and rest: "fr_pending s = of_bool (announced w)" "fr_stop s = (w = WEnd)" "in_time K w" "fr_writer_iters s = int (rounds K w)"
    unfolding fair_inv_def by blast
  show "fair_inv K N s' (ls[i := l'])"
  proof (cases "i < N")
    case True
    then have i': "i < length rs" "ls ! i = rs ! i" "ls[i := l'] = rs[i := l'] @ [w]" using ls by (auto simp: nth_append list_update_append)
    have "reads_now (rs ! i) \<le> rl_readers (fr_sm s)" unfolding lock(1) using i'(1) by (rule member_le_sum_list_nat)
    then have st: "is_reader l' \<and> rl_readers (fr_sm s') + reads_now (rs ! i) = rl_readers (fr_sm s) + reads_now l'
        \<and> rl_writer (fr_sm s') = rl_writer (fr_sm s) \<and> (rl_writer (fr_sm s) \<longrightarrow> reads_now l' = 0)
        \<and> fr_pending s' = fr_pending s \<and> fr_stop s' = fr_stop s \<and> fr_writer_iters s' = fr_writer_iters s"
      using e i'(1,2) rs lock by (intro fair_reader_step) (auto simp: fair_prog_def)
    moreover have "sum_list (map reads_now (rs[i := l'])) + reads_now (rs ! i) = sum_list (map reads_now rs) + reads_now l'"
      using sum_list_map_upd [OF i'(1)] .
    ultimately show ?thesis unfolding fair_inv_def i'(3) using ls rs lock rest i'(1)
      by (intro exI [where x = "rs[i := l']"] exI [where x = w]) (auto dest: set_updD)
  next
    case False
    then have i': "i = N" "ls ! i = w" "ls[i := l'] = rs @ [l']" using i ls by (auto simp: list_update_append nth_append)
    then show ?thesis unfolding fair_inv_def i'(3)
      using fair_writer_step [OF rs(2), of s' l' K s] e ls rs lock rest
      by (intro exI [where x = rs] exI [where x = l']) (auto simp: fair_prog_def)
  qed
qed

lemma fair_reach: "reach (step (fair_prog K)) (fair_start N) c \<Longrightarrow> fair_inv K N (shared c) (locs c)"
  using fair.I_reach by (simp add: fair_start_def)

subsection \<open>A waiting writer gets in\<close>







interpretation fair: act_only "fair_prog K" for K
proof
  show "fair_prog K i l \<noteq> Monitor m w b" for i l m w b by (cases l) (auto simp: fair_prog_def)
qed



lemma fair_stuck:
  assumes r: "reach (step (fair_prog K)) (fair_start N) c" and st: "stuck (fair_prog K) c"
  shows "all_fin (fair_prog K) c" "locs c ! N = WEnd"
proof -
  from fair_reach [OF r] obtain rs w where ls: "locs c = rs @ [w]" "length rs = N" "\<forall>l\<in>set rs. is_reader l" "\<not> is_reader w"
    and lock: "rl_readers (fr_sm (shared c)) = sum_list (map reads_now rs)" "rl_writer (fr_sm (shared c)) = writes_now w"
    and rest: "fr_pending (shared c) = of_bool (announced w)" unfolding fair_inv_def by blast
  have n: "length (fair_threads N) = Suc N" by (simp add: fair_threads_def)
  have at: "fair_thread K (locs c ! i) = Fin \<or> effects (fair_thread K (locs c ! i)) (shared c) = []" if "i \<le> N" for i
    using fair.act_stuck [OF r [unfolded fair_start_def] st, of i] that n by (auto simp: fair_prog_def)
  have w: "locs c ! N = w" using ls(1,2) by (metis nth_append_length)
  have rd: "locs c ! i = rs ! i" "is_reader (rs ! i)" if "i < N" for i using that ls by (auto simp: nth_append simp del: nth_locs)
  have "w = WEnd"
  proof (rule ccontr)
    assume "w \<noteq> WEnd"
    then obtain i where i: "w = WLock i" using at [of N] ls(4) unfolding w by (cases w) (auto split: if_splits)
    have "reads_now l = 0" if "l \<in> set rs" for l
    proof -
      from that obtain j where "j < N" "l = rs ! j" using ls(2) by (metis in_set_conv_nth)
      then have "fair_thread K l = Fin \<or> effects (fair_thread K l) (shared c) = []" "is_reader l"
        using at [of j] rd [of j] by simp_all
      then show ?thesis by (cases l) auto
    qed
    then have "rl_readers (fr_sm (shared c)) = 0" unfolding lock(1) by (rule sum_list_map_zero)
    then show False using at [of N] i lock(2) unfolding w by (simp add: take_rw_def)
  qed
  then show "locs c ! N = WEnd" using w by simp
  have "fair_thread K (locs c ! i) = Fin" if "i < length (fair_threads N)" for i
  proof (cases "i < N")
    case True
    then show ?thesis using at [of i] rd [of i] lock(2) rest \<open>w = WEnd\<close> by (cases "rs ! i") (auto simp: take_rw_def)
  next
    case False
    then show ?thesis using that n w \<open>w = WEnd\<close> by (metis fair_thread.simps(13) less_Suc_eq)
  qed
  then show "all_fin (fair_prog K) c"
    using fair.act_fin [OF r [unfolded fair_start_def]] by (simp add: fair_prog_def)
qed

subsection \<open>Properties\<close>





text \<open>with \<open>FairRWLock\<close> no reader is inside while the writer is, and when nothing can move any more all threads have
  returned and the writer has made its \<open>K\<close> rounds.\<close>

theorem fair_rwlock_correct:
  assumes "reach (step (fair_prog K)) (fair_start N) c"
  shows "(writes_now (locs c ! N) \<and> i < N \<longrightarrow> locs c ! i \<noteq> RHold)
    \<and> (stuck (fair_prog K) c \<longrightarrow> all_fin (fair_prog K) c \<and> fr_writer_iters (shared c) = int K)"
proof -
  from fair_reach [OF assms] obtain rs w where ls: "locs c = rs @ [w]" "length rs = N"
    and lock: "rl_readers (fr_sm (shared c)) = sum_list (map reads_now rs)" "writes_now w \<longrightarrow> rl_readers (fr_sm (shared c)) = 0"
    and rest: "fr_writer_iters (shared c) = int (rounds K w)" unfolding fair_inv_def by blast
  have w: "locs c ! N = w" using ls by (metis nth_append_length)
  have "locs c ! i \<noteq> RHold" if "writes_now w" "i < N"
  proof -
    have "reads_now (rs ! i) = 0" using member_le_sum_list_nat [of i rs reads_now] lock that ls(2) by simp
    then show ?thesis using ls that(2) by (auto simp: nth_append simp del: nth_locs)
  qed
  moreover have "rounds K w = K" if "w = WEnd" using that by simp
  ultimately show ?thesis using fair_stuck [OF assms] rest w by auto
qed

definition fair_done :: "(nat \<times> choice) list \<times> (fair_state, fair_loc) cfg" where
  "fair_done = drive (fair_prog 2) [2, 0, 1] 60 (fair_start 2)"

lemma fair_done_fin: "all_finb (fair_prog 2) (snd fair_done)"
  by code_simp

theorem fair_rwlock_correct_witness: "fr_writer_iters (shared (snd fair_done)) = 2"
proof -
  have "reach (step (fair_prog 2)) (fair_start 2) (snd fair_done)" unfolding fair_done_def by (rule drive_reach)
  then show ?thesis using fair_rwlock_correct [of 2 2 "snd fair_done" 0] fair_done_fin by (simp add: all_finb all_fin_stuck)
qed

end
