(* ===== verification/TryLocks.thy ===== *)
theory TryLocks
  imports Scripts
begin

text \<open>
  Locks that need not be waited for: \<open>pthread_mutex_trylock\<close> and \<open>pthread_mutex_timedlock\<close>
  (\<open>examples/01_pthreads/02_mutex/03_trylock.c\<close> and \<open>04_timed_lock.c\<close>), \<open>std::timed_mutex\<close>
  (\<open>examples/02_cpp11_threads/02_mutex/06_timed_mutex.cpp\<close>) and the livelock of two threads that
  are too polite (\<open>examples/04_pitfalls/03_livelock.cpp\<close>).
\<close>

subsection \<open>The mutex and its three kinds of attempts\<close>

text \<open>A mutex is free or held by a thread. The error numbers are those of Linux.\<close>

type_synonym mutex = "nat option"

definition EBUSY :: int where
  "EBUSY = 16"

definition ETIMEDOUT :: int where
  "ETIMEDOUT = 110"

definition pthread_mutex_lock :: "nat \<Rightarrow> mutex \<Rightarrow> mutex list" where
  "pthread_mutex_lock i m = (case m of None \<Rightarrow> [Some i] | Some j \<Rightarrow> [])"

definition pthread_mutex_trylock :: "nat \<Rightarrow> mutex \<Rightarrow> mutex \<times> int" where
  "pthread_mutex_trylock i m = (case m of None \<Rightarrow> (Some i, 0) | Some j \<Rightarrow> (m, EBUSY))"

text \<open>While the mutex is held the deadline may pass; a mutex that is free is taken.\<close>

definition pthread_mutex_timedlock :: "nat \<Rightarrow> mutex \<Rightarrow> mutex \<times> int" where
  "pthread_mutex_timedlock i m = (case m of None \<Rightarrow> (Some i, 0) | Some j \<Rightarrow> (m, ETIMEDOUT))"

subsection \<open>A holder and one that tries\<close>

datatype msg = Acquired | Released | Got nat | Busy nat | TimedOut nat | ErrorMsg int

text \<open>
  \<open>Lock\<close>, \<open>Unlock\<close> and \<open>Say\<close> are single commands; \<open>TryLoop k\<close> is the loop of \<open>poker\<close> before
  iteration \<open>k\<close>, \<open>TimedLock k\<close> the \<open>k\<close>-th timed attempt of a waiter with its branches.
\<close>

datatype tl_cmd = Lock | Unlock | Say msg | TryLoop nat | TimedLock nat

record tl_state =
  tl_lock :: mutex
  tl_out :: "nat \<Rightarrow> msg list"

definition tl_say :: "nat \<Rightarrow> msg \<Rightarrow> tl_state \<Rightarrow> tl_state" where
  "tl_say i m s = s\<lparr>tl_out := (tl_out s)(i := tl_out s i @ [m])\<rparr>"

fun tl_exec :: "nat \<Rightarrow> tl_cmd \<Rightarrow> tl_state \<Rightarrow> (tl_state \<times> tl_cmd list) list" where
  "tl_exec i Lock s = map (\<lambda>m. (s\<lparr>tl_lock := m\<rparr>, [])) (pthread_mutex_lock i (tl_lock s))"
| "tl_exec i Unlock s = [(s\<lparr>tl_lock := None\<rparr>, [])]"
| "tl_exec i (Say m) s = [(tl_say i m s, [])]"
| "tl_exec i (TryLoop k) s = (if k < 5 then (case pthread_mutex_trylock i (tl_lock s) of (m, rc) \<Rightarrow> [(s\<lparr>tl_lock := m\<rparr>,
     if rc = 0 then [Say (Got k), Unlock] else if rc = EBUSY then [Say (Busy k), TryLoop (Suc k)] else [Say (ErrorMsg rc)])])
     else [(s, [])])"
| "tl_exec i (TimedLock k) s = (case pthread_mutex_timedlock i (tl_lock s) of (m, rc) \<Rightarrow> [(s\<lparr>tl_lock := m\<rparr>,
     if rc = 0 then [Say (Got k), Unlock] else if rc = ETIMEDOUT then [Say (TimedOut k)] else [Say (ErrorMsg rc)])])"

definition trylock_holder :: "tl_cmd list" where
  "trylock_holder = [Lock, Say Acquired, Unlock, Say Released]"

definition poker :: "tl_cmd list" where
  "poker = [TryLoop 0]"

definition timed_holder :: "tl_cmd list" where
  "timed_holder = [Lock, Say Acquired, Unlock]"

definition timed_waiter :: "tl_cmd list" where
  "timed_waiter = [TimedLock 0]"

definition timed_mutex_holder :: "tl_cmd list" where
  "timed_mutex_holder = [Lock, Unlock]"

definition timed_mutex_waiter :: "tl_cmd list" where
  "timed_mutex_waiter = [TimedLock 0, TimedLock 1]"

definition tl_init :: tl_state where
  "tl_init = \<lparr>tl_lock = None, tl_out = (\<lambda>_. [])\<rparr>"

definition tl_start :: "tl_cmd list \<Rightarrow> tl_cmd list \<Rightarrow> (tl_state, tl_cmd list) cfg" where
  "tl_start h w = start tl_init [h, w]"

text \<open>The three programs.\<close>

definition trylock_main :: "(tl_state, tl_cmd list) cfg" where
  "trylock_main = tl_start trylock_holder poker"

definition timed_lock_main :: "(tl_state, tl_cmd list) cfg" where
  "timed_lock_main = tl_start timed_holder timed_waiter"

definition timed_mutex_main :: "(tl_state, tl_cmd list) cfg" where
  "timed_mutex_main = tl_start timed_mutex_holder timed_mutex_waiter"

subsection \<open>What holds between the lock and the scripts\<close>

text \<open>
  A script is well bracketed when it unlocks what it has locked: \<open>owes cs\<close> says that it starts
  inside, with the lock to be released, \<open>tidy cs\<close> that it starts outside.
\<close>

fun tidy :: "tl_cmd list \<Rightarrow> bool" and owes :: "tl_cmd list \<Rightarrow> bool" where
  "tidy [] = True"
| "tidy (c # cs) = (case c of Lock \<Rightarrow> owes cs | Unlock \<Rightarrow> False | _ \<Rightarrow> tidy cs)"
| "owes [] = False"
| "owes (c # cs) = (case c of Unlock \<Rightarrow> tidy cs | Say m \<Rightarrow> owes cs | _ \<Rightarrow> False)"

lemma not_both: "owes cs \<Longrightarrow> \<not> tidy cs"
  by (induction cs) (auto split: tl_cmd.splits)

definition tl_inv :: "nat \<Rightarrow> tl_state \<Rightarrow> tl_cmd list list \<Rightarrow> bool" where
  "tl_inv n s ls \<longleftrightarrow> length ls = n \<and> (\<forall>i<n. if tl_lock s = Some i then owes (ls ! i) else tidy (ls ! i)) \<and>
     (\<forall>i. tl_lock s = Some i \<longrightarrow> i < n)"

lemma tl_inv_step:
  assumes inv: "tl_inv n s ls" and i: "i < length ls" "ls ! i = c # cs" and e: "(s', ds) \<in> set (tl_exec i c s)"
  shows "tl_inv n s' (ls[i := ds @ cs])"
proof -
  have own: "if tl_lock s = Some i then owes (c # cs) else tidy (c # cs)" and n: "i < n" "length ls = n"
    using inv i by (auto simp: tl_inv_def)
  have "(if tl_lock s' = Some i then owes (ds @ cs) else tidy (ds @ cs)) \<and>
      (\<forall>j. j \<noteq> i \<longrightarrow> (tl_lock s' = Some j \<longleftrightarrow> tl_lock s = Some j))"
    using e own
    by (cases c) (auto simp: pthread_mutex_lock_def pthread_mutex_trylock_def pthread_mutex_timedlock_def tl_say_def
        EBUSY_def ETIMEDOUT_def split: option.splits if_splits)
  then show ?thesis using inv n by (auto simp: tl_inv_def nth_list_update)
qed

lemma tl_client: "list_all tidy ps \<Longrightarrow> script_invariant tl_exec tl_init ps (tl_inv (length ps))"
proof unfold_locales
  show "list_all tidy ps \<Longrightarrow> tl_inv (length ps) tl_init ps" by (auto simp: tl_inv_def tl_init_def list_all_length)
qed (rule tl_inv_step)

text \<open>
  Only a thread about to call \<open>lock\<close> can be blocked, and only while another holds the mutex, which
  is not blocked then: somebody can always move.
\<close>

lemma tl_stuck_fin:
  assumes t: "list_all tidy ps" and r: "reach (step (script tl_exec)) (start tl_init ps) c" "stuck (script tl_exec) c"
  shows "all_fin (script tl_exec) c \<and> tl_lock (shared c) = None"
proof -
  have inv: "tl_inv (length ps) (shared c) (locs c)"
    by (rule script_invariant.script_reach [OF tl_client [OF t] r(1)])
  have blocked: "d = Lock \<and> tl_lock (shared c) \<noteq> None" if "tl_exec i d (shared c) = []" for i d
    using that by (cases d) (auto simp: pthread_mutex_lock_def split: if_splits prod.splits option.splits)
  have free: "tl_lock (shared c) = None"
  proof (rule ccontr)
    assume "tl_lock (shared c) \<noteq> None"
    then obtain j where j: "tl_lock (shared c) = Some j" "j < length ps" "owes (locs c ! j)" using inv by (auto simp: tl_inv_def)
    then show False using script_stuckD [OF r j(2)] blocked by fastforce
  qed
  then have "locs c ! i = []" if "i < length ps" for i using script_stuckD [OF r that] blocked by blast
  then show ?thesis using free script_all_fin [OF r] by simp
qed

fun tl_weight :: "tl_cmd \<Rightarrow> nat" where
  "tl_weight (TryLoop k) = 3 * (5 - k) + 1"
| "tl_weight (TimedLock k) = 3"
| "tl_weight _ = 1"

interpretation tl: script_terminating tl_exec tl_weight
proof
  show "weigh tl_weight ds < tl_weight c" if "(s', ds) \<in> set (tl_exec i c s)" for s' ds i c s
    using that by (cases c) (auto split: if_splits prod.splits)
qed

subsection \<open>What is printed\<close>

text \<open>What the poker has printed so far, by where it is.\<close>

definition poke_ok :: "msg list \<Rightarrow> tl_cmd list \<Rightarrow> bool" where
  "poke_ok L cs \<longleftrightarrow> (\<exists>k\<le>5. L = map Busy [0..<k] \<and> (cs = [TryLoop k] \<or>
       k < 5 \<and> (cs = [Say (Busy k), TryLoop (Suc k)] \<or> cs = [Say (Got k), Unlock]) \<or> k = 5 \<and> cs = []) \<or>
     k < 5 \<and> L = map Busy [0..<k] @ [Got k] \<and> (cs = [Unlock] \<or> cs = []))"

lemma tl_exec_out:
  assumes "(s', ds) \<in> set (tl_exec i c s)" "j \<noteq> i"
  shows "tl_out s' j = tl_out s j"
  using assms by (cases c) (auto simp: tl_say_def split: if_splits prod.splits)

lemma poke_ok_exec:
  assumes "poke_ok (tl_out s i) (c # cs)" "(s', ds) \<in> set (tl_exec i c s)"
  shows "poke_ok (tl_out s' i) (ds @ cs)"
proof -
  from assms(1) obtain k where k: "k \<le> 5" and cs: "tl_out s i = map Busy [0..<k] \<and> (c # cs = [TryLoop k] \<or>
      k < 5 \<and> (c # cs = [Say (Busy k), TryLoop (Suc k)] \<or> c # cs = [Say (Got k), Unlock])) \<or>
      k < 5 \<and> tl_out s i = map Busy [0..<k] @ [Got k] \<and> c # cs = [Unlock]" by (auto simp: poke_ok_def)
  then consider (attempt) "tl_out s i = map Busy [0..<k]" "c = TryLoop k" "cs = []"
    | (busy) "k < 5" "tl_out s i = map Busy [0..<k]" "c = Say (Busy k)" "cs = [TryLoop (Suc k)]"
    | (got) "k < 5" "tl_out s i = map Busy [0..<k]" "c = Say (Got k)" "cs = [Unlock]"
    | (unlock) "k < 5" "tl_out s i = map Busy [0..<k] @ [Got k]" "c = Unlock" "cs = []" by auto
  then show ?thesis
  proof cases
    case attempt
    then have "tl_out s' i = map Busy [0..<k] \<and> (k < 5 \<and> (ds = [Say (Got k), Unlock] \<or> ds = [Say (Busy k), TryLoop (Suc k)]) \<or> \<not> k < 5 \<and> ds = [])"
      using assms(2) by (auto simp: pthread_mutex_trylock_def EBUSY_def split: if_splits option.splits)
    then show ?thesis using k attempt unfolding poke_ok_def by (intro exI [where x = k]) auto
  next
    case busy
    then have "tl_out s' i = map Busy [0..<Suc k]" "ds = []" using assms(2) by (simp_all add: tl_say_def)
    then show ?thesis using busy unfolding poke_ok_def by (intro exI [where x = "Suc k"]) auto
  next
    case got
    then have "tl_out s' i = map Busy [0..<k] @ [Got k]" "ds = []" using assms(2) by (simp_all add: tl_say_def)
    then show ?thesis using got unfolding poke_ok_def by (intro exI [where x = k]) auto
  next
    case unlock
    then have "tl_out s' i = map Busy [0..<k] @ [Got k]" "ds = []" using assms(2) by simp_all
    then show ?thesis using unlock unfolding poke_ok_def by (intro exI [where x = k]) auto
  qed
qed

text \<open>The answers of the timed attempts: each attempt is answered once, in order, and without an error.\<close>

fun answer_to :: "msg \<Rightarrow> nat option" where
  "answer_to (Got k) = Some k"
| "answer_to (TimedOut k) = Some k"
| "answer_to _ = None"

fun pending :: "tl_cmd \<Rightarrow> nat option list" where
  "pending (TimedLock k) = [Some k]"
| "pending (Say m) = [answer_to m]"
| "pending _ = []"

definition timed_ok :: "nat list \<Rightarrow> msg list \<Rightarrow> tl_cmd list \<Rightarrow> bool" where
  "timed_ok ks L cs \<longleftrightarrow> map answer_to L @ concat (map pending cs) = map Some ks \<and> (\<forall>k. TryLoop k \<notin> set cs)"

lemma timed_ok_exec:
  assumes "timed_ok ks (tl_out s i) (c # cs)" "(s', ds) \<in> set (tl_exec i c s)"
  shows "timed_ok ks (tl_out s' i) (ds @ cs)"
  using assms by (cases c) (auto simp: timed_ok_def tl_say_def pthread_mutex_timedlock_def EBUSY_def ETIMEDOUT_def split: option.splits)

text \<open>Both are invariants: what another thread does, does not change what this one has printed.\<close>

lemma out_client:
  assumes "ok [] w" "\<And>s i c cs s' ds. ok (tl_out s i) (c # cs) \<Longrightarrow> (s', ds) \<in> set (tl_exec i c s) \<Longrightarrow> ok (tl_out s' i) (ds @ cs)"
  shows "script_invariant tl_exec tl_init [h, w] (\<lambda>s ls. length ls = 2 \<and> ok (tl_out s 1) (ls ! 1))"
proof
  fix s :: tl_state and ls i c cs s' ds
  assume "length ls = 2 \<and> ok (tl_out s 1) (ls ! 1)" "i < length ls" "ls ! i = c # cs" "(s', ds) \<in> set (tl_exec i c s)"
  then show "length (ls[i := ds @ cs]) = 2 \<and> ok (tl_out s' 1) (ls[i := ds @ cs] ! 1)"
    using assms(2) [of s i c cs s' ds] tl_exec_out [of s' ds i c s 1] by (cases "i = 1") auto
qed (use assms(1) in \<open>simp add: tl_init_def\<close>)

lemma poke_ok_reach:
  assumes "reach (step (script tl_exec)) (start tl_init [h, poker]) c"
  shows "length (thr c) = 2" "poke_ok (tl_out (shared c) 1) (locs c ! 1)"
proof -
  have "script_invariant tl_exec tl_init [h, poker] (\<lambda>s ls. length ls = 2 \<and> poke_ok (tl_out s 1) (ls ! 1))"
  proof (rule out_client)
    show "poke_ok [] poker" unfolding poke_ok_def poker_def by (intro exI [where x = 0]) simp
  qed (rule poke_ok_exec)
  from script_invariant.script_reach [OF this assms]
  show "length (thr c) = 2" "poke_ok (tl_out (shared c) 1) (locs c ! 1)" by (simp_all del: nth_locs)
qed

lemma timed_ok_reach:
  assumes "reach (step (script tl_exec)) (start tl_init [h, map TimedLock ks]) c"
  shows "length (thr c) = 2" "timed_ok ks (tl_out (shared c) 1) (locs c ! 1)"
proof -
  have "script_invariant tl_exec tl_init [h, map TimedLock ks] (\<lambda>s ls. length ls = 2 \<and> timed_ok ks (tl_out s 1) (ls ! 1))"
    by (rule out_client) (simp add: timed_ok_def comp_def concat_map_singleton image_iff, rule timed_ok_exec)
  from script_invariant.script_reach [OF this assms]
  show "length (thr c) = 2" "timed_ok ks (tl_out (shared c) 1) (locs c ! 1)" by (simp_all del: nth_locs)
qed

text \<open>whoever is first, the poker makes at most five attempts: it is told that the mutex is busy some
  number of times and then gets it, or is told so five times and gives up. It never sees another
  error, nobody is left waiting, and the mutex is free in the end.\<close>

theorem trylock_outcome:
  assumes "reach (step (script tl_exec)) trylock_main c" "stuck (script tl_exec) c"
  shows "all_fin (script tl_exec) c \<and> tl_lock (shared c) = None \<and>
    (tl_out (shared c) 1 = map Busy [0..<5] \<or> (\<exists>k<5. tl_out (shared c) 1 = map Busy [0..<k] @ [Got k]))"
proof -
  have r: "reach (step (script tl_exec)) (start tl_init [trylock_holder, poker]) c"
    using assms(1) by (simp add: trylock_main_def tl_start_def)
  have fin: "all_fin (script tl_exec) c" "tl_lock (shared c) = None"
    using tl_stuck_fin [OF _ r assms(2)] by (simp_all add: trylock_holder_def poker_def)
  have "poke_ok (tl_out (shared c) 1) []"
    using poke_ok_reach [OF r] all_fin_nth [OF fin(1), of 1] by (simp del: nth_locs)
  with fin show ?thesis by (auto simp: poke_ok_def)
qed

text \<open>a timed attempt is answered, with the mutex or a timeout, each attempt once and in the order of the
  code; nobody is left waiting, and the mutex is free in the end.\<close>

theorem timed_lock_outcome:
  assumes "reach (step (script tl_exec)) (tl_start h (map TimedLock ks)) c" "stuck (script tl_exec) c" "tidy h"
  shows "all_fin (script tl_exec) c \<and> tl_lock (shared c) = None \<and> map answer_to (tl_out (shared c) 1) = map Some ks"
proof -
  have r: "reach (step (script tl_exec)) (start tl_init [h, map TimedLock ks]) c"
    using assms(1) by (simp add: tl_start_def)
  have "tidy (map TimedLock ks)" by (induction ks) auto
  then have fin: "all_fin (script tl_exec) c" "tl_lock (shared c) = None"
    using tl_stuck_fin [OF _ r assms(2)] assms(3) by simp_all
  have "timed_ok ks (tl_out (shared c) 1) []"
    using timed_ok_reach [OF r] all_fin_nth [OF fin(1), of 1] by (simp del: nth_locs)
  with fin show ?thesis by (auto simp: timed_ok_def)
qed

subsection \<open>Livelock\<close>

text \<open>
  \<open>examples/04_pitfalls/03_livelock.cpp\<close>: thread \<open>me\<close> takes its first mutex and tries the second,
  at most \<open>ATT\<close> times. In \<open>fixed\<close> it sleeps for a random time before the next attempt. The model has
  no clock: sleeping is a step that changes nothing, so that everything the two versions can do is
  in it, but not how likely it is.
\<close>

record ll_state =
  ll_m :: "nat \<Rightarrow> mutex"
  ll_iterations :: "nat \<Rightarrow> int"
  ll_said :: "(nat \<times> nat) list"

datatype ll_loc = LFor nat | LSleep nat | LTry nat | LGotBoth nat | LUnlock2 nat | LUnlock1 nat | LStore nat | LRelease nat | LBackoff nat | LReturn

definition first_mutex :: "nat \<Rightarrow> nat" where
  "first_mutex me = (if me = 0 then 0 else 1)"

definition second_mutex :: "nat \<Rightarrow> nat" where
  "second_mutex me = (if me = 0 then 1 else 0)"

definition put_m :: "nat \<Rightarrow> mutex \<Rightarrow> ll_state \<Rightarrow> ll_state" where
  "put_m k v s = s\<lparr>ll_m := (ll_m s)(k := v)\<rparr>"

definition put_it :: "nat \<Rightarrow> int \<Rightarrow> ll_state \<Rightarrow> ll_state" where
  "put_it me v s = s\<lparr>ll_iterations := (ll_iterations s)(me := v)\<rparr>"

text \<open>\<open>backoff\<close> tells \<open>fixed\<close> from \<open>buggy\<close>. A mutex is free or records the thread that holds it.\<close>

fun ll_thread :: "bool \<Rightarrow> nat \<Rightarrow> nat \<Rightarrow> ll_loc \<Rightarrow> (ll_state, ll_loc) stmt" where
  "ll_thread backoff ATT me (LFor n) = (if n < ATT
     then Act (\<lambda>s. case ll_m s (first_mutex me) of None \<Rightarrow> [(put_m (first_mutex me) (Some me) s, LSleep n)] | Some j \<Rightarrow> [])
     else Act (\<lambda>s. [(put_it me (- 1) s, LReturn)]))"
| "ll_thread backoff ATT me (LSleep n) = Act (\<lambda>s. [(s, LTry n)])"
| "ll_thread backoff ATT me (LTry n) = Act (\<lambda>s. case ll_m s (second_mutex me) of
     None \<Rightarrow> [(put_m (second_mutex me) (Some me) s, LGotBoth n)] | Some j \<Rightarrow> [(s, LRelease n)])"
| "ll_thread backoff ATT me (LGotBoth n) = Act (\<lambda>s. [(s\<lparr>ll_said := ll_said s @ [(me, n)]\<rparr>, LUnlock2 n)])"
| "ll_thread backoff ATT me (LUnlock2 n) = Act (\<lambda>s. [(put_m (second_mutex me) None s, LUnlock1 n)])"
| "ll_thread backoff ATT me (LUnlock1 n) = Act (\<lambda>s. [(put_m (first_mutex me) None s, LStore n)])"
| "ll_thread backoff ATT me (LStore n) = Act (\<lambda>s. [(put_it me (int n) s, LReturn)])"
| "ll_thread backoff ATT me (LRelease n) = Act (\<lambda>s. [(put_m (first_mutex me) None s, if backoff then LBackoff n else LFor (Suc n))])"
| "ll_thread backoff ATT me (LBackoff n) = Act (\<lambda>s. [(s, LFor (Suc n))])"
| "ll_thread backoff ATT me LReturn = Fin"



text \<open>The two halves of \<open>main\<close>.\<close>

definition livelock_buggy :: "nat \<Rightarrow> ll_loc \<Rightarrow> (ll_state, ll_loc) stmt" where
  "livelock_buggy = ll_thread False 200"

definition livelock_fixed :: "nat \<Rightarrow> ll_loc \<Rightarrow> (ll_state, ll_loc) stmt" where
  "livelock_fixed = ll_thread True 200"


















definition poke_demo :: "(tl_state, tl_cmd list) cfg" where
  "poke_demo = the (run (step (script tl_exec)) trylock_main
     [(0, Norm 0), (1, Norm 0), (1, Norm 0), (0, Norm 0), (0, Norm 0), (0, Norm 0), (1, Norm 0), (1, Norm 0), (1, Norm 0)])"

lemma poke_demo: "all_finb (script tl_exec) poke_demo"
  by code_simp

lemma poke_demo_reach: "reach (step (script tl_exec)) trylock_main poke_demo"
  unfolding poke_demo_def by (rule run_the_reach) code_simp

theorem trylock_outcome_witness: "tl_lock (shared poke_demo) = None"
  using trylock_outcome [OF poke_demo_reach all_fin_stuck] poke_demo by (simp add: all_finb)

definition timed_demo :: "(tl_state, tl_cmd list) cfg" where
  "timed_demo = the (run (step (script tl_exec)) timed_mutex_main
     [(0, Norm 0), (1, Norm 0), (1, Norm 0), (0, Norm 0), (1, Norm 0), (1, Norm 0), (1, Norm 0)])"

lemma timed_demo: "all_finb (script tl_exec) timed_demo"
  by code_simp

lemma timed_demo_reach: "reach (step (script tl_exec)) (tl_start timed_mutex_holder (map TimedLock [0, 1])) timed_demo"
proof -
  have "reach (step (script tl_exec)) timed_mutex_main timed_demo" unfolding timed_demo_def by (rule run_the_reach) code_simp
  then show ?thesis by (simp add: timed_mutex_main_def timed_mutex_waiter_def)
qed

theorem timed_lock_outcome_witness: "map answer_to (tl_out (shared timed_demo) 1) = [Some 0, Some 1]"
  using timed_lock_outcome [OF timed_demo_reach all_fin_stuck] timed_demo by (simp add: all_finb timed_mutex_holder_def)

end
