(* ===== verification/PollLock.thy ===== *)
theory PollLock
  imports TryLocks
begin

text \<open>
  The branch of \<open>examples/01_pthreads/02_mutex/04_timed_lock.c\<close> for systems without \<open>pthread_mutex_timedlock\<close>: \<open>waiter\<close>
  polls the mutex with \<open>pthread_mutex_trylock\<close> and sleeps 10 milliseconds between two attempts, until a deadline one second
  after its start. The clock is a parameter: \<open>clock k\<close> is what the \<open>k\<close>-th call of \<open>clock_gettime\<close> in \<open>waiter\<close> returns.
\<close>

datatype timespec = Timespec (tv_sec: int) (tv_nsec: int)

definition past :: "timespec \<Rightarrow> timespec \<Rightarrow> bool" where
  "past now deadline \<longleftrightarrow> tv_sec now > tv_sec deadline \<or>
     (tv_sec now = tv_sec deadline \<and> tv_nsec now \<ge> tv_nsec deadline)"







subsection \<open>The clock\<close>

text \<open>Times are ordered by seconds, then by nanoseconds; the test of the code is this order.\<close>

instantiation timespec :: linorder
begin

definition less_eq_timespec :: "timespec \<Rightarrow> timespec \<Rightarrow> bool" where
  "a \<le> b \<longleftrightarrow> tv_sec a < tv_sec b \<or> tv_sec a = tv_sec b \<and> tv_nsec a \<le> tv_nsec b"

definition less_timespec :: "timespec \<Rightarrow> timespec \<Rightarrow> bool" where
  "a < b \<longleftrightarrow> tv_sec a < tv_sec b \<or> tv_sec a = tv_sec b \<and> tv_nsec a < tv_nsec b"

instance
  by standard (auto simp: less_eq_timespec_def less_timespec_def timespec.expand)

end

lemma past_le: "past now deadline \<longleftrightarrow> deadline \<le> now"
  by (auto simp: past_def less_eq_timespec_def)








subsection \<open>The invariant\<close>










subsection \<open>Termination\<close>






subsection \<open>Properties\<close>









end
