(* ===== verification/CondVars.thy ===== *)
theory CondVars
  imports Scripts
begin

text \<open>
  Waiting for an event: threads wait on a condition variable until a flag is set, one thread sets
  it and notifies. The programs are \<open>examples/01_pthreads/03_condition_variables/01_basic_cv.c\<close>, \<open>03_broadcast.c\<close>,
  \<open>examples/02_cpp11_threads/03_condition_variables/01_basic_cv.cpp\<close>, \<open>03_cv_any.cpp\<close> and \<open>good_consumer\<close> of
  \<open>examples/04_pitfalls/07_lost_wakeup.cpp\<close>; its \<open>buggy_consumer\<close>, which waits without a predicate, can sleep for ever.
\<close>

subsection \<open>The programs\<close>

text \<open>
  What the programs differ in: whether a waiter prints after it has released the mutex (\<open>g_late\<close>), the
  payload, the notifications sent under the mutex and after it, and whether the notifying thread
  prints its line before or after.
\<close>

record gate =
  g_late :: bool
  g_payload :: int
  g_pre :: "notify list"
  g_post :: "notify list"
  g_tell_first :: bool

text \<open>A line is the thread that printed it (\<open>None\<close>: the notifying one) and the payload it saw.\<close>

record gate_state =
  gt_ready :: bool
  gt_payload :: int
  gt_lines :: "(nat option \<times> int) list"

datatype gate_loc = Await | Say | Gone | Tell | Fire | Told | Fired

definition gate_say :: "nat option \<Rightarrow> gate_state \<Rightarrow> gate_state" where
  "gate_say w s = s\<lparr>gt_lines := gt_lines s @ [(w, gt_payload s)]\<rparr>"

fun gate_thread :: "gate \<Rightarrow> nat \<Rightarrow> gate_loc \<Rightarrow> (gate_state, gate_loc) stmt" where
  "gate_thread g i Await = Monitor 0 (Some (0, gt_ready))
     (\<lambda>s. if g_late g then (s, Say, [], []) else (gate_say (Some i) s, Gone, [], []))"
| "gate_thread g i Say = Act (\<lambda>s. [(gate_say (Some i) s, Gone)])"
| "gate_thread g i Gone = Fin"
| "gate_thread g i Tell = Act (\<lambda>s. [(gate_say None s, Fire)])"
| "gate_thread g i Fire = Monitor 0 None (\<lambda>s. (s\<lparr>gt_payload := g_payload g, gt_ready := True\<rparr>,
     if g_tell_first g then Fired else Told, g_pre g, g_post g))"
| "gate_thread g i Told = Act (\<lambda>s. [(gate_say None s, Fired)])"
| "gate_thread g i Fired = Fin"

definition gate_init :: gate_state where
  "gate_init = \<lparr>gt_ready = False, gt_payload = 0, gt_lines = []\<rparr>"

definition gate_threads :: "gate \<Rightarrow> nat \<Rightarrow> gate_loc list" where
  "gate_threads g N = replicate N Await @ [if g_tell_first g then Tell else Fire]"

definition gate_start :: "gate \<Rightarrow> nat \<Rightarrow> (gate_state, gate_loc) cfg" where
  "gate_start g N = start gate_init (gate_threads g N)"

definition basic_cv_c :: gate where
  "basic_cv_c = \<lparr>g_late = False, g_payload = 42, g_pre = [NotifyOne 0], g_post = [], g_tell_first = False\<rparr>"

definition basic_cv_cpp :: gate where
  "basic_cv_cpp = \<lparr>g_late = False, g_payload = 42, g_pre = [], g_post = [NotifyOne 0], g_tell_first = False\<rparr>"

definition broadcast_c :: gate where
  "broadcast_c = \<lparr>g_late = True, g_payload = 0, g_pre = [NotifyAll 0], g_post = [], g_tell_first = True\<rparr>"

text \<open>The waiter of \<open>03_cv_any.cpp\<close> holds a shared lock; as the only reader it excludes the writer like a mutex.\<close>

definition cv_any_cpp :: gate where
  "cv_any_cpp = \<lparr>g_late = False, g_payload = 0, g_pre = [], g_post = [NotifyOne 0], g_tell_first = False\<rparr>"

definition good_wakeup :: gate where
  "good_wakeup = \<lparr>g_late = False, g_payload = 0, g_pre = [NotifyAll 0], g_post = [], g_tell_first = False\<rparr>"

text \<open>The five \<open>main\<close>s: one waiter, or the four workers of \<open>03_broadcast.c\<close>.\<close>

definition gate_mains :: "(gate \<times> nat) list" where
  "gate_mains = [(basic_cv_c, 1), (basic_cv_cpp, 1), (broadcast_c, 4), (cv_any_cpp, 1), (good_wakeup, 1)]"

subsection \<open>The invariant\<close>

fun waiting :: "gate_loc \<Rightarrow> nat" where
  "waiting Await = 1"
| "waiting _ = 0"

fun waiter :: "gate_loc \<Rightarrow> bool" where
  "waiter Await = True"
| "waiter Say = True"
| "waiter Gone = True"
| "waiter _ = False"

definition lines_of :: "nat \<Rightarrow> gate_state \<Rightarrow> int list" where
  "lines_of i s = map snd (filter (\<lambda>l. fst l = Some i) (gt_lines s))"

definition gate_inv :: "gate \<Rightarrow> nat \<Rightarrow> gate_state \<Rightarrow> gate_loc list \<Rightarrow> bool" where
  "gate_inv g N s ls \<longleftrightarrow> (\<exists>ws f. ls = ws @ [f] \<and> length ws = N \<and> (\<forall>l\<in>set ws. waiter l) \<and> \<not> waiter f \<and>
     gt_ready s = (f = Told \<or> f = Fired) \<and> (gt_ready s \<longrightarrow> gt_payload s = g_payload g) \<and>
     (\<forall>i<N. (ws ! i \<noteq> Await \<longrightarrow> gt_ready s) \<and> lines_of i s = (if ws ! i = Gone then [g_payload g] else [])))"

fun gate_todo :: "gate_loc \<Rightarrow> nat" where
  "gate_todo Await = 2"
| "gate_todo Say = 1"
| "gate_todo Gone = 0"
| "gate_todo Tell = 3"
| "gate_todo Fire = 2"
| "gate_todo Told = 1"
| "gate_todo Fired = 0"

text \<open>
  The notifications suffice when all waiters are notified, or when there is just one. This is the
  contract between the notifying thread and the waiters.
\<close>

locale gate =
  fixes g :: gate and N :: nat
  assumes enough: "NotifyAll 0 \<in> set (g_pre g @ g_post g) \<or> N \<le> 1 \<and> \<not> g_late g \<and> NotifyOne 0 \<in> set (g_pre g @ g_post g)"
begin

lemma gate_waiter_step:
  assumes "waiter l" "(s', l') \<in> set (effects (gate_thread g i l) s)" "l \<noteq> Await \<longrightarrow> gt_ready s" "gt_ready s \<longrightarrow> gt_payload s = g_payload g"
    "lines_of i s = (if l = Gone then [g_payload g] else [])"
  shows "waiter l'" "gt_ready s' = gt_ready s" "gt_payload s' = gt_payload s" "l' \<noteq> Await \<longrightarrow> gt_ready s"
    "lines_of i s' = (if l' = Gone then [g_payload g] else [])" "j \<noteq> i \<Longrightarrow> lines_of j s' = lines_of j s"
proof -
  have "waiter l' \<and> gt_ready s' = gt_ready s \<and> gt_payload s' = gt_payload s \<and> (l' \<noteq> Await \<longrightarrow> gt_ready s)
    \<and> lines_of i s' = (if l' = Gone then [g_payload g] else []) \<and> (\<forall>j. j \<noteq> i \<longrightarrow> lines_of j s' = lines_of j s)"
  proof (cases l)
    case Await
    show ?thesis
    proof (cases "g_late g")
      case True
      then show ?thesis using assms Await by (cases "gt_ready s") simp_all
    next
      case False
      then have "gt_ready s" "s' = gate_say (Some i) s" "l' = Gone" using assms(2) Await by (cases "gt_ready s"; simp)+
      then show ?thesis using assms(4,5) Await by (simp add: gate_say_def lines_of_def)
    qed
  next
    case Say
    then have "s' = gate_say (Some i) s" "l' = Gone" using assms(2) by simp_all
    then show ?thesis using assms(3,4,5) Say by (simp add: gate_say_def lines_of_def)
  qed (use assms in auto)
  then show "waiter l'" "gt_ready s' = gt_ready s" "gt_payload s' = gt_payload s" "l' \<noteq> Await \<longrightarrow> gt_ready s"
    "lines_of i s' = (if l' = Gone then [g_payload g] else [])" "j \<noteq> i \<Longrightarrow> lines_of j s' = lines_of j s" by blast+
qed

lemma gate_inv_step:
  assumes inv: "gate_inv g N s ls" and i: "i < length ls" and e: "(s', l') \<in> set (effects (gate_thread g i (ls ! i)) s)"
  shows "gate_inv g N s' (ls[i := l'])"
proof -
  from inv obtain ws f where ls: "ls = ws @ [f]" "length ws = N" and k: "\<forall>l\<in>set ws. waiter l" "\<not> waiter f"
    and r: "gt_ready s = (f = Told \<or> f = Fired)" "gt_ready s \<longrightarrow> gt_payload s = g_payload g"
    and w: "\<And>i. i < N \<Longrightarrow> (ws ! i \<noteq> Await \<longrightarrow> gt_ready s) \<and> lines_of i s = (if ws ! i = Gone then [g_payload g] else [])"
    unfolding gate_inv_def by blast
  show ?thesis
  proof (cases "i < N")
    case True
    then have i': "ls ! i = ws ! i" "ls[i := l'] = ws[i := l'] @ [f]" "waiter (ws ! i)" using ls k(1) by (auto simp: nth_append list_update_append)
    have e': "(s', l') \<in> set (effects (gate_thread g i (ws ! i)) s)" using e unfolding i'(1) .
    have old: "ws ! i \<noteq> Await \<longrightarrow> gt_ready s" "lines_of i s = (if ws ! i = Gone then [g_payload g] else [])" using w [OF True] by auto
    note st = gate_waiter_step [OF i'(3) e' old(1) r(2) old(2)]
    have "(ws[i := l'] ! j \<noteq> Await \<longrightarrow> gt_ready s') \<and> lines_of j s' = (if ws[i := l'] ! j = Gone then [g_payload g] else [])" if "j < N" for j
      using st w [OF that] True ls(2) by (cases "j = i") auto
    then show ?thesis unfolding gate_inv_def i'(2) using ls(2) k r st
      by (intro exI [where x = "ws[i := l']"] exI [where x = f]) (auto dest: set_updD)
  next
    case False
    then have i': "i = N" "ls ! i = f" "ls[i := l'] = ws @ [l']" using i ls by (auto simp: list_update_append nth_append)
    have all: "\<forall>j. lines_of j s' = lines_of j s" "gt_ready s \<longrightarrow> gt_ready s'" "gt_ready s' = (l' = Told \<or> l' = Fired)" "\<not> waiter l'"
      "gt_ready s' \<longrightarrow> gt_payload s' = g_payload g"
      using e k(2) r unfolding i'(2) by (cases f; auto simp: gate_say_def lines_of_def split: if_splits)+
    then show ?thesis unfolding gate_inv_def i'(3) using ls(2) k(1) w
      by (intro exI [where x = ws] exI [where x = l']) auto
  qed
qed

lemma gate_inv_init: "gate_inv g N gate_init (gate_threads g N)"
  unfolding gate_inv_def gate_threads_def
  by (cases "g_tell_first g") (intro exI [where x = "replicate N Await"] exI conjI, auto simp: gate_init_def lines_of_def)+

text \<open>How many waiters may proceed.\<close>

definition may_go :: "gate_state \<Rightarrow> enat" where
  "may_go s = (if \<not> gt_ready s then 0 else if NotifyAll 0 \<in> set (g_pre g @ g_post g) then \<infinity>
     else if lines_of 0 s = [] then 1 else 0)"

lemma gate_await: "gate_inv g N s ls \<Longrightarrow> i < length ls \<Longrightarrow> ls ! i = Await \<Longrightarrow> i < N \<and> lines_of i s = []"
  unfolding gate_inv_def by (metis gate_loc.distinct(3) length_append_singleton less_Suc_eq nth_append nth_append_length waiter.simps(1))

lemma gate_signalled: "signalled (gate_thread g) gate_init (gate_threads g N) (gate_inv g N) 0 may_go"
proof
  show "gate_inv g N gate_init (gate_threads g N)" by (rule gate_inv_init)
next
  fix s ls i m p b
  assume inv: "gate_inv g N s ls" and i: "i < length ls" and st: "gate_thread g i (ls ! i) = Monitor m (Some (0, p)) b"
  from st have l: "ls ! i = Await" "p = gt_ready" by (cases "ls ! i"; simp)+
  have "lines_of 0 s = []" if "NotifyAll 0 \<notin> set (g_pre g @ g_post g)"
    using gate_await [OF inv i l(1)] enough that by (auto simp: le_Suc_eq)
  then show "p s \<longleftrightarrow> may_go s \<noteq> 0" by (auto simp: l(2) may_go_def)
  fix s' l' pre post
  assume "p s" "b s = (s', l', pre, post)"
  then show "NotifyAll 0 \<in> set (pre @ post) \<or> may_go s' + 1 \<le> may_go s + enat (count_list (pre @ post) (NotifyOne 0))"
    using st l enough gate_await [OF inv i l(1)] by (auto simp: may_go_def gate_say_def lines_of_def le_Suc_eq split: if_splits)
next
  fix s ls i m w b s' l' pre post
  assume "gate_thread g i (ls ! i) = Monitor m w b" "cv_of (gate_thread g i (ls ! i)) \<noteq> Some 0" "b s = (s', l', pre, post)"
  then have l: "ls ! i = Fire" "pre = g_pre g" "post = g_post g" by (cases "ls ! i"; auto)+
  have "may_go s' \<le> enat (count_list (pre @ post) (NotifyOne 0))" if "NotifyAll 0 \<notin> set (pre @ post)"
  proof -
    have "count_list (pre @ post) (NotifyOne 0) \<noteq> 0" using enough that unfolding l by (auto simp: count_list_0_iff)
    then show ?thesis using that unfolding l may_go_def by (auto simp: one_enat_def zero_enat_def)
  qed
  then show "NotifyAll 0 \<in> set (pre @ post) \<or> may_go s' \<le> may_go s + enat (count_list (pre @ post) (NotifyOne 0))"
    using order_trans by (metis add.commute le_iff_add)
next
  fix s ls i f s' l' assume "gate_thread g i (ls ! i) = Act f" "(s', l') \<in> set (f s)"
  then show "may_go s' \<le> may_go s" by (cases "ls ! i") (auto simp: may_go_def gate_say_def lines_of_def)
qed (rule gate_inv_step)

lemma gate_reach: "reach (step (gate_thread g)) (gate_start g N) c \<Longrightarrow> gate_inv g N (shared c) (locs c)"
  using monitor_invariant.I_reach [OF signalled.axioms(1) [OF gate_signalled]] by (simp add: gate_start_def)

lemma gate_stuck:
  assumes r: "reach (step (gate_thread g)) (gate_start g N) c" and st: "stuck (gate_thread g) c"
  shows "all_fin (gate_thread g) c" "i < N \<Longrightarrow> lines_of i (shared c) = [g_payload g]"
proof -
  note r' = r [unfolded gate_start_def] and ok = reach_ok [OF r [unfolded gate_start_def]]
  have n: "length (thr c) = Suc N" using ok(4) by (simp add: gate_threads_def)
  from gate_reach [OF r] obtain ws f where ls: "locs c = ws @ [f]" "length ws = N" and k: "\<forall>l\<in>set ws. waiter l" "\<not> waiter f"
    and rdy: "gt_ready (shared c) = (f = Told \<or> f = Fired)"
    and w: "\<And>i. i < N \<Longrightarrow> lines_of i (shared c) = (if ws ! i = Gone then [g_payload g] else [])" unfolding gate_inv_def by blast
  have fN: "loc (thr c ! N) = f" using ls n by (metis lessI nth_append_length nth_locs)
  have wi: "loc (thr c ! i) = ws ! i" "waiter (ws ! i)" if "i < N" for i
    using that ls n k(1) by (simp_all flip: nth_locs add: nth_append)
  have at: "\<exists>l. thr c ! i = At l \<and> gate_thread g i l = Fin \<or> thr c ! i = Asleep Await \<and> \<not> gt_ready (shared c)" if i: "i < length (thr c)" for i
    using st i ok(1,2)
  proof (cases rule: stuck_cases)
    case (blocked l f)
    then show ?thesis by (cases l) auto
  next
    case (asleep l m v p b)
    then have l: "l = Await" "v = 0" "p = gt_ready" by (cases l; simp)+
    then show ?thesis using signalled.no_lost_wakeup [OF gate_signalled r' st i, of Await m gt_ready b] asleep by simp
  qed auto
  have "f = Fired" using at [of N] n fN k(2) by (cases f) auto
  then have ready: "gt_ready (shared c)" using rdy by simp
  have gone: "ws ! i = Gone" if "i < N" for i using at [of i] wi [OF that] n that ready by (cases "ws ! i") auto
  show "all_fin (gate_thread g) c" using at ready by (fastforce simp: all_fin_def)
  show "i < N \<Longrightarrow> lines_of i (shared c) = [g_payload g]" using w gone by simp
qed

text \<open>The number of steps is bounded.\<close>

lemma gate_todo_step: "(s', l') \<in> set (effects (gate_thread g i l) s) \<Longrightarrow> gate_todo l' < gate_todo l"
  by (cases l; cases "gt_ready s"; cases "g_late g"; cases "g_tell_first g"; simp)

lemma gate_terminating:
  "terminating (gate_thread g) gate_init (gate_threads g N) (gate_inv g N) (\<lambda>s ls. sum_list (map gate_todo ls))
    (length (g_pre g @ g_post g))"
proof (intro terminating.intro signalled.axioms(1) [OF gate_signalled] terminating_axioms.intro)
  fix s ls i s' l'
  assume i: "i < length ls" and e: "(s', l') \<in> set (effects (gate_thread g i (ls ! i)) s)"
  obtain T where T: "sum_list (map gate_todo ls) = T + gate_todo (ls ! i)"
    "\<And>x. sum_list (map gate_todo (ls[i := x])) = T + gate_todo x" using sum_list_split [OF i] by blast
  have "gate_todo l' < gate_todo (ls ! i)" using e by (rule gate_todo_step)
  then show "sum_list (map gate_todo (ls[i := l'])) < sum_list (map gate_todo ls)" by (simp add: T)
next
  fix s ls i m w b s' l' pre post
  assume "gate_thread g i (ls ! i) = Monitor m w b" "b s = (s', l', pre, post)"
  then show "length pre + length post \<le> length (g_pre g @ g_post g)" by (cases "ls ! i") (auto split: if_splits)
qed

lemma gate_bounded:
  assumes "run (step (gate_thread g)) (gate_start g N) es = Some c"
  shows "length es \<le> (4 + length (g_pre g @ g_post g) * (3 * N + 4)) * (2 * N + 3) + 2 * N + 2 + 3 * spurs es"
proof -
  define F where "F = 4 + length (g_pre g @ g_post g) * (3 * N + 4)"
  define S where "S = sum_list (map gate_todo (gate_threads g N))"
  have "S \<le> 2 * N + 3" by (simp add: S_def gate_threads_def sum_list_replicate)
  then have "F * S \<le> F * (2 * N + 3)" by (rule mult_le_mono2)
  moreover have "length es \<le> F * S + 2 * (N + 1) + 3 * spurs es"
    using terminating.run_bounded [OF gate_terminating assms [unfolded gate_start_def], unfolded terminating.fee_def [OF gate_terminating]]
    by (simp add: F_def S_def gate_threads_def add.commute)
  ultimately have "length es \<le> F * (2 * N + 3) + 2 * (N + 1) + 3 * spurs es"
    by (meson add_le_mono1 order_trans)
  then show ?thesis unfolding F_def by (simp only: distrib_left mult_1_right add.assoc)
qed

end

text \<open>Every program meets the contract.\<close>

interpretation basic_cv_c: gate basic_cv_c 1
  by unfold_locales (simp add: basic_cv_c_def)

interpretation basic_cv_cpp: gate basic_cv_cpp 1
  by unfold_locales (simp add: basic_cv_cpp_def)

interpretation broadcast_c: gate broadcast_c N for N
  by unfold_locales (simp add: broadcast_c_def)

interpretation cv_any_cpp: gate cv_any_cpp 1
  by unfold_locales (simp add: cv_any_cpp_def)

interpretation good_wakeup: gate good_wakeup N for N
  by unfold_locales (simp add: good_wakeup_def)

lemma gate_mains_ok: "(g, N) \<in> set gate_mains \<Longrightarrow> gate g N"
  using basic_cv_c.gate_axioms basic_cv_cpp.gate_axioms broadcast_c.gate_axioms cv_any_cpp.gate_axioms good_wakeup.gate_axioms
  by (auto simp: gate_mains_def)

subsection \<open>Waiting without a predicate\<close>

text \<open>
  \<open>buggy_consumer\<close> tests the flag before it locks the mutex and then waits for a notification whatever
  has happened in between. \<open>lw_asleep\<close> are the threads on the condition variable; the producer is the block
  of \<open>main\<close> that sets the flag.
\<close>

record lw_state =
  lw_ready :: bool
  lw_owner :: "nat option"
  lw_asleep :: "nat list"
  lw_lines :: "bool list"

datatype lw_cmd = TestReady | LockM | UnlockM | WaitM | AwakeM | SetReady | NotifyM | PrintReady

fun lw_exec :: "nat \<Rightarrow> lw_cmd \<Rightarrow> lw_state \<Rightarrow> (lw_state \<times> lw_cmd list) list" where
  "lw_exec i TestReady s = [(s, if lw_ready s then [] else [LockM, WaitM, AwakeM, UnlockM])]"
| "lw_exec i LockM s = (if lw_owner s = None then [(s\<lparr>lw_owner := Some i\<rparr>, [])] else [])"
| "lw_exec i UnlockM s = [(s\<lparr>lw_owner := None\<rparr>, [])]"
| "lw_exec i WaitM s = [(s\<lparr>lw_owner := None, lw_asleep := lw_asleep s @ [i]\<rparr>, [])]"
| "lw_exec i AwakeM s = (if i \<notin> set (lw_asleep s) \<and> lw_owner s = None then [(s\<lparr>lw_owner := Some i\<rparr>, [])] else [])"
| "lw_exec i SetReady s = [(s\<lparr>lw_ready := True\<rparr>, [])]"
| "lw_exec i NotifyM s = [(s\<lparr>lw_asleep := []\<rparr>, [])]"
| "lw_exec i PrintReady s = [(s\<lparr>lw_lines := lw_lines s @ [lw_ready s]\<rparr>, [])]"

definition buggy_consumer :: "lw_cmd list" where
  "buggy_consumer = [TestReady, PrintReady]"

definition set_and_notify :: "lw_cmd list" where
  "set_and_notify = [LockM, SetReady, NotifyM, UnlockM]"

definition lw_init :: lw_state where
  "lw_init = \<lparr>lw_ready = False, lw_owner = None, lw_asleep = [], lw_lines = []\<rparr>"

definition buggy_start :: "(lw_state, lw_cmd list) cfg" where
  "buggy_start = start lw_init [buggy_consumer, set_and_notify]"

subsection \<open>Properties\<close>

text \<open>C23: waiting with a predicate loses no wake-up: when the notifying thread wakes all waiters, or there is one waiter and it
  wakes one, every run ends after a bounded number of steps, the program gets stuck under no schedule before all threads
  have returned, and every waiter has then printed once, with the payload (whether the notification is sent under the
  mutex or after it). The five programs are of this kind.\<close>

theorem gate_opens:
  assumes "NotifyAll 0 \<in> set (g_pre g @ g_post g) \<or> N \<le> 1 \<and> \<not> g_late g \<and> NotifyOne 0 \<in> set (g_pre g @ g_post g) \<or> (g, N) \<in> set gate_mains"
    and "run (step (gate_thread g)) (gate_start g N) es = Some c"
  shows "length es \<le> (4 + length (g_pre g @ g_post g) * (3 * N + 4)) * (2 * N + 3) + 2 * N + 2 + 3 * spurs es \<and>
    (stuck (gate_thread g) c \<longrightarrow> all_fin (gate_thread g) c \<and> (\<forall>i<N. lines_of i (shared c) = [g_payload g]))"
proof -
  have "gate g N" using assms(1) gate_mains_ok by (auto intro: gate.intro)
  then show ?thesis using gate.gate_bounded [OF _ assms(2)] gate.gate_stuck [OF _ run_reach [OF assms(2)]] by blast
qed

definition gate_demo :: "(nat \<times> choice) list \<times> (gate_state, gate_loc) cfg" where
  "gate_demo = drive (gate_thread basic_cv_c) [0, 1] 30 (gate_start basic_cv_c 1)"

lemma gate_demo_fin: "all_finb (gate_thread basic_cv_c) (snd gate_demo)"
  by code_simp

theorem gate_opens_witness: "lines_of 0 (shared (snd gate_demo)) = [42]"
proof -
  have r: "run (step (gate_thread basic_cv_c)) (gate_start basic_cv_c 1) (fst gate_demo) = Some (snd gate_demo)"
    unfolding gate_demo_def by (rule drive_run) simp
  have "lines_of 0 (shared (snd gate_demo)) = [g_payload basic_cv_c]"
    using gate_opens [OF _ r] gate_demo_fin by (simp add: gate_mains_def all_finb all_fin_stuck)
  then show ?thesis by (simp add: basic_cv_c_def)
qed

lemma buggy_run: "case run (step (script lw_exec)) buggy_start (map (\<lambda>i. (i, Norm 0)) [0, 1, 1, 1, 1, 0, 0]) of
    None \<Rightarrow> False | Some c \<Rightarrow> stuckb (script lw_exec) c \<and> lw_ready (shared c) \<and> lw_asleep (shared c) = [0] \<and> lw_lines (shared c) = []"
  by code_simp

text \<open>\<open>buggy_consumer\<close> can miss the wake-up: there is a run in which the flag has been set and everybody notified, and the
  consumer sleeps with nobody left to wake it.\<close>

theorem lost_wakeup:
  "\<exists>c. reach (step (script lw_exec)) buggy_start c \<and> stuck (script lw_exec) c \<and> lw_ready (shared c) \<and> lw_asleep (shared c) = [0]
     \<and> lw_lines (shared c) = []"
proof -
  from buggy_run obtain c where "reach (step (script lw_exec)) buggy_start c" "stuckb (script lw_exec) c"
    "lw_ready (shared c)" "lw_asleep (shared c) = [0]" "lw_lines (shared c) = []"
    by (auto split: option.splits dest!: run_reach simp del: run.simps)
  then show ?thesis using stuckb by blast
qed

subsection \<open>04_timed_wait.c\<close>

text \<open>
  \<open>pthread_cond_timedwait\<close> returns 0 (woken, or a spurious wake-up), and the loop tests again, or \<open>ETIMEDOUT\<close>. The deadline is computed
  once, so it may pass at any time while \<open>main\<close> waits.
\<close>

record tw_state =
  tw_ready :: bool
  tw_locked :: bool
  tw_gave_up :: nat

datatype tw_cmd = TwLock | TwTest | TwWait | TwGiveUp | TwUnlock

fun tw_exec :: "nat \<Rightarrow> tw_cmd \<Rightarrow> tw_state \<Rightarrow> (tw_state \<times> tw_cmd list) list" where
  "tw_exec i TwLock s = (if tw_locked s then [] else [(s\<lparr>tw_locked := True\<rparr>, [])])"
| "tw_exec i TwTest s = [(s, if tw_ready s then [] else [TwWait])]"
| "tw_exec i TwWait s = [(s, [TwTest]), (s, [TwGiveUp])]"
| "tw_exec i TwGiveUp s = [(s\<lparr>tw_gave_up := tw_gave_up s + 1\<rparr>, [])]"
| "tw_exec i TwUnlock s = [(s\<lparr>tw_locked := False\<rparr>, [])]"

definition timed_wait_main :: "tw_cmd list" where
  "timed_wait_main = [TwLock, TwTest, TwUnlock]"

definition tw_init :: tw_state where
  "tw_init = \<lparr>tw_ready = False, tw_locked = False, tw_gave_up = 0\<rparr>"

definition tw_start :: "(tw_state, tw_cmd list) cfg" where
  "tw_start = start tw_init [timed_wait_main]"

definition tw_at :: "tw_state \<Rightarrow> tw_cmd list \<Rightarrow> bool" where
  "tw_at s l \<longleftrightarrow> \<not> tw_ready s \<and> (l = timed_wait_main \<and> \<not> tw_locked s \<and> tw_gave_up s = 0 \<or>
     l \<in> {[TwTest, TwUnlock], [TwWait, TwUnlock], [TwGiveUp, TwUnlock]} \<and> tw_locked s \<and> tw_gave_up s = 0 \<or>
     l = [TwUnlock] \<and> tw_locked s \<and> tw_gave_up s = 1 \<or> l = [] \<and> \<not> tw_locked s \<and> tw_gave_up s = 1)"

fun tw_left :: "tw_cmd list \<Rightarrow> nat" where
  "tw_left [] = 0"
| "tw_left (TwLock # cs) = 5"
| "tw_left (TwTest # cs) = 4"
| "tw_left (TwWait # cs) = 3"
| "tw_left (TwGiveUp # cs) = 2"
| "tw_left (TwUnlock # cs) = 1"

lemma tw_at_step: "tw_at s (c # cs) \<Longrightarrow> (s', ds) \<in> set (tw_exec i c s) \<Longrightarrow> tw_at s' (ds @ cs)"
  by (auto simp: tw_at_def timed_wait_main_def split: if_split_asm)

lemma tw_at_closer: "tw_at s (c # cs) \<Longrightarrow> \<exists>s' ds. (s', ds) \<in> set (tw_exec i c s) \<and> tw_left (ds @ cs) < tw_left (c # cs)"
proof (cases c)
  case TwWait
  then show "tw_at s (c # cs) \<Longrightarrow> ?thesis"
    by (intro exI [where x = s] exI [where x = "[TwGiveUp]"]) (auto simp: tw_at_def timed_wait_main_def)
qed (auto simp: tw_at_def timed_wait_main_def)

lemma tw_init: "tw_at tw_init timed_wait_main"
  by (simp add: tw_at_def tw_init_def)

interpretation tw: monitor_invariant "script tw_exec" tw_init "[timed_wait_main]" "\<lambda>s ls. \<exists>l. ls = [l] \<and> tw_at s l"
  by unfold_locales (auto simp: tw_init intro: tw_at_step elim!: script_effectE)

interpretation tw: may_finish "script tw_exec" tw_init "[timed_wait_main]" "\<lambda>s ls. \<exists>l. ls = [l] \<and> tw_at s l" "\<lambda>s ls. tw_left (ls ! 0)"
proof
  fix s ls i assume "\<exists>l. ls = [l] \<and> tw_at s l" "i < length ls" "script tw_exec i (ls ! i) \<noteq> Fin"
  then obtain c cs where l: "ls = [c # cs]" "i = 0" "tw_at s (c # cs)" by (auto simp: neq_Nil_conv)
  then obtain s' ds where d: "(s', ds) \<in> set (tw_exec 0 c s)" "tw_left (ds @ cs) < tw_left (c # cs)" using tw_at_closer by blast
  then have "(s', ds @ cs) \<in> set (effects (script tw_exec 0 (ls ! 0)) s)" using l by force
  then have "reach (astep (script tw_exec)) (s, ls) (s', [ds @ cs])" using astepI [of 0 ls s' "ds @ cs" "script tw_exec" s] l by simp
  then show "\<exists>s' ls'. reach (astep (script tw_exec)) (s, ls) (s', ls') \<and> tw_left (ls' ! 0) < tw_left (ls ! 0)" using d(2) l by fastforce
qed

text \<open>a timed wait for an event that never happens gives up: the flag is never taken for set, from every reachable
  state \<open>main\<close> can still return, and it stops only when it has returned, with one line printed and the mutex released.\<close>

theorem timed_wait_gives_up:
  assumes "reach (step (script tw_exec)) tw_start c"
  shows "\<not> tw_ready (shared c) \<and> (\<exists>d. reach (step (script tw_exec)) c d \<and> all_fin (script tw_exec) d) \<and>
    (stuck (script tw_exec) c \<longrightarrow> all_fin (script tw_exec) c \<and> tw_gave_up (shared c) = 1 \<and> \<not> tw_locked (shared c))"
proof -
  note r = assms [unfolded tw_start_def]
  obtain l where l: "locs c = [l]" "tw_at (shared c) l" using tw.I_reach [OF r] by blast
  have "l = []" if "stuck (script tw_exec) c" using all_fin_locs [OF tw.stuck_fin [OF r that]] l(1) by (metis last_ConsL last_replicate list.distinct(1) replicate_0)
  then show ?thesis using l(2) tw.can_finish [OF r] tw.stuck_fin [OF r] by (auto simp: tw_at_def timed_wait_main_def)
qed

end
