(* ===== verification/Once.thy ===== *)
theory Once
  imports Scripts
begin

text \<open>
  Lazy initialisation: the three accessors of \<open>examples/03_patterns/08_double_checked_locking.cpp\<close> (a function-local static,
  \<open>std::call_once\<close> and double-checked locking on an atomic pointer) and \<open>examples/02_cpp11_threads/06_call_once/01_call_once.cpp\<close>.
  Construction takes several steps, so that a pointer to a half-built object would be seen.
\<close>

subsection \<open>Three singletons\<close>

text \<open>
  The state of a \<open>std::once_flag\<close>, or of the hidden guard of a function-local static: whoever finds
  \<open>Never\<close> runs the initialisation, whoever finds \<open>Running\<close> waits.
\<close>

type_synonym double = "int \<times> int"

datatype once_flag = Never | Running | Finished

text \<open>
  Accessor 0 is \<open>get_meyers\<close>, 1 \<open>get_call_once\<close>, 2 \<open>get_atomic_dcl\<close>. \<open>sg_heap p\<close> are the fields \<open>a\<close> and \<open>b\<close> of the
  object at \<open>p\<close>, \<open>None\<close> before they are initialised; \<open>sg_made n\<close> counts the constructor calls of accessor
  \<open>n\<close>; \<open>sg_got i\<close> are the pointers that thread \<open>i\<close> has got.
\<close>

record sg_state =
  sg_flag :: "nat \<Rightarrow> once_flag"
  sg_ptr :: "nat \<Rightarrow> nat option"
  sg_locked :: bool
  sg_heap :: "nat \<Rightarrow> int option \<times> double option"
  sg_next :: nat
  sg_made :: "nat \<Rightarrow> nat"
  sg_got :: "nat \<Rightarrow> nat option list"

datatype sg_loc =
    Enter nat
  | New nat
  | SetA nat nat
  | SetB nat nat
  | Publish nat nat
  | EndOnce nat
  | ReadPtr nat
  | Lock
  | Load2
  | Unlock nat
  | Return nat
  | Done

text \<open>
  The constructor of \<open>Singleton\<close>, one field at a time. A double is given by its mantissa and its binary
  exponent: 2.5 is 5 times 2 to the power of -1.
\<close>

definition default_a :: int where
  "default_a = 1"

definition default_b :: double where
  "default_b = (5, -1)"

definition init_a :: "nat \<Rightarrow> sg_state \<Rightarrow> sg_state" where
  "init_a p s = s\<lparr>sg_heap := (sg_heap s)(p := (Some default_a, snd (sg_heap s p)))\<rparr>"

definition init_b :: "nat \<Rightarrow> sg_state \<Rightarrow> sg_state" where
  "init_b p s = s\<lparr>sg_heap := (sg_heap s)(p := (fst (sg_heap s p), Some default_b))\<rparr>"

definition sg_return :: "nat \<Rightarrow> nat option \<Rightarrow> sg_state \<Rightarrow> sg_state" where
  "sg_return i p s = s\<lparr>sg_got := (sg_got s)(i := sg_got s i @ [p])\<rparr>"

fun sg_thread :: "nat \<Rightarrow> sg_loc \<Rightarrow> (sg_state, sg_loc) stmt" where
  "sg_thread i (Enter n) = Act (\<lambda>s.
     if n < 2 then (case sg_flag s n of
         Never \<Rightarrow> [(s\<lparr>sg_flag := (sg_flag s)(n := Running)\<rparr>, New n)]
       | Running \<Rightarrow> []
       | Finished \<Rightarrow> [(s, ReadPtr n)])
     else (case sg_ptr s 2 of None \<Rightarrow> [(s, Lock)] | Some p \<Rightarrow> [(s, Return p)]))"
| "sg_thread i Lock = Act (\<lambda>s. if sg_locked s then [] else [(s\<lparr>sg_locked := True\<rparr>, Load2)])"
| "sg_thread i Load2 = Act (\<lambda>s. case sg_ptr s 2 of None \<Rightarrow> [(s, New 2)] | Some p \<Rightarrow> [(s, Unlock p)])"
| "sg_thread i (New n) = Act (\<lambda>s. [(s\<lparr>sg_heap := (sg_heap s)(sg_next s := (None, None)), sg_next := Suc (sg_next s),
     sg_made := (sg_made s)(n := Suc (sg_made s n))\<rparr>, SetA n (sg_next s))])"
| "sg_thread i (SetA n p) = Act (\<lambda>s. [(init_a p s, SetB n p)])"
| "sg_thread i (SetB n p) = Act (\<lambda>s. [(init_b p s, Publish n p)])"
| "sg_thread i (Publish n p) = Act (\<lambda>s. [(s\<lparr>sg_ptr := (sg_ptr s)(n := Some p)\<rparr>, if n < 2 then EndOnce n else Unlock p)])"
| "sg_thread i (EndOnce n) = Act (\<lambda>s. [(s\<lparr>sg_flag := (sg_flag s)(n := Finished)\<rparr>, ReadPtr n)])"
| "sg_thread i (ReadPtr n) = Act (\<lambda>s. [(sg_return i (sg_ptr s n) s, Enter (Suc n))])"
| "sg_thread i (Unlock p) = Act (\<lambda>s. [(s\<lparr>sg_locked := False\<rparr>, Return p)])"
| "sg_thread i (Return p) = Act (\<lambda>s. [(sg_return i (Some p) s, Done)])"
| "sg_thread i Done = Fin"

definition sg_init :: sg_state where
  "sg_init = \<lparr>sg_flag = (\<lambda>_. Never), sg_ptr = (\<lambda>_. None), sg_locked = False, sg_heap = (\<lambda>_. (None, None)), sg_next = 0,
     sg_made = (\<lambda>_. 0), sg_got = (\<lambda>_. [])\<rparr>"

definition sg_start :: "nat \<Rightarrow> (sg_state, sg_loc) cfg" where
  "sg_start N = start sg_init (replicate N (Enter 0))"

text \<open>\<open>main\<close>: eight threads.\<close>

definition sg_main :: "(sg_state, sg_loc) cfg" where
  "sg_main = sg_start 8"

subsection \<open>The invariant\<close>

text \<open>Which accessor a thread is constructing for, and whether it holds the mutex.\<close>

fun builds :: "nat \<Rightarrow> sg_loc \<Rightarrow> nat" where
  "builds n (New m) = of_bool (m = n)"
| "builds n (SetA m p) = of_bool (m = n)"
| "builds n (SetB m p) = of_bool (m = n)"
| "builds n (Publish m p) = of_bool (m = n)"
| "builds n (EndOnce m) = of_bool (m = n)"
| "builds n _ = 0"

fun in_lock :: "sg_loc \<Rightarrow> nat" where
  "in_lock Load2 = 1"
| "in_lock (Unlock p) = 1"
| "in_lock l = builds 2 l"

text \<open>A constructor call that has begun and whose result is not published.\<close>

fun building :: "nat \<Rightarrow> sg_loc \<Rightarrow> nat" where
  "building n (SetA m p) = of_bool (m = n)"
| "building n (SetB m p) = of_bool (m = n)"
| "building n (Publish m p) = of_bool (m = n)"
| "building n _ = 0"

text \<open>The number of accessors a thread has returned from.\<close>

fun returned_from :: "sg_loc \<Rightarrow> nat" where
  "returned_from (Enter n) = n"
| "returned_from (New n) = n"
| "returned_from (SetA n p) = n"
| "returned_from (SetB n p) = n"
| "returned_from (Publish n p) = n"
| "returned_from (EndOnce n) = n"
| "returned_from (ReadPtr n) = n"
| "returned_from Done = 3"
| "returned_from _ = 2"

definition constructed :: "sg_state \<Rightarrow> nat \<Rightarrow> bool" where
  "constructed s p \<longleftrightarrow> p < sg_next s \<and> sg_heap s p = (Some default_a, Some default_b)"

fun sg_loc_ok :: "sg_state \<Rightarrow> sg_loc \<Rightarrow> bool" where
  "sg_loc_ok s (Enter n) = (n \<le> 2)"
| "sg_loc_ok s (New n) = (n \<le> 2 \<and> sg_ptr s n = None)"
| "sg_loc_ok s (SetA n p) = (n \<le> 2 \<and> sg_ptr s n = None \<and> p < sg_next s)"
| "sg_loc_ok s (SetB n p) = (n \<le> 2 \<and> sg_ptr s n = None \<and> p < sg_next s \<and> fst (sg_heap s p) = Some default_a)"
| "sg_loc_ok s (Publish n p) = (n \<le> 2 \<and> sg_ptr s n = None \<and> constructed s p)"
| "sg_loc_ok s (EndOnce n) = (n < 2 \<and> sg_ptr s n \<noteq> None)"
| "sg_loc_ok s (ReadPtr n) = (n < 2 \<and> sg_ptr s n \<noteq> None)"
| "sg_loc_ok s (Unlock p) = (sg_ptr s 2 = Some p)"
| "sg_loc_ok s (Return p) = (sg_ptr s 2 = Some p)"
| "sg_loc_ok s _ = True"

definition sg_inv :: "nat \<Rightarrow> sg_state \<Rightarrow> sg_loc list \<Rightarrow> bool" where
  "sg_inv N s ls \<longleftrightarrow> length ls = N \<and>
     (\<forall>n<2. sum_list (map (builds n) ls) = of_bool (sg_flag s n = Running) \<and>
        (sg_flag s n = Finished \<longrightarrow> sg_ptr s n \<noteq> None) \<and> (sg_flag s n = Never \<longrightarrow> sg_ptr s n = None)) \<and>
     sum_list (map in_lock ls) = of_bool (sg_locked s) \<and>
     (\<forall>n p. sg_ptr s n = Some p \<longrightarrow> constructed s p) \<and>
     (\<forall>n\<le>2. sg_made s n = sum_list (map (building n) ls) + of_bool (sg_ptr s n \<noteq> None)) \<and>
     (\<forall>l\<in>set ls. sg_loc_ok s l) \<and>
     (\<forall>i<N. sg_got s i = map (sg_ptr s) [0..<returned_from (ls ! i)] \<and> (\<forall>n<returned_from (ls ! i). sg_ptr s n \<noteq> None))"

text \<open>What never goes back: addresses in use, initialised fields, published pointers.\<close>

definition later :: "sg_state \<Rightarrow> sg_state \<Rightarrow> bool" where
  "later s s' \<longleftrightarrow> sg_next s \<le> sg_next s' \<and> (\<forall>n q. sg_ptr s n = Some q \<longrightarrow> sg_ptr s' n = Some q) \<and>
     (\<forall>p<sg_next s. (fst (sg_heap s p) = Some default_a \<longrightarrow> fst (sg_heap s' p) = Some default_a) \<and>
        (snd (sg_heap s p) = Some default_b \<longrightarrow> snd (sg_heap s' p) = Some default_b))"

lemma constructed_later: "constructed s p \<Longrightarrow> later s s' \<Longrightarrow> constructed s' p"
  unfolding constructed_def later_def by (metis fst_conv order_less_le_trans prod.collapse snd_conv)

lemma sg_loc_ok_later:
  assumes "sg_loc_ok s l" "later s s'" "\<And>n. builds n l = 1 \<Longrightarrow> sg_ptr s n = None \<Longrightarrow> sg_ptr s' n = None"
  shows "sg_loc_ok s' l"
  using assms constructed_later [OF _ assms(2)] by (cases l) (auto simp: later_def)

lemma sg_later:
  assumes "(s', l') \<in> set (effects (sg_thread i l) s)" "sg_loc_ok s l"
  shows "later s s'"
  using assms by (cases l) (auto simp: later_def init_a_def init_b_def sg_return_def split: if_splits option.splits once_flag.splits)

lemma sg_loc_ok_next:
  assumes "(s', l') \<in> set (effects (sg_thread i l) s)" "sg_loc_ok s l"
    "\<forall>n<2. (sg_flag s n = Finished \<longrightarrow> sg_ptr s n \<noteq> None) \<and> (sg_flag s n = Never \<longrightarrow> sg_ptr s n = None)"
  shows "sg_loc_ok s' l'"
  using assms by (cases l) (auto simp: init_a_def init_b_def sg_return_def constructed_def split: if_splits option.splits once_flag.splits)

lemma sg_ptr_changes:
  assumes "(s', l') \<in> set (effects (sg_thread i l) s)" "sg_loc_ok s l" "sg_ptr s' n \<noteq> sg_ptr s n"
  shows "builds n l = 1 \<and> n \<le> 2"
  using assms by (cases l) (auto simp: init_a_def init_b_def sg_return_def split: if_splits option.splits once_flag.splits)

lemma builds_le: "builds n l \<le> 1" "builds 2 l \<le> in_lock l" "in_lock l \<le> 1"
  by (cases l; simp)+

lemma sg_flags:
  assumes "(s', l') \<in> set (effects (sg_thread i l) s)" "sg_loc_ok s l" "n < 2" "builds n l = 1 \<Longrightarrow> sg_flag s n = Running"
    "sg_flag s n = Finished \<longrightarrow> sg_ptr s n \<noteq> None" "sg_flag s n = Never \<longrightarrow> sg_ptr s n = None"
  shows "of_bool (sg_flag s' n = Running) + builds n l = of_bool (sg_flag s n = Running) + builds n l'"
    "sg_flag s' n = Finished \<longrightarrow> sg_ptr s' n \<noteq> None" "sg_flag s' n = Never \<longrightarrow> sg_ptr s' n = None"
  using assms by (cases l; auto simp: init_a_def init_b_def sg_return_def split: if_splits option.splits once_flag.splits)+

lemma sg_locks:
  assumes "(s', l') \<in> set (effects (sg_thread i l) s)" "sg_loc_ok s l" "in_lock l = 1 \<Longrightarrow> sg_locked s"
  shows "of_bool (sg_locked s') + in_lock l = of_bool (sg_locked s) + in_lock l'"
  using assms by (cases l) (auto simp: init_a_def init_b_def sg_return_def split: if_splits option.splits once_flag.splits)

lemma sg_mades:
  assumes "(s', l') \<in> set (effects (sg_thread i l) s)" "sg_loc_ok s l" "n \<le> 2"
  shows "sg_made s' n + building n l + of_bool (sg_ptr s n \<noteq> None) = sg_made s n + building n l' + of_bool (sg_ptr s' n \<noteq> None)"
  using assms by (cases l) (auto simp: init_a_def init_b_def sg_return_def split: if_splits option.splits once_flag.splits)

lemma sg_gots:
  assumes "(s', l') \<in> set (effects (sg_thread i l) s)" "sg_loc_ok s l"
  shows "sg_got s' i = sg_got s i @ map (sg_ptr s') [returned_from l..<returned_from l'] \<and> returned_from l \<le> returned_from l'
    \<and> (\<forall>n. returned_from l \<le> n \<and> n < returned_from l' \<longrightarrow> sg_ptr s' n \<noteq> None) \<and> (\<forall>j. j \<noteq> i \<longrightarrow> sg_got s' j = sg_got s j)"
  using assms
  by (cases l) (auto simp: init_a_def init_b_def sg_return_def less_Suc_eq numeral_3_eq_3 numeral_2_eq_2
      split: if_splits option.splits once_flag.splits)

lemma sg_inv_step:
  assumes inv: "sg_inv N s ls" and i: "i < length ls" and e: "(s', l') \<in> set (effects (sg_thread i (ls ! i)) s)"
  shows "sg_inv N s' (ls[i := l'])"
proof -
  let ?l = "ls ! i" and ?ls' = "ls[i := l']"
  have len: "length ls = N" and flags: "\<And>n. n < 2 \<Longrightarrow> sum_list (map (builds n) ls) = of_bool (sg_flag s n = Running)"
      "\<forall>n<2. (sg_flag s n = Finished \<longrightarrow> sg_ptr s n \<noteq> None) \<and> (sg_flag s n = Never \<longrightarrow> sg_ptr s n = None)"
    and lock: "sum_list (map in_lock ls) = of_bool (sg_locked s)"
    and ptrs: "\<And>n p. sg_ptr s n = Some p \<Longrightarrow> constructed s p"
    and made: "\<And>n. n \<le> 2 \<Longrightarrow> sg_made s n = sum_list (map (building n) ls) + of_bool (sg_ptr s n \<noteq> None)"
    and lok: "\<And>l. l \<in> set ls \<Longrightarrow> sg_loc_ok s l"
    and got: "\<And>i. i < N \<Longrightarrow> sg_got s i = map (sg_ptr s) [0..<returned_from (ls ! i)]"
      "\<And>i n. i < N \<Longrightarrow> n < returned_from (ls ! i) \<Longrightarrow> sg_ptr s n \<noteq> None"
    using inv unfolding sg_inv_def by blast+
  have ok: "sg_loc_ok s ?l" using lok i by simp
  note lat = sg_later [OF e ok]
  have count: "sum_list (map f ?ls') + f ?l = sum_list (map f ls) + f l'" for f :: "sg_loc \<Rightarrow> nat" using sum_list_map_upd [OF i] .
  have le: "f ?l \<le> sum_list (map f ls)" for f :: "sg_loc \<Rightarrow> nat" by (rule member_le_sum_list_nat [OF i])
  have alone: "builds n (ls ! j) = 0" if n: "builds n ?l = 1" "n \<le> 2" and j: "j < length ls" "j \<noteq> i" for n j
  proof (cases "n = 2")
    case True
    then have "in_lock (ls ! j) = 0"
      using sum_list_one [OF _ i j, of in_lock] lock n builds_le(2,3) by (metis le_antisym of_bool_less_eq_one)
    then show ?thesis using builds_le(2) [of "ls ! j"] True by simp
  next
    case False
    then show ?thesis using sum_list_one [OF _ i j, of "builds n"] flags(1) [of n] n by simp
  qed
  have flags': "sum_list (map (builds n) ?ls') = of_bool (sg_flag s' n = Running)"
    "sg_flag s' n = Finished \<longrightarrow> sg_ptr s' n \<noteq> None" "sg_flag s' n = Never \<longrightarrow> sg_ptr s' n = None" if n: "n < 2" for n
  proof -
    have "sg_flag s n = Running" if "builds n ?l = 1" using le [of "builds n"] flags(1) [OF n] that by (cases "sg_flag s n = Running") simp_all
    note fl = sg_flags [OF e ok n this]
    have fs: "sg_flag s n = Finished \<longrightarrow> sg_ptr s n \<noteq> None" "sg_flag s n = Never \<longrightarrow> sg_ptr s n = None" using flags(2) n by auto
    show "sum_list (map (builds n) ?ls') = of_bool (sg_flag s' n = Running)"
      using fl(1) [OF _ fs] flags(1) [OF n] count [of "builds n"] by linarith
    show "sg_flag s' n = Finished \<longrightarrow> sg_ptr s' n \<noteq> None" "sg_flag s' n = Never \<longrightarrow> sg_ptr s' n = None"
      using fl(2,3) [OF _ fs] by blast+
  qed
  have lock': "sum_list (map in_lock ?ls') = of_bool (sg_locked s')"
  proof -
    have "sg_locked s" if "in_lock ?l = 1" using le [of in_lock] lock that by (cases "sg_locked s") simp_all
    then show ?thesis using sg_locks [OF e ok] lock count [of in_lock] by linarith
  qed
  have made': "sg_made s' n = sum_list (map (building n) ?ls') + of_bool (sg_ptr s' n \<noteq> None)" if "n \<le> 2" for n
    using sg_mades [OF e ok that] made [OF that] count [of "building n"] by linarith
  have ptrs': "constructed s' p" if "sg_ptr s' n = Some p" for n p
  proof (cases "sg_ptr s' n = sg_ptr s n")
    case True
    then show ?thesis using ptrs that constructed_later [OF _ lat] by metis
  next
    case False
    then show ?thesis using that e ok constructed_later [OF _ lat]
      by (cases ?l) (auto simp: init_a_def init_b_def sg_return_def split: if_splits option.splits once_flag.splits)
  qed
  have lok': "sg_loc_ok s' l" if "l \<in> set ?ls'" for l
  proof -
    from that obtain j where j: "j < length ls" "l = ?ls' ! j" by (metis in_set_conv_nth length_list_update)
    show ?thesis
    proof (cases "j = i")
      case True
      then show ?thesis using sg_loc_ok_next [OF e ok flags(2)] j i by simp
    next
      case False
      then have l: "l = ls ! j" using j by simp
      have "sg_ptr s' n = sg_ptr s n" if "builds n l = 1" for n
        using sg_ptr_changes [OF e ok, of n] alone [of n j] j(1) False that unfolding l by fastforce
      then show ?thesis using sg_loc_ok_later [OF _ lat] lok j(1) unfolding l by simp
    qed
  qed
  have got': "sg_got s' j = map (sg_ptr s') [0..<returned_from (?ls' ! j)] \<and> (\<forall>n<returned_from (?ls' ! j). sg_ptr s' n \<noteq> None)" if j: "j < N" for j
  proof -
    have same: "sg_ptr s' n = sg_ptr s n" if "n < returned_from (ls ! j)" for n
      using got(2) [OF j that] lat unfolding later_def by force
    then have "map (sg_ptr s') [0..<returned_from (ls ! j)] = sg_got s j" unfolding got(1) [OF j] by simp
    moreover have "\<forall>n<returned_from (ls ! j). sg_ptr s' n \<noteq> None" using same got(2) [OF j] by auto
    moreover have "[0..<returned_from l'] = [0..<returned_from ?l] @ [returned_from ?l..<returned_from l']" if "returned_from ?l \<le> returned_from l'"
      using upt_add_eq_append [of 0 "returned_from ?l" "returned_from l' - returned_from ?l"] that by simp
    ultimately show ?thesis using sg_gots [OF e ok] i j len
      by (cases "j = i") (simp, metis not_less, simp)
  qed
  show ?thesis unfolding sg_inv_def using len flags' lock' ptrs' made' lok' got' by simp
qed

interpretation sg: monitor_invariant sg_thread sg_init "replicate N (Enter 0)" "sg_inv N"
proof
  show "sg_inv N sg_init (replicate N (Enter 0))"
    by (simp add: sg_inv_def sg_init_def sum_list_map_zero)
qed (rule sg_inv_step)

interpretation sg: act_only sg_thread
proof
  show "sg_thread i l \<noteq> Monitor m w b" for i l m w b by (cases l) auto
qed

lemma sg_reach: "reach (step sg_thread) (sg_start N) c \<Longrightarrow> sg_inv N (shared c) (locs c)"
  using sg.I_reach by (simp add: sg_start_def)

text \<open>Whoever has begun an initialisation can go on, so nobody waits for ever.\<close>

lemma sg_stuck_done:
  assumes r: "reach (step sg_thread) (sg_start N) c" and st: "stuck sg_thread c"
  shows "locs c = replicate N Done"
proof -
  note inv = sg_reach [OF r]
  have len: "length (locs c) = N" using inv unfolding sg_inv_def by blast
  have at: "sg_thread i (locs c ! i) = Fin \<or> effects (sg_thread i (locs c ! i)) (shared c) = []" if "i < N" for i
    using sg.act_stuck [OF r [unfolded sg_start_def] st, of i] that by simp
  have quiet: "builds n (locs c ! i) = 0" "in_lock (locs c ! i) = 0" if "i < N" for i n
    using at [OF that] by (cases "locs c ! i"; auto split: option.splits)+
  have "f l = 0" if "l \<in> set (locs c)" "\<And>i. i < N \<Longrightarrow> f (locs c ! i) = 0" for f :: "sg_loc \<Rightarrow> nat" and l
    using that len by (metis in_set_conv_nth)
  then have "sum_list (map (builds n) (locs c)) = 0" "sum_list (map in_lock (locs c)) = 0" for n
    using quiet by (auto intro!: sum_list_map_zero simp del: nth_locs)
  then have "of_bool (sg_locked (shared c)) = (0 :: nat)" "\<And>n. n < 2 \<Longrightarrow> of_bool (sg_flag (shared c) n = Running) = (0 :: nat)"
    using inv unfolding sg_inv_def by metis+
  then have "locs c ! i = Done" if "i < N" for i
    using at [OF that] by (cases "locs c ! i") (auto split: option.splits once_flag.splits if_splits)
  then show ?thesis using len by (intro nth_equalityI) (auto simp del: nth_locs)
qed

lemma building_le: "building n l \<le> builds n l"
  by (cases l) auto

lemma sg_made_once:
  assumes "sg_inv N s ls" "n \<le> 2"
  shows "sg_made s n \<le> 1"
proof -
  have made: "sg_made s n = sum_list (map (building n) ls) + of_bool (sg_ptr s n \<noteq> None)"
    and lok: "\<forall>l\<in>set ls. sg_loc_ok s l" using assms unfolding sg_inv_def by blast+
  have "sum_list (map (building n) ls) \<le> 1"
  proof (cases "n = 2")
    case True
    have "building 2 l \<le> in_lock l" for l using building_le [of 2 l] builds_le(2) [of l] by simp
    then have "sum_list (map (building n) ls) \<le> sum_list (map in_lock ls)" unfolding True by (intro sum_list_mono) auto
    moreover have "sum_list (map in_lock ls) \<le> 1" using assms(1) unfolding sg_inv_def by simp
    ultimately show ?thesis by simp
  next
    case False
    have "sum_list (map (building n) ls) \<le> sum_list (map (builds n) ls)" by (intro sum_list_mono building_le)
    moreover have "n < 2" using assms(2) False by simp
    then have "sum_list (map (builds n) ls) = of_bool (sg_flag s n = Running)" using assms(1) unfolding sg_inv_def by blast
    ultimately show ?thesis by (metis of_bool_less_eq_one order_trans)
  qed
  moreover have "sum_list (map (building n) ls) = 0" if "sg_ptr s n \<noteq> None"
  proof (rule sum_list_map_zero)
    fix l assume "l \<in> set ls"
    with lok have "sg_loc_ok s l" by blast
    then show "building n l = 0" using that by (cases l) auto
  qed
  ultimately show ?thesis unfolding made by (cases "sg_ptr s n = None") simp_all
qed

subsection \<open>01_call_once.cpp\<close>

record co_state =
  co_flag :: once_flag
  co_data :: string
  co_lines :: "(nat option \<times> string) list"

datatype co_loc = CallOnce | InitPrint | InitData | EndInit | PrintData | Printed

text \<open>\<open>worker\<close>, and \<open>init\<close> in whichever thread runs it; a line is the thread that printed it (none for \<open>init\<close>) and the data.\<close>

fun co_thread :: "nat \<Rightarrow> co_loc \<Rightarrow> (co_state, co_loc) stmt" where
  "co_thread i CallOnce = Act (\<lambda>s. case co_flag s of
       Never \<Rightarrow> [(s\<lparr>co_flag := Running\<rparr>, InitPrint)] | Running \<Rightarrow> [] | Finished \<Rightarrow> [(s, PrintData)])"
| "co_thread i InitPrint = Act (\<lambda>s. [(s\<lparr>co_lines := co_lines s @ [(None, ''performing one-time setup'')]\<rparr>, InitData)])"
| "co_thread i InitData = Act (\<lambda>s. [(s\<lparr>co_data := ''initialized''\<rparr>, EndInit)])"
| "co_thread i EndInit = Act (\<lambda>s. [(s\<lparr>co_flag := Finished\<rparr>, PrintData)])"
| "co_thread i PrintData = Act (\<lambda>s. [(s\<lparr>co_lines := co_lines s @ [(Some i, co_data s)]\<rparr>, Printed)])"
| "co_thread i Printed = Fin"

definition co_init :: co_state where
  "co_init = \<lparr>co_flag = Never, co_data = '''', co_lines = []\<rparr>"

text \<open>\<open>main\<close> starts eight workers.\<close>

definition co_main :: "nat \<Rightarrow> (co_state, co_loc) cfg" where
  "co_main N = start co_init (replicate N CallOnce)"

fun initialising :: "co_loc \<Rightarrow> nat" where
  "initialising InitPrint = 1"
| "initialising InitData = 1"
| "initialising EndInit = 1"
| "initialising _ = 0"

text \<open>Lines printed by \<open>init\<close>.\<close>

definition setups :: "co_state \<Rightarrow> nat" where
  "setups s = length (filter (\<lambda>l. fst l = None) (co_lines s))"

fun co_ok :: "co_state \<Rightarrow> co_loc \<Rightarrow> bool" where
  "co_ok s CallOnce = True"
| "co_ok s InitPrint = (setups s = 0)"
| "co_ok s InitData = (setups s = 1)"
| "co_ok s EndInit = (setups s = 1 \<and> co_data s = ''initialized'')"
| "co_ok s _ = (co_flag s = Finished)"

definition co_inv :: "nat \<Rightarrow> co_state \<Rightarrow> co_loc list \<Rightarrow> bool" where
  "co_inv N s ls \<longleftrightarrow> length ls = N \<and> sum_list (map initialising ls) = of_bool (co_flag s = Running) \<and>
     (co_flag s = Never \<longrightarrow> setups s = 0) \<and> (co_flag s = Finished \<longrightarrow> setups s = 1 \<and> co_data s = ''initialized'') \<and>
     (\<forall>l\<in>set ls. co_ok s l) \<and> (\<forall>(w, d)\<in>set (co_lines s). w \<noteq> None \<longrightarrow> d = ''initialized'')"

lemma co_inv_step:
  assumes inv: "co_inv N s ls" and i: "i < length ls" and e: "(s', l') \<in> set (effects (co_thread i (ls ! i)) s)"
  shows "co_inv N s' (ls[i := l'])"
proof -
  have ok: "co_ok s (ls ! i)" and all: "\<forall>l\<in>set ls. co_ok s l" and lines: "\<forall>(w, d)\<in>set (co_lines s). w \<noteq> None \<longrightarrow> d = ''initialized''"
    and run: "sum_list (map initialising ls) = of_bool (co_flag s = Running)"
    and fl: "co_flag s = Never \<longrightarrow> setups s = 0" "co_flag s = Finished \<longrightarrow> setups s = 1 \<and> co_data s = ''initialized''"
    using inv i unfolding co_inv_def by auto
  have count: "sum_list (map initialising (ls[i := l'])) + initialising (ls ! i) = of_bool (co_flag s = Running) + initialising l'"
    using sum_list_map_upd [OF i, of initialising l'] run by simp
  have r: "co_flag s = Running" if "initialising (ls ! i) = 1"
    using member_le_sum_list_nat [OF i, of initialising] run that by (cases "co_flag s = Running") simp_all
  have others: "co_ok s' l" if "l \<in> set ls" "initialising (ls ! i) = 1 \<Longrightarrow> initialising l = 0" for l
    using bspec [OF all that(1)] that(2) e r by (cases "ls ! i"; cases l) (auto simp: setups_def split: once_flag.splits)
  have "co_ok s' (ls[i := l'] ! j)" if j: "j < length ls" for j
  proof (cases "j = i")
    case True
    then show ?thesis using e ok fl i by (cases "ls ! i") (auto simp: setups_def split: once_flag.splits)
  next
    case False
    then have "initialising (ls ! i) = 1 \<Longrightarrow> initialising (ls ! j) = 0"
      using sum_list_one [OF _ i j, of initialising] run by simp
    then show ?thesis using others [of "ls ! j"] j False by simp
  qed
  then have "\<forall>l\<in>set (ls[i := l']). co_ok s' l" by (simp add: all_set_conv_all_nth)
  moreover have "sum_list (map initialising (ls[i := l'])) = of_bool (co_flag s' = Running)"
    using count e r by (cases "ls ! i") (auto split: once_flag.splits)
  moreover have "(co_flag s' = Never \<longrightarrow> setups s' = 0) \<and> (co_flag s' = Finished \<longrightarrow> setups s' = 1 \<and> co_data s' = ''initialized'')"
    using e ok fl r by (cases "ls ! i") (auto simp: setups_def split: once_flag.splits)
  moreover have "\<forall>(w, d)\<in>set (co_lines s'). w \<noteq> None \<longrightarrow> d = ''initialized''"
    using e ok fl lines by (cases "ls ! i") (auto split: once_flag.splits)
  ultimately show ?thesis using inv unfolding co_inv_def by simp
qed

interpretation co: monitor_invariant co_thread co_init "replicate N CallOnce" "co_inv N"
proof
  show "co_inv N co_init (replicate N CallOnce)"
    by (simp add: co_inv_def co_init_def setups_def sum_list_map_zero)
qed (rule co_inv_step)

text \<open>The set-up runs once, and every worker sees its result.\<close>

lemma call_once_once:
  assumes "reach (step co_thread) (co_main N) c"
  shows "setups (shared c) \<le> 1 \<and> (\<forall>(w, d)\<in>set (co_lines (shared c)). w \<noteq> None \<longrightarrow> d = ''initialized'')"
proof -
  have inv: "co_inv N (shared c) (locs c)" using co.I_reach assms by (simp add: co_main_def)
  have "setups (shared c) \<le> 1"
  proof (cases "co_flag (shared c)")
    case Running
    have "sum_list (map initialising (locs c)) \<noteq> 0" using inv Running unfolding co_inv_def by simp
    then obtain l where l: "l \<in> set (locs c)" "initialising l \<noteq> 0" using sum_list_map_zero by metis
    then have "co_ok (shared c) l" using inv unfolding co_inv_def by blast
    then show ?thesis using l(2) by (cases l) auto
  qed (use inv in \<open>auto simp: co_inv_def\<close>)
  then show ?thesis using inv unfolding co_inv_def by blast
qed

subsection \<open>Properties\<close>

text \<open>C22: all three accessors construct lazily and once: whatever pointer a thread has got points to a completely
  constructed \<open>Singleton\<close>, two threads never get different ones from the same accessor, no accessor calls the constructor
  twice, and when nothing can move all threads have returned with three pointers (no thread waits for ever).\<close>

theorem singletons_once:
  assumes "reach (step sg_thread) (sg_start N) c" "i < N" "j < N"
  shows "(\<forall>p\<in>set (sg_got (shared c) i). \<exists>a. p = Some a \<and> constructed (shared c) a) \<and> (\<forall>n\<le>2. sg_made (shared c) n \<le> 1)
    \<and> (\<forall>n. n < length (sg_got (shared c) i) \<and> n < length (sg_got (shared c) j) \<longrightarrow> sg_got (shared c) i ! n = sg_got (shared c) j ! n)
    \<and> (stuck sg_thread c \<longrightarrow> all_fin sg_thread c \<and> length (sg_got (shared c) i) = 3)"
proof -
  let ?s = "shared c"
  note inv = sg_reach [OF assms(1)]
  have got: "sg_got ?s k = map (sg_ptr ?s) [0..<returned_from (locs c ! k)]" "\<forall>n<returned_from (locs c ! k). sg_ptr ?s n \<noteq> None" if "k < N" for k
    using inv that unfolding sg_inv_def by blast+
  have ptr: "constructed ?s p" if "sg_ptr ?s n = Some p" for n p using inv that unfolding sg_inv_def by blast
  have "\<forall>p\<in>set (sg_got ?s i). \<exists>a. p = Some a \<and> constructed ?s a"
    using got [OF assms(2)] ptr by (auto simp del: nth_locs)
  moreover have "\<forall>n. n < length (sg_got ?s i) \<and> n < length (sg_got ?s j) \<longrightarrow> sg_got ?s i ! n = sg_got ?s j ! n"
    using got(1) [OF assms(2)] got(1) [OF assms(3)] by (simp del: nth_locs)
  moreover have "all_fin sg_thread c \<and> length (sg_got ?s i) = 3" if st: "stuck sg_thread c"
  proof -
    note fin = sg_stuck_done [OF assms(1) st]
    have "all_fin sg_thread c" using sg.act_fin [OF assms(1) [unfolded sg_start_def]] fin by simp
    moreover have "returned_from (locs c ! i) = 3" unfolding fin using assms(2) by simp
    ultimately show ?thesis using got(1) [OF assms(2)] by (simp del: nth_locs)
  qed
  ultimately show ?thesis using sg_made_once [OF inv] by blast
qed

lemma sg_demo: "case run (step sg_thread) (sg_start 2) (map (\<lambda>i. (i, Norm 0)) (replicate 23 1 @ replicate 6 0)) of
    None \<Rightarrow> False | Some c \<Rightarrow> all_finb sg_thread c"
  by (simp add: all_finb_def sg_start_def start_def sg_init_def step_def step_at_def set_thr_def init_a_def init_b_def sg_return_def numeral_eq_Suc)

theorem singletons_once_witness: "\<exists>c. reach (step sg_thread) (sg_start 2) c \<and> length (sg_got (shared c) 1) = 3"
proof -
  obtain c where r: "reach (step sg_thread) (sg_start 2) c" and fin: "all_finb sg_thread c"
    using sg_demo by (auto split: option.splits dest!: run_reach simp del: run.simps)
  have "stuck sg_thread c" using fin by (simp add: all_finb all_fin_stuck)
  then show ?thesis using singletons_once [OF r, of 1 0] r by auto
qed

end
