(* ===== verification/CompareExchange.thy ===== *)
theory CompareExchange
  imports Scripts
begin

text \<open>
  \<open>examples/02_cpp11_threads/04_atomics/04_compare_exchange.cpp\<close>: \<open>my_add\<close> and \<open>atomic_max\<close>, built
  from \<open>compare_exchange_weak\<close>. An atomic variable is its modification order, the list of all
  values it has had. A relaxed load, and the reload of a failed exchange, may return any of
  them; an exchange succeeds only on the last one, and may fail spuriously. That is more freedom
  than the C++ memory model gives, so what is proved holds there too.
\<close>

subsection \<open>Atomic variables\<close>

type_synonym atomic_long = "int list"

definition atomic_new :: "int \<Rightarrow> atomic_long" where
  "atomic_new v = [v]"

definition atomic_value :: "atomic_long \<Rightarrow> int" where
  "atomic_value a = last a"

text \<open>The possible results of a relaxed load.\<close>

definition load_relaxed :: "atomic_long \<Rightarrow> int list" where
  "load_relaxed a = a"

text \<open>The possible results of \<open>compare_exchange_weak\<close>: the variable, whether the exchange succeeded, and \<open>expected\<close> afterwards.\<close>

definition cas_weak :: "atomic_long \<Rightarrow> int \<Rightarrow> int \<Rightarrow> (atomic_long \<times> bool \<times> int) list" where
  "cas_weak a expected desired =
     (if atomic_value a = expected then [(a @ [desired], True, expected)] else []) @ map (\<lambda>v. (a, False, v)) (load_relaxed a)"

lemma cas_weak_cases:
  assumes "(a', ok, v) \<in> set (cas_weak a expected desired)"
  obtains (swapped) "ok" "a' = a @ [desired]" "v = expected" "last a = expected"
  | (failed) "\<not> ok" "a' = a" "v \<in> set a"
  using assms by (auto simp: cas_weak_def atomic_value_def load_relaxed_def split: if_splits)

subsection \<open>my_add and atomic_max\<close>

text \<open>
  A thread of the first half of \<open>main\<close>: before the load of call \<open>i\<close>, or in its loop with \<open>old\<close>;
  \<open>rs\<close> is what the calls so far have returned.
\<close>

datatype add_loc = AddLoad nat "int list" | AddCas nat int "int list"

fun my_add :: "nat \<Rightarrow> int \<Rightarrow> add_loc \<Rightarrow> (atomic_long, add_loc) stmt" where
  "my_add ITERS delta (AddLoad i rs) =
     (if i < ITERS then Act (\<lambda>a. map (\<lambda>old. (a, AddCas i old rs)) (load_relaxed a)) else Fin)"
| "my_add ITERS delta (AddCas i old rs) = Act (\<lambda>a. map (\<lambda>(a', ok, old').
     (a', if ok then AddLoad (Suc i) (rs @ [old']) else AddCas i old' rs)) (cas_weak a old (old + delta)))"

definition add_prog :: "nat \<Rightarrow> int \<Rightarrow> nat \<Rightarrow> add_loc \<Rightarrow> (atomic_long, add_loc) stmt" where
  "add_prog ITERS delta = (\<lambda>_. my_add ITERS delta)"

definition my_add_start :: "nat \<Rightarrow> (atomic_long, add_loc) cfg" where
  "my_add_start N = start (atomic_new 0) (replicate N (AddLoad 0 []))"

text \<open>A thread of the second half, with its number \<open>t\<close>.\<close>

datatype max_loc = MaxLoad nat nat | MaxCas nat nat int

definition candidate :: "nat \<Rightarrow> nat \<Rightarrow> nat \<Rightarrow> int" where
  "candidate ITERS t i = int (t * ITERS + i)"

fun atomic_max :: "nat \<Rightarrow> max_loc \<Rightarrow> (atomic_long, max_loc) stmt" where
  "atomic_max ITERS (MaxLoad t i) =
     (if i < ITERS then Act (\<lambda>a. map (\<lambda>current. (a, MaxCas t i current)) (load_relaxed a)) else Fin)"
| "atomic_max ITERS (MaxCas t i current) = Act (\<lambda>a.
     if candidate ITERS t i > current then map (\<lambda>(a', ok, current').
       (a', if ok then MaxLoad t (Suc i) else MaxCas t i current')) (cas_weak a current (candidate ITERS t i))
     else [(a, MaxLoad t (Suc i))])"

definition max_prog :: "nat \<Rightarrow> nat \<Rightarrow> max_loc \<Rightarrow> (atomic_long, max_loc) stmt" where
  "max_prog ITERS = (\<lambda>_. atomic_max ITERS)"

definition max_start :: "nat \<Rightarrow> (atomic_long, max_loc) cfg" where
  "max_start N = start (atomic_new 0) (map (\<lambda>t. MaxLoad t 0) [0..<N])"

text \<open>\<open>main\<close>: eight threads, 100000 additions of 1 each, then 1000 candidates each.\<close>

definition cas_main_add :: "(atomic_long, add_loc) cfg" where
  "cas_main_add = my_add_start 8"

definition cas_main_add_prog :: "nat \<Rightarrow> add_loc \<Rightarrow> (atomic_long, add_loc) stmt" where
  "cas_main_add_prog = add_prog 100000 1"

definition cas_main_max :: "(atomic_long, max_loc) cfg" where
  "cas_main_max = max_start 8"

definition cas_main_max_prog :: "nat \<Rightarrow> max_loc \<Rightarrow> (atomic_long, max_loc) stmt" where
  "cas_main_max_prog = max_prog 1000"

subsection \<open>Every addition counts once\<close>

fun add_calls :: "add_loc \<Rightarrow> nat" where
  "add_calls (AddLoad i rs) = i"
| "add_calls (AddCas i old rs) = i"

fun add_returned :: "add_loc \<Rightarrow> int list" where
  "add_returned (AddLoad i rs) = rs"
| "add_returned (AddCas i old rs) = rs"

fun add_ok :: "nat \<Rightarrow> add_loc \<Rightarrow> bool" where
  "add_ok ITERS (AddLoad i rs) = (i \<le> ITERS)"
| "add_ok ITERS (AddCas i old rs) = (i < ITERS)"

definition counted :: "int \<Rightarrow> nat \<Rightarrow> int list" where
  "counted delta T = map (\<lambda>k. delta * int k) [0..<T]"

lemma counted_Suc: "counted delta (Suc T) = counted delta T @ [delta * int T]"
  by (simp add: counted_def)

lemma last_counted: "last (counted delta (Suc T)) = delta * int T"
  by (simp add: counted_Suc)

definition add_inv :: "nat \<Rightarrow> nat \<Rightarrow> int \<Rightarrow> atomic_long \<Rightarrow> add_loc list \<Rightarrow> bool" where
  "add_inv N ITERS delta a ls \<longleftrightarrow> length ls = N \<and> (\<forall>l\<in>set ls. add_ok ITERS l) \<and>
     a = counted delta (Suc (sum_list (map add_calls ls))) \<and>
     sum_list (map (\<lambda>l. mset (add_returned l)) ls) = mset (counted delta (sum_list (map add_calls ls)))"

lemma my_add_cases [consumes 1, case_names load swap retry]:
  assumes "(a', l') \<in> set (effects (my_add ITERS delta l) a)"
  obtains (load) i rs old where "l = AddLoad i rs" "i < ITERS" "a' = a" "l' = AddCas i old rs"
  | (swap) i rs old where "l = AddCas i old rs" "last a = old" "a' = a @ [old + delta]" "l' = AddLoad (Suc i) (rs @ [old])"
  | (retry) i rs old old' where "l = AddCas i old rs" "a' = a" "l' = AddCas i old' rs"
proof (cases l)
  case (AddCas i old rs)
  with assms obtain ok v where "(a', ok, v) \<in> set (cas_weak a old (old + delta))"
      "l' = (if ok then AddLoad (Suc i) (rs @ [v]) else AddCas i v rs)" by auto
  then show thesis using AddCas swap retry by (elim cas_weak_cases) auto
qed (use assms load in \<open>auto split: if_splits\<close>)

lemma add_inv_step:
  assumes inv: "add_inv N ITERS delta a ls" and i: "i < length ls" and e: "(a', l') \<in> set (effects (my_add ITERS delta (ls ! i)) a)"
  shows "add_inv N ITERS delta a' (ls[i := l'])"
proof -
  have ok: "add_ok ITERS (ls ! i)" using inv i by (auto simp: add_inv_def)
  obtain R where R: "sum_list (map add_calls ls) = R + add_calls (ls ! i)" "\<And>x. sum_list (map add_calls (ls[i := x])) = R + add_calls x"
    using sum_list_split [OF i] by blast
  obtain M where M: "sum_list (map (\<lambda>l. mset (add_returned l)) ls) = M + mset (add_returned (ls ! i))"
      "\<And>x. sum_list (map (\<lambda>l. mset (add_returned l)) (ls[i := x])) = M + mset (add_returned x)"
    using sum_list_split [OF i] by blast
  have all: "\<forall>l\<in>set (ls[i := l']). add_ok ITERS l" if "add_ok ITERS l'"
    using inv that by (auto simp: add_inv_def dest: set_updD)
  show ?thesis using e
  proof (cases rule: my_add_cases)
    case (load j rs old)
    then show ?thesis using inv all by (simp add: add_inv_def R M)
  next
    case (swap j rs old)
    have T: "sum_list (map add_calls ls) = R + j" "sum_list (map add_calls (ls[i := l'])) = Suc (R + j)" using R swap by simp_all
    have old: "old = delta * int (R + j)" using inv T(1) swap(2) last_counted by (simp add: add_inv_def)
    have "a' = counted delta (Suc (Suc (R + j)))"
      using inv T(1) swap(3) unfolding old add_inv_def counted_Suc [of _ "Suc (R + j)"] by (simp add: algebra_simps)
    moreover have "M + mset rs = mset (counted delta (R + j))" using inv T(1) swap(1) by (simp add: add_inv_def M(1))
    then have "M + mset (rs @ [old]) = mset (counted delta (Suc (R + j)))" by (simp add: counted_Suc old)
    moreover have "sum_list (map add_calls (ls[i := AddLoad (Suc j) (rs @ [old])])) = Suc (R + j)" using T(2) swap(4) by simp
    ultimately show ?thesis using inv all ok swap(1,4) by (simp add: add_inv_def M(2))
  next
    case (retry j rs old old')
    then show ?thesis using inv all ok by (simp add: add_inv_def R M)
  qed
qed

lemma add_client: "monitor_invariant (add_prog ITERS delta) (atomic_new 0) (replicate N (AddLoad 0 [])) (add_inv N ITERS delta)"
proof unfold_locales
  have "sum_list (replicate N ({#} :: int multiset)) = {#}" by (induction N) simp_all
  then show "add_inv N ITERS delta (atomic_new 0) (replicate N (AddLoad 0 []))"
    by (simp add: add_inv_def atomic_new_def counted_def sum_list_replicate)
qed (simp add: add_prog_def add_inv_step)

text \<open>A thread that runs alone finishes its call: it reloads, if its \<open>old\<close> is out of date, and swaps.\<close>

definition add_todo :: "nat \<Rightarrow> atomic_long \<Rightarrow> add_loc list \<Rightarrow> nat" where
  "add_todo ITERS a ls = sum_list (map (\<lambda>l. ITERS - add_calls l) ls)"

lemma add_reload:
  assumes "i < length ls" "ls ! i = AddLoad j rs \<and> j < ITERS \<or> ls ! i = AddCas j old rs" "a \<noteq> []"
  shows "reach (astep (add_prog ITERS delta)) (a, ls) (a, ls[i := AddCas j (last a) rs])"
proof (rule astepI [OF assms(1)])
  have "last a \<in> set a" using assms(3) by simp
  then show "(a, AddCas j (last a) rs) \<in> set (effects (add_prog ITERS delta i (ls ! i)) a)"
    using assms(2) by (force simp: add_prog_def cas_weak_def load_relaxed_def image_iff)
qed

lemma add_swap:
  assumes "i < length ls"
  shows "reach (astep (add_prog ITERS delta)) (a, ls[i := AddCas j (last a) rs]) (a @ [last a + delta], ls[i := AddLoad (Suc j) (rs @ [last a])])"
  using astepI [of i "ls[i := AddCas j (last a) rs]" "a @ [last a + delta]" "AddLoad (Suc j) (rs @ [last a])" "add_prog ITERS delta" a] assms
  by (simp add: add_prog_def cas_weak_def atomic_value_def)

interpretation add: may_finish "add_prog ITERS delta" "atomic_new 0" "replicate N (AddLoad 0 [])" "add_inv N ITERS delta" "add_todo ITERS"
  for ITERS delta N
proof (intro may_finish.intro add_client act_only.intro may_finish_axioms.intro)
  show "add_prog ITERS delta i l \<noteq> Monitor m w b" for i l m w b by (cases l) (auto simp: add_prog_def)
next
  fix a ls i assume inv: "add_inv N ITERS delta a ls" and i: "i < length ls" and fin: "add_prog ITERS delta i (ls ! i) \<noteq> Fin"
  have ok: "add_ok ITERS (ls ! i)" and a: "a \<noteq> []" using inv i by (auto simp: add_inv_def counted_Suc)
  obtain j rs old where l: "ls ! i = AddLoad j rs \<and> j < ITERS \<or> ls ! i = AddCas j old rs"
    using fin by (cases "ls ! i") (auto simp: add_prog_def split: if_splits)
  have c: "add_calls (ls ! i) = j" "j < ITERS" using l ok by auto
  obtain R where "sum_list (map (\<lambda>l. ITERS - add_calls l) ls) = R + (ITERS - add_calls (ls ! i))"
    "\<And>x. sum_list (map (\<lambda>l. ITERS - add_calls l) (ls[i := x])) = R + (ITERS - add_calls x)" using sum_list_split [OF i] by blast
  then have "add_todo ITERS (a @ [last a + delta]) (ls[i := AddLoad (Suc j) (rs @ [last a])]) < add_todo ITERS a ls"
    using c by (simp add: add_todo_def)
  then show "\<exists>s' ls'. reach (astep (add_prog ITERS delta)) (a, ls) (s', ls') \<and> add_todo ITERS s' ls' < add_todo ITERS a ls"
    using reach_trans [OF add_reload [OF i l a] add_swap [OF i]] by blast
qed

lemma add_final:
  assumes r: "reach (step (add_prog ITERS delta)) (my_add_start N) c" "all_fin (add_prog ITERS delta) c"
  shows "atomic_value (shared c) = delta * int (N * ITERS)"
    "sum_list (map (\<lambda>l. mset (add_returned l)) (locs c)) = mset (counted delta (N * ITERS))"
proof -
  have inv: "add_inv N ITERS delta (shared c) (locs c)"
    using add.I_reach r(1) by (simp add: my_add_start_def)
  have "add_calls l = ITERS" if l: "l \<in> set (locs c)" for l
  proof -
    obtain i where "i < length (thr c)" "l = loc (thr c ! i)" using l by (auto simp: in_set_conv_nth)
    then have "my_add ITERS delta l = Fin" using r(2) by (auto simp: all_fin_def add_prog_def)
    moreover have "add_ok ITERS l" using inv l by (simp add: add_inv_def)
    ultimately show ?thesis by (cases l) (auto split: if_splits)
  qed
  then have "map add_calls (locs c) = replicate N ITERS" using inv by (intro replicate_eqI) (auto simp: add_inv_def)
  then have s: "sum_list (map add_calls (locs c)) = N * ITERS" by (simp add: sum_list_replicate)
  with inv show "atomic_value (shared c) = delta * int (N * ITERS)"
    "sum_list (map (\<lambda>l. mset (add_returned l)) (locs c)) = mset (counted delta (N * ITERS))"
    by (simp_all add: add_inv_def atomic_value_def last_counted)
qed

subsection \<open>The maximum\<close>

fun max_calls :: "max_loc \<Rightarrow> nat" where
  "max_calls (MaxLoad t i) = i"
| "max_calls (MaxCas t i current) = i"

fun max_ok :: "nat \<Rightarrow> atomic_long \<Rightarrow> nat \<Rightarrow> max_loc \<Rightarrow> bool" where
  "max_ok ITERS a t (MaxLoad u i) = (u = t \<and> i \<le> ITERS)"
| "max_ok ITERS a t (MaxCas u i current) = (u = t \<and> i < ITERS \<and> current \<in> set a)"

definition seen :: "nat \<Rightarrow> atomic_long \<Rightarrow> nat \<Rightarrow> max_loc \<Rightarrow> bool" where
  "seen ITERS a t l \<longleftrightarrow> (\<forall>i<max_calls l. candidate ITERS t i \<le> last a)"

definition max_inv :: "nat \<Rightarrow> nat \<Rightarrow> atomic_long \<Rightarrow> max_loc list \<Rightarrow> bool" where
  "max_inv N ITERS a ls \<longleftrightarrow> length ls = N \<and> (\<forall>t<N. max_ok ITERS a t (ls ! t) \<and> seen ITERS a t (ls ! t)) \<and>
     a \<noteq> [] \<and> sorted_wrt (<) a \<and> (\<forall>v\<in>set a. v = 0 \<or> (\<exists>t<N. \<exists>i<ITERS. v = candidate ITERS t i)) \<and> hd a = 0"

lemma sorted_le_last: "sorted_wrt (<) (a :: int list) \<Longrightarrow> v \<in> set a \<Longrightarrow> v \<le> last a"
  by (induction a) (auto simp: less_imp_le)

lemma atomic_max_cases [consumes 1, case_names load swap retry skip]:
  assumes "(a', l') \<in> set (effects (atomic_max ITERS l) a)"
  obtains (load) t i cur where "l = MaxLoad t i" "i < ITERS" "cur \<in> set a" "a' = a" "l' = MaxCas t i cur"
  | (swap) t i cur where "l = MaxCas t i cur" "last a = cur" "cur < candidate ITERS t i" "a' = a @ [candidate ITERS t i]" "l' = MaxLoad t (Suc i)"
  | (retry) t i cur cur' where "l = MaxCas t i cur" "cur' \<in> set a" "a' = a" "l' = MaxCas t i cur'"
  | (skip) t i cur where "l = MaxCas t i cur" "candidate ITERS t i \<le> cur" "a' = a" "l' = MaxLoad t (Suc i)"
proof (cases l)
  case (MaxCas t i cur)
  show thesis
  proof (cases "candidate ITERS t i > cur")
    case True
    with assms MaxCas obtain ok v where "(a', ok, v) \<in> set (cas_weak a cur (candidate ITERS t i))"
        "l' = (if ok then MaxLoad t (Suc i) else MaxCas t i v)" by auto
    then show thesis using True MaxCas swap retry by (elim cas_weak_cases) auto
  qed (use assms MaxCas skip in auto)
qed (use assms load in \<open>auto simp: load_relaxed_def split: if_splits\<close>)

lemma max_inv_step:
  assumes inv: "max_inv N ITERS a ls" and i: "t < length ls" and e: "(a', l') \<in> set (effects (atomic_max ITERS (ls ! t)) a)"
  shows "max_inv N ITERS a' (ls[t := l'])"
proof -
  have a: "a \<noteq> []" "sorted_wrt (<) a" and t: "max_ok ITERS a t (ls ! t)" "seen ITERS a t (ls ! t)" "t < N"
    using inv i by (auto simp: max_inv_def)
  have keep: "max_inv N ITERS a (ls[t := l'])" if "max_ok ITERS a t l'" "seen ITERS a t l'"
    using inv that t(3) by (auto simp: max_inv_def nth_list_update)
  show ?thesis using e
  proof (cases rule: atomic_max_cases)
    case (load u j cur)
    then show ?thesis using keep t by (simp add: seen_def)
  next
    case (swap u j cur)
    let ?v = "candidate ITERS t j"
    have u: "u = t" "j < ITERS" using t(1) swap(1) by auto
    have less: "last a < ?v" using swap u by simp
    then have "\<forall>x\<in>set a. x < ?v" using sorted_le_last [OF a(2)] by fastforce
    then have "sorted_wrt (<) (a @ [?v])" using a(2) by (simp add: sorted_wrt_append)
    moreover have "max_ok ITERS (a @ [?v]) d l \<and> seen ITERS (a @ [?v]) d l" if "max_ok ITERS a d l" "seen ITERS a d l" for d l
      using that less by (cases l) (auto simp: seen_def)
    moreover have "seen ITERS (a @ [?v]) t l'" "max_ok ITERS (a @ [?v]) t l'"
      using t(2) swap(1,5) u less by (auto simp: seen_def less_Suc_eq)
    ultimately show ?thesis using inv swap(4) u t(3) by (auto simp: max_inv_def nth_list_update)
  next
    case (retry u j cur cur')
    then show ?thesis using keep t by (simp add: seen_def)
  next
    case (skip u j cur)
    then have "candidate ITERS t j \<le> last a" using sorted_le_last [OF a(2), of cur] t(1) by simp
    then show ?thesis using keep t skip by (simp add: seen_def less_Suc_eq)
  qed
qed

lemma max_client: "monitor_invariant (max_prog ITERS) (atomic_new 0) (map (\<lambda>t. MaxLoad t 0) [0..<N]) (max_inv N ITERS)"
proof unfold_locales
  show "max_inv N ITERS (atomic_new 0) (map (\<lambda>t. MaxLoad t 0) [0..<N])"
    by (simp add: max_inv_def atomic_new_def seen_def)
qed (simp add: max_prog_def max_inv_step)

definition max_todo :: "nat \<Rightarrow> atomic_long \<Rightarrow> max_loc list \<Rightarrow> nat" where
  "max_todo ITERS a ls = sum_list (map (\<lambda>l. ITERS - max_calls l) ls)"

lemma max_reload:
  assumes "t < length ls" "ls ! t = MaxLoad u j \<and> j < ITERS \<or> ls ! t = MaxCas u j cur \<and> cur < candidate ITERS u j" "a \<noteq> []"
  shows "reach (astep (max_prog ITERS)) (a, ls) (a, ls[t := MaxCas u j (last a)])"
proof (rule astepI [OF assms(1)])
  have "last a \<in> set a" using assms(3) by simp
  then show "(a, MaxCas u j (last a)) \<in> set (effects (max_prog ITERS t (ls ! t)) a)"
    using assms(2) by (force simp: max_prog_def cas_weak_def load_relaxed_def image_iff)
qed

lemma max_swap:
  assumes "t < length ls" "ls ! t = MaxCas u j cur" "cur = last a \<or> candidate ITERS u j \<le> cur"
  shows "\<exists>a'. reach (astep (max_prog ITERS)) (a, ls) (a', ls[t := MaxLoad u (Suc j)])"
proof -
  have "\<exists>a'. (a', MaxLoad u (Suc j)) \<in> set (effects (max_prog ITERS t (ls ! t)) a)"
    using assms(2,3) by (cases "candidate ITERS u j \<le> cur") (auto simp: max_prog_def cas_weak_def atomic_value_def)
  then show ?thesis using astepI [where P = "max_prog ITERS", OF assms(1)] by blast
qed

interpretation max: may_finish "max_prog ITERS" "atomic_new 0" "map (\<lambda>t. MaxLoad t 0) [0..<N]" "max_inv N ITERS" "max_todo ITERS"
  for ITERS N
proof (intro may_finish.intro max_client act_only.intro may_finish_axioms.intro)
  show "max_prog ITERS i l \<noteq> Monitor m w b" for i l m w b by (cases l) (auto simp: max_prog_def)
next
  fix a ls t assume inv: "max_inv N ITERS a ls" and t: "t < length ls" and fin: "max_prog ITERS t (ls ! t) \<noteq> Fin"
  have ok: "max_ok ITERS a t (ls ! t)" and a: "a \<noteq> []" using inv t by (auto simp: max_inv_def)
  obtain u j cur where l: "ls ! t = MaxLoad u j \<and> j < ITERS \<or> ls ! t = MaxCas u j cur"
    using fin by (cases "ls ! t") (auto simp: max_prog_def split: if_splits)
  have c: "max_calls (ls ! t) = j" "j < ITERS" using l ok by auto
  obtain a' where "reach (astep (max_prog ITERS)) (a, ls) (a', ls[t := MaxLoad u (Suc j)])"
  proof (cases "ls ! t = MaxCas u j cur \<and> candidate ITERS u j \<le> cur")
    case True
    then show ?thesis using that max_swap [OF t] by blast
  next
    case False
    then have "ls ! t = MaxLoad u j \<and> j < ITERS \<or> ls ! t = MaxCas u j cur \<and> cur < candidate ITERS u j" using l by auto
    from max_reload [OF t this a] max_swap [of t "ls[t := MaxCas u j (last a)]" u j "last a" a ITERS] t that show ?thesis
      by (auto dest: reach_trans)
  qed
  moreover obtain R where "sum_list (map (\<lambda>l. ITERS - max_calls l) ls) = R + (ITERS - max_calls (ls ! t))"
    "\<And>x. sum_list (map (\<lambda>l. ITERS - max_calls l) (ls[t := x])) = R + (ITERS - max_calls x)" using sum_list_split [OF t] by blast
  then have "max_todo ITERS a' (ls[t := MaxLoad u (Suc j)]) < max_todo ITERS a ls" using c by (simp add: max_todo_def)
  ultimately show "\<exists>s' ls'. reach (astep (max_prog ITERS)) (a, ls) (s', ls') \<and> max_todo ITERS s' ls' < max_todo ITERS a ls" by blast
qed

lemma max_final:
  assumes r: "reach (step (max_prog ITERS)) (max_start N) c" "all_fin (max_prog ITERS) c" and pos: "0 < N" "0 < ITERS"
  shows "atomic_value (shared c) = int (N * ITERS) - 1"
proof -
  have inv: "max_inv N ITERS (shared c) (locs c)"
    using max.I_reach r(1) by (simp add: max_start_def)
  let ?l = "locs c ! (N - 1)"
  have i: "N - 1 < length (thr c)" using inv pos by (simp add: max_inv_def)
  then have "max_prog ITERS (N - 1) ?l = Fin" using r(2) by (auto simp: all_fin_def)
  moreover have ok: "max_ok ITERS (shared c) (N - 1) ?l" "seen ITERS (shared c) (N - 1) ?l"
    using inv pos by (auto simp: max_inv_def simp del: nth_locs)
  ultimately have "max_calls ?l = ITERS" by (cases ?l) (auto simp: max_prog_def split: if_splits simp del: nth_locs)
  then have "candidate ITERS (N - 1) (ITERS - 1) \<le> last (shared c)" using ok(2) pos unfolding seen_def by auto
  moreover have "candidate ITERS (N - 1) (ITERS - 1) = int (N * ITERS) - 1"
    using pos by (cases N; cases ITERS) (simp_all add: candidate_def)
  moreover have "last (shared c) \<le> int (N * ITERS) - 1"
  proof -
    have "last (shared c) \<in> set (shared c)" using inv by (simp add: max_inv_def)
    then consider "last (shared c) = 0" | t j where "t < N" "j < ITERS" "last (shared c) = candidate ITERS t j"
      using inv unfolding max_inv_def by blast
    then show ?thesis
    proof cases
      case 1
      then show ?thesis using pos by simp
    next
      case (2 t j)
      then have "Suc t * ITERS \<le> N * ITERS" by (intro mult_le_mono1) simp
      then have "t * ITERS + j + 1 \<le> N * ITERS" using 2(2) by simp
      then have "int (t * ITERS + j + 1) \<le> int (N * ITERS)" by (rule iffD2 [OF of_nat_le_iff])
      then show ?thesis by (simp add: 2(3) candidate_def)
    qed
  qed
  ultimately show ?thesis by (simp add: atomic_value_def)
qed

subsection \<open>Properties\<close>

text \<open>C25: \<open>my_add\<close> is \<open>fetch_add\<close>. Whatever the threads have done so far, they can finish; and when they
  have, the variable holds the sum of all additions and the calls have returned, between them, each
  of the values before it exactly once. Loads may have been stale and exchanges may have failed
  spuriously any number of times.\<close>

theorem my_add_exact:
  assumes "reach (step (add_prog ITERS delta)) (my_add_start N) c"
  shows "(\<exists>d. reach (step (add_prog ITERS delta)) c d \<and> all_fin (add_prog ITERS delta) d) \<and>
    (all_fin (add_prog ITERS delta) c \<longrightarrow> atomic_value (shared c) = delta * int (N * ITERS) \<and>
      sum_list (map (\<lambda>l. mset (add_returned l)) (locs c)) = mset (counted delta (N * ITERS)))"
  using add.can_finish assms add_final [OF assms] by (simp add: my_add_start_def)

text \<open>Two threads with two calls each; the second one finds its first \<open>old\<close> out of date.\<close>

definition add_demo :: "(atomic_long, add_loc) cfg" where
  "add_demo = the (run (step (add_prog 2 5)) (my_add_start 2)
     [(0, Norm 0), (1, Norm 0), (0, Norm 0), (1, Norm 1), (1, Norm 0), (0, Norm 2), (0, Norm 0), (1, Norm 3), (1, Norm 0)])"

lemma add_demo: "all_finb (add_prog 2 5) add_demo"
  by code_simp

lemma add_demo_reach: "reach (step (add_prog 2 5)) (my_add_start 2) add_demo"
  unfolding add_demo_def by (rule run_the_reach) code_simp

theorem my_add_exact_witness: "atomic_value (shared add_demo) = 20"
  using my_add_exact [OF add_demo_reach] add_demo by (simp add: all_finb)

text \<open>\<open>atomic_max\<close> computes the maximum. The threads can always finish, and when they have, the variable
  holds the largest candidate of all; the variable never goes down.\<close>

theorem atomic_max_exact:
  assumes "reach (step (max_prog ITERS)) (max_start N) c" "0 < N" "0 < ITERS"
  shows "(\<exists>d. reach (step (max_prog ITERS)) c d \<and> all_fin (max_prog ITERS) d) \<and> sorted_wrt (<) (shared c) \<and>
    (all_fin (max_prog ITERS) c \<longrightarrow> atomic_value (shared c) = int (N * ITERS) - 1)"
  using max.can_finish assms(1) max.I_reach [of ITERS N c] max_final [OF assms(1) _ assms(2,3)]
  by (simp add: max_start_def max_inv_def)

definition max_demo :: "(atomic_long, max_loc) cfg" where
  "max_demo = the (run (step (max_prog 2)) (max_start 2)
     [(1, Norm 0), (0, Norm 0), (1, Norm 0), (0, Norm 0), (0, Norm 0), (0, Norm 1), (0, Norm 0), (1, Norm 1), (1, Norm 0)])"

lemma max_demo: "all_finb (max_prog 2) max_demo"
  by code_simp

lemma max_demo_reach: "reach (step (max_prog 2)) (max_start 2) max_demo"
  unfolding max_demo_def by (rule run_the_reach) code_simp

theorem atomic_max_exact_witness: "atomic_value (shared max_demo) = 3"
  using atomic_max_exact [OF max_demo_reach] max_demo by (simp add: all_finb)

end
