(* ===== verification/Futures.thy ===== *)
theory Futures
  imports Scripts "HOL-Library.Word"
begin

text \<open>
  Futures: \<open>examples/02_cpp11_threads/05_futures/01_async.cpp\<close>, \<open>02_promise.cpp\<close> and
  \<open>04_shared_future.cpp\<close>. A task delivers a value or an exception once; whoever calls \<open>get\<close> waits
  for it and returns the value or throws the exception. The theorem about such programs says
  that the threads cannot be seen: every thread prints what it would print if the task were an
  ordinary call at the place of \<open>get\<close>.
\<close>

subsection \<open>Results\<close>

text \<open>The exception's text, or the value, a 32-bit \<open>int\<close>.\<close>

type_synonym outcome = "string + 32 word"

text \<open>\<open>slow\<close> of \<open>01_async.cpp\<close> and the body of \<open>compute\<close> of \<open>02_promise.cpp\<close>.\<close>

definition slow :: "32 word \<Rightarrow> outcome" where
  "slow x = (if sint x < 0 then Inl ''negative not allowed'' else Inr (x * x))"

definition compute :: "32 word \<Rightarrow> outcome" where
  "compute x = (if sint x < 0 then Inl ''negative'' else Inr (x * x))"

subsection \<open>Programs with futures\<close>

text \<open>What is printed. \<open>Terminated\<close>: an exception that nobody catches ends the process.\<close>

datatype shown = Note string | Result "32 word" | Caught string | Waiting | Terminated string

text \<open>
  \<open>Spawn k\<close> starts thread \<open>k\<close>, which waits for that in \<open>Begin k\<close>; \<open>Exit k\<close> is its end and
  \<open>Join k\<close> waits for it. \<open>Deliver k\<close> runs task \<open>k\<close> and puts its outcome into the shared state of
  future \<open>k\<close>. \<open>Get k\<close> prints the value, \<open>TryGet k\<close> is a \<open>get\<close> whose exception is caught and
  printed and whose value is not used, \<open>Poll k\<close> the loop around \<open>wait_for\<close>.
\<close>

datatype fu_cmd =
    Spawn nat
  | Begin nat
  | Exit nat
  | Join nat
  | Deliver nat
  | Print string
  | Get nat
  | TryGet nat
  | Poll nat

record fu_state =
  fu_started :: "nat \<Rightarrow> bool"
  fu_exited :: "nat \<Rightarrow> bool"
  fu_shared :: "nat \<Rightarrow> outcome option"
  fu_out :: "nat \<Rightarrow> shown list"

definition fu_say :: "nat \<Rightarrow> shown \<Rightarrow> fu_state \<Rightarrow> fu_state" where
  "fu_say i m s = s\<lparr>fu_out := (fu_out s)(i := fu_out s i @ [m])\<rparr>"

text \<open>What \<open>get\<close> waits for: the outcome of future \<open>k\<close>, as soon as there is one.\<close>

definition arrived :: "fu_state \<Rightarrow> nat \<Rightarrow> outcome list" where
  "arrived s k = (case fu_shared s k of None \<Rightarrow> [] | Some r \<Rightarrow> [r])"

lemma in_arrived [simp]: "r \<in> set (arrived s k) \<longleftrightarrow> fu_shared s k = Some r"
  by (auto simp: arrived_def split: option.splits)

lemma arrived_Nil [simp]: "arrived s k = [] \<longleftrightarrow> fu_shared s k = None"
  by (auto simp: arrived_def split: option.splits)

text \<open>What is left of the thread, too: a terminated program executes no further command.\<close>

fun fu_exec :: "(nat \<Rightarrow> outcome) \<Rightarrow> nat \<Rightarrow> fu_cmd \<Rightarrow> fu_cmd list \<Rightarrow> fu_state \<Rightarrow> (fu_state \<times> fu_cmd list) list" where
  "fu_exec task i (Spawn k) cs s = [(s\<lparr>fu_started := (fu_started s)(k := True)\<rparr>, cs)]"
| "fu_exec task i (Begin k) cs s = (if fu_started s k then [(s, cs)] else [])"
| "fu_exec task i (Exit k) cs s = [(s\<lparr>fu_exited := (fu_exited s)(k := True)\<rparr>, cs)]"
| "fu_exec task i (Join k) cs s = (if fu_exited s k then [(s, cs)] else [])"
| "fu_exec task i (Deliver k) cs s = (case fu_shared s k of
     None \<Rightarrow> [(s\<lparr>fu_shared := (fu_shared s)(k := Some (task k))\<rparr>, cs)]
   | Some r \<Rightarrow> [(fu_say i (Terminated ''promise already satisfied'') s, [])])"
| "fu_exec task i (Print m) cs s = [(fu_say i (Note m) s, cs)]"
| "fu_exec task i (Get k) cs s = map (\<lambda>r. case r of
     Inr v \<Rightarrow> (fu_say i (Result v) s, cs)
   | Inl e \<Rightarrow> (fu_say i (Terminated e) s, [])) (arrived s k)"
| "fu_exec task i (TryGet k) cs s = map (\<lambda>r. case r of
     Inr v \<Rightarrow> (s, cs)
   | Inl e \<Rightarrow> (fu_say i (Caught e) s, cs)) (arrived s k)"
| "fu_exec task i (Poll k) cs s = (case fu_shared s k of
     None \<Rightarrow> [(fu_say i Waiting s, Poll k # cs)]
   | Some r \<Rightarrow> [(s, cs)])"

fun fu_thread :: "(nat \<Rightarrow> outcome) \<Rightarrow> nat \<Rightarrow> fu_cmd list \<Rightarrow> (fu_state, fu_cmd list) stmt" where
  "fu_thread task i [] = Fin"
| "fu_thread task i (c # cs) = Act (fu_exec task i c cs)"

definition fu_init :: fu_state where
  "fu_init = \<lparr>fu_started = (\<lambda>_. False), fu_exited = (\<lambda>_. False), fu_shared = (\<lambda>_. None), fu_out = (\<lambda>_. [])\<rparr>"

definition fu_start :: "fu_cmd list list \<Rightarrow> (fu_state, fu_cmd list) cfg" where
  "fu_start ps = start fu_init ps"

text \<open>A worker runs its task and ends: thread \<open>std::async\<close> starts, or \<open>compute\<close> with its promise.\<close>

definition worker :: "nat \<Rightarrow> fu_cmd list" where
  "worker k = [Begin k, Deliver k, Exit k]"

definition with_workers :: "nat \<Rightarrow> fu_cmd list \<Rightarrow> fu_cmd list list" where
  "with_workers n ms = ms # map (\<lambda>k. worker (Suc k)) [0..<n]"

text \<open>\<open>main\<close> of \<open>01_async.cpp\<close>; the future of an \<open>std::async\<close> joins its thread when it is destroyed.\<close>

definition async_main :: "fu_cmd list" where
  "async_main = [Spawn 1, Print ''doing other work'', Get 1, Spawn 2, TryGet 2, Join 2, Spawn 3, Poll 3, Get 3, Join 3, Join 1]"

definition async_task :: "nat \<Rightarrow> outcome" where
  "async_task k = (if k = 1 then slow 7 else if k = 2 then slow (- 1) else slow 11)"

definition async_start :: "(fu_state, fu_cmd list) cfg" where
  "async_start = fu_start (with_workers 3 async_main)"

text \<open>\<open>main\<close> of \<open>02_promise.cpp\<close>.\<close>

definition promise_main :: "fu_cmd list" where
  "promise_main = [Spawn 1, Get 1, Join 1, Spawn 2, TryGet 2, Join 2]"

definition promise_task :: "nat \<Rightarrow> outcome" where
  "promise_task k = (if k = 1 then compute 9 else compute (- 1))"

definition promise_start :: "(fu_state, fu_cmd list) cfg" where
  "promise_start = fu_start (with_workers 2 promise_main)"

text \<open>\<open>04_shared_future.cpp\<close>: \<open>n\<close> readers of one shared state, which \<open>main\<close> fills with 123.\<close>

definition shared_reader :: "nat \<Rightarrow> fu_cmd list" where
  "shared_reader i = [Begin i, Get 0, Exit i]"

definition shared_main :: "nat \<Rightarrow> fu_cmd list" where
  "shared_main n = map (\<lambda>i. Spawn (Suc i)) [0..<n] @ [Deliver 0] @ map (\<lambda>i. Join (Suc i)) [0..<n]"

definition shared_task :: "nat \<Rightarrow> outcome" where
  "shared_task k = Inr 123"

definition shared_start :: "nat \<Rightarrow> (fu_state, fu_cmd list) cfg" where
  "shared_start n = fu_start (shared_main n # map (\<lambda>i. shared_reader (Suc i)) [0..<n])"

subsection \<open>The sequential program\<close>

text \<open>The output if every \<open>get\<close> were the call itself; \<open>wait_for\<close> would not wait.\<close>

fun sequential :: "(nat \<Rightarrow> outcome) \<Rightarrow> fu_cmd list \<Rightarrow> shown list" where
  "sequential task [] = []"
| "sequential task (Print m # cs) = Note m # sequential task cs"
| "sequential task (Get k # cs) = (case task k of Inr v \<Rightarrow> Result v # sequential task cs | Inl e \<Rightarrow> [Terminated e])"
| "sequential task (TryGet k # cs) = (case task k of Inr v \<Rightarrow> sequential task cs | Inl e \<Rightarrow> Caught e # sequential task cs)"
| "sequential task (_ # cs) = sequential task cs"

definition visible :: "shown list \<Rightarrow> shown list" where
  "visible = filter (\<lambda>m. m \<noteq> Waiting)"

text \<open>Each future is filled by one thread, once.\<close>

definition fills :: "nat \<Rightarrow> fu_cmd list list \<Rightarrow> nat" where
  "fills k ls = sum_list (map (\<lambda>cs. count_list cs (Deliver k)) ls)"

definition fu_inv :: "(nat \<Rightarrow> outcome) \<Rightarrow> fu_cmd list list \<Rightarrow> fu_state \<Rightarrow> fu_cmd list list \<Rightarrow> bool" where
  "fu_inv task ps s ls \<longleftrightarrow> length ls = length ps \<and>
     (\<forall>k. case fu_shared s k of None \<Rightarrow> fills k ls \<le> 1 | Some r \<Rightarrow> r = task k \<and> fills k ls = 0) \<and>
     (\<forall>i<length ps. visible (fu_out s i) @ sequential task (ls ! i) = sequential task (ps ! i))"

lemma fills_upd:
  assumes "i < length ls"
  shows "fills k (ls[i := cs]) + count_list (ls ! i) (Deliver k) = fills k ls + count_list cs (Deliver k)"
proof -
  obtain R where "fills k ls = R + count_list (ls ! i) (Deliver k)" "\<And>x. fills k (ls[i := x]) = R + count_list x (Deliver k)"
    unfolding fills_def using sum_list_split [OF assms] by blast
  then show ?thesis by simp
qed

lemma fu_exec_out:
  assumes "(s', l') \<in> set (fu_exec task i c cs s)"
  shows "j \<noteq> i \<Longrightarrow> fu_out s' j = fu_out s j"
  using assms by (cases c) (auto simp: fu_say_def split: option.split_asm sum.split_asm if_split_asm)

lemma fu_exec_next:
  assumes "(s', l') \<in> set (fu_exec task i c cs s)"
  shows "l' = cs \<or> l' = [] \<or> (\<exists>k. c = Poll k \<and> l' = c # cs)"
  using assms by (cases c) (auto split: option.split_asm sum.split_asm if_split_asm)

lemma fu_exec_shared:
  assumes "(s', l') \<in> set (fu_exec task i c cs s)"
  shows "(\<forall>k. c \<noteq> Deliver k) \<Longrightarrow> fu_shared s' = fu_shared s"
    "c = Deliver k \<Longrightarrow> fu_shared s k = None \<Longrightarrow> fu_shared s' = (fu_shared s)(k := Some (task k))"
  using assms by (cases c; auto simp: fu_say_def split: option.split_asm sum.split_asm if_split_asm)+

lemma fu_exec_seq:
  assumes x: "(s', l') \<in> set (fu_exec task i c cs s)" and sh: "\<And>k r. fu_shared s k = Some r \<Longrightarrow> r = task k"
    and new: "\<And>k. c = Deliver k \<Longrightarrow> fu_shared s k = None"
  shows "visible (fu_out s' i) @ sequential task l' = visible (fu_out s i) @ sequential task (c # cs)"
proof (cases c)
  case (Get k)
  then obtain r where r: "fu_shared s k = Some r" using x by auto
  then have "fu_shared s k = Some (task k)" using sh [OF r] by simp
  then show ?thesis using x Get by (auto simp: fu_say_def visible_def split: sum.splits)
next
  case (TryGet k)
  then obtain r where r: "fu_shared s k = Some r" using x by auto
  then have "fu_shared s k = Some (task k)" using sh [OF r] by simp
  then show ?thesis using x TryGet by (auto simp: fu_say_def visible_def split: sum.splits)
qed (use x new in \<open>auto simp: fu_say_def visible_def split: option.splits if_splits\<close>)

lemma fu_inv_step:
  assumes inv: "fu_inv task ps s ls" and i: "i < length ls" and e: "(s', l') \<in> set (effects (fu_thread task i (ls ! i)) s)"
  shows "fu_inv task ps s' (ls[i := l'])"
proof -
  obtain c cs where l: "ls ! i = c # cs" and x: "(s', l') \<in> set (fu_exec task i c cs s)" using e by (cases "ls ! i") auto
  note ex = fu_exec_shared [OF x]
  have sh: "case fu_shared s k of None \<Rightarrow> fills k ls \<le> 1 | Some r \<Rightarrow> r = task k \<and> fills k ls = 0" for k
    using inv by (simp add: fu_inv_def)
  have cnt: "fills k (ls[i := l']) + (if c = Deliver k then 1 else 0) \<le> fills k ls" for k
    using fills_upd [OF i, of k l'] fu_exec_next [OF x] l by auto
  have new: "fu_shared s k = None" if "c = Deliver k" for k
    using sh [of k] cnt [of k] that by (auto split: option.splits)
  have "case fu_shared s' k of None \<Rightarrow> fills k (ls[i := l']) \<le> 1 | Some r \<Rightarrow> r = task k \<and> fills k (ls[i := l']) = 0" for k
  proof (cases "\<exists>j. c = Deliver j")
    case True
    then obtain j where "c = Deliver j" by blast
    then show ?thesis using sh [of k] cnt [of k] ex(2) [OF _ new] by (cases "j = k") (auto split: option.splits)
  next
    case False
    then show ?thesis using sh [of k] cnt [of k] ex(1) by (auto split: option.splits)
  qed
  moreover have "visible (fu_out s' i) @ sequential task l' = visible (fu_out s i) @ sequential task (c # cs)"
  proof (rule fu_exec_seq [OF x])
    show "r = task k" if "fu_shared s k = Some r" for k r using sh [of k] that by simp
  qed (rule new)
  moreover have "visible (fu_out s i) @ sequential task (c # cs) = sequential task (ps ! i)" using inv i l by (auto simp: fu_inv_def)
  ultimately show ?thesis using inv i fu_exec_out [OF x] by (auto simp: fu_inv_def nth_list_update)
qed

lemma fu_client:
  assumes "\<And>k. fills k ps \<le> 1"
  shows "monitor_invariant (fu_thread task) fu_init ps (fu_inv task ps)"
proof unfold_locales
  show "fu_inv task ps fu_init ps" using assms by (simp add: fu_inv_def fu_init_def visible_def)
qed (rule fu_inv_step)

lemma fu_act_only: "act_only (fu_thread task)"
proof
  show "fu_thread task i l \<noteq> Monitor m w b" for i l m w b by (cases l) auto
qed

subsection \<open>A main thread and its workers\<close>

text \<open>\<open>main\<close> asks only for futures and threads it has created before; the threads are 1 to \<open>n\<close>.\<close>

fun well_ordered :: "nat \<Rightarrow> nat list \<Rightarrow> fu_cmd list \<Rightarrow> bool" where
  "well_ordered n S [] = True"
| "well_ordered n S (Spawn k # cs) = (1 \<le> k \<and> k \<le> n \<and> well_ordered n (k # S) cs)"
| "well_ordered n S (Print m # cs) = well_ordered n S cs"
| "well_ordered n S (Get k # cs) = (k \<in> set S \<and> well_ordered n S cs)"
| "well_ordered n S (TryGet k # cs) = (k \<in> set S \<and> well_ordered n S cs)"
| "well_ordered n S (Poll k # cs) = (k \<in> set S \<and> well_ordered n S cs)"
| "well_ordered n S (Join k # cs) = (k \<in> set S \<and> well_ordered n S cs)"
| "well_ordered n S (_ # cs) = False"

lemma well_ordered_no_Deliver: "well_ordered n S cs \<Longrightarrow> count_list cs (Deliver k) = 0"
  by (induction n S cs rule: well_ordered.induct) auto

definition worker_ok :: "fu_state \<Rightarrow> nat \<Rightarrow> fu_cmd list \<Rightarrow> bool" where
  "worker_ok s k cs \<longleftrightarrow> cs = worker k \<or> cs = [Deliver k, Exit k] \<or>
     cs = [Exit k] \<and> fu_shared s k \<noteq> None \<or> cs = [] \<and> fu_shared s k \<noteq> None \<and> fu_exited s k"

definition ww_inv :: "nat \<Rightarrow> fu_state \<Rightarrow> fu_cmd list list \<Rightarrow> bool" where
  "ww_inv n s ls \<longleftrightarrow> length ls = Suc n \<and> (\<exists>S. (\<forall>k\<in>set S. fu_started s k \<and> 1 \<le> k \<and> k \<le> n) \<and> well_ordered n S (ls ! 0)) \<and>
     (\<forall>k. 1 \<le> k \<longrightarrow> k \<le> n \<longrightarrow> worker_ok s k (ls ! k))"

lemma fills_workers:
  assumes "count_list ms (Deliver k) = 0"
  shows "fills k (with_workers n ms) \<le> 1"
proof -
  have "sum_list (map (\<lambda>j. count_list (worker (Suc j)) (Deliver k)) [0..<m]) = (if 1 \<le> k \<and> k \<le> m then 1 else 0)" for m
    by (induction m) (auto simp: worker_def)
  then show ?thesis using assms by (simp add: fills_def with_workers_def comp_def)
qed

text \<open>What a step of \<open>main\<close> and of a worker changes.\<close>

lemma fu_main_step:
  assumes "(s', l') \<in> set (fu_exec task 0 c cs s)" "\<forall>k\<in>set S. fu_started s k \<and> 1 \<le> k \<and> k \<le> n" "well_ordered n S (c # cs)"
  shows "fu_shared s' = fu_shared s \<and> fu_exited s' = fu_exited s \<and>
    (\<exists>S. (\<forall>k\<in>set S. fu_started s' k \<and> 1 \<le> k \<and> k \<le> n) \<and> well_ordered n S l')"
proof (cases c)
  case (Spawn k)
  then show ?thesis using assms by (auto intro!: exI [where x = "k # S"])
qed (use assms in \<open>auto simp: fu_say_def split: sum.splits option.splits if_splits intro!: exI [where x = S]\<close>)

lemma fu_worker_step:
  assumes "(s', l') \<in> set (fu_exec task k c cs s)" "worker_ok s k (c # cs)" "c = Deliver k \<Longrightarrow> fu_shared s k = None"
  shows "worker_ok s' k l' \<and> fu_started s' = fu_started s \<and> (\<forall>j. j \<noteq> k \<longrightarrow> fu_shared s' j = fu_shared s j \<and> fu_exited s' j = fu_exited s j)"
  using assms by (auto simp: worker_ok_def worker_def split: if_splits)

lemma ww_client:
  assumes "well_ordered n [] ms"
  shows "monitor_invariant (fu_thread task) fu_init (with_workers n ms) (\<lambda>s ls. fu_inv task (with_workers n ms) s ls \<and> ww_inv n s ls)"
proof
  have f: "fills k (with_workers n ms) \<le> 1" for k by (rule fills_workers [OF well_ordered_no_Deliver [OF assms]])
  have "with_workers n ms ! k = worker k" if "1 \<le> k" "k \<le> n" for k
    using that by (cases k) (simp_all add: with_workers_def)
  then have "ww_inv n fu_init (with_workers n ms)"
    using assms by (auto simp: ww_inv_def worker_ok_def with_workers_def intro!: exI [where x = "[]"])
  then show "fu_inv task (with_workers n ms) fu_init (with_workers n ms) \<and> ww_inv n fu_init (with_workers n ms)"
    using monitor_invariant.I_init [OF fu_client [of "with_workers n ms" task, OF f]] by simp
next
  fix s ls i s' l' assume inv: "fu_inv task (with_workers n ms) s ls \<and> ww_inv n s ls" and i: "i < length ls"
    and e: "(s', l') \<in> set (effects (fu_thread task i (ls ! i)) s)"
  obtain c cs where l: "ls ! i = c # cs" and x: "(s', l') \<in> set (fu_exec task i c cs s)" using e by (cases "ls ! i") auto
  have len: "length ls = Suc n" and w: "\<And>k. 1 \<le> k \<Longrightarrow> k \<le> n \<Longrightarrow> worker_ok s k (ls ! k)" using inv by (auto simp: ww_inv_def)
  obtain S where S: "\<forall>k\<in>set S. fu_started s k \<and> 1 \<le> k \<and> k \<le> n" "well_ordered n S (ls ! 0)" using inv by (auto simp: ww_inv_def)
  have "ww_inv n s' (ls[i := l'])"
  proof (cases i)
    case 0
    have m: "fu_shared s' = fu_shared s" "fu_exited s' = fu_exited s"
      "\<exists>S. (\<forall>k\<in>set S. fu_started s' k \<and> 1 \<le> k \<and> k \<le> n) \<and> well_ordered n S l'"
      using fu_main_step [OF x [unfolded 0] S(1)] S(2) l 0 by auto
    then show ?thesis using w len 0 by (auto simp: ww_inv_def worker_ok_def nth_list_update)
  next
    case (Suc j)
    then have k: "1 \<le> i" "i \<le> n" using i len by auto
    have new: "fu_shared s i = None" if "c = Deliver i"
    proof -
      have "1 \<le> fills i ls" using fills_upd [OF i, of i "[]"] l that by simp
      moreover have "case fu_shared s i of None \<Rightarrow> fills i ls \<le> 1 | Some r \<Rightarrow> r = task i \<and> fills i ls = 0"
        using inv by (simp add: fu_inv_def)
      ultimately show ?thesis by (auto split: option.splits)
    qed
    note m = fu_worker_step [OF x w [OF k, unfolded l] new]
    have "worker_ok s' d (ls[i := l'] ! d)" if "1 \<le> d" "d \<le> n" for d
      using m w [OF that] i by (cases "d = i") (auto simp: worker_ok_def)
    moreover have "ls[i := l'] ! 0 = ls ! 0" using k by simp
    ultimately show ?thesis using S m len unfolding ww_inv_def by auto
  qed
  then show "fu_inv task (with_workers n ms) s' (ls[i := l']) \<and> ww_inv n s' (ls[i := l'])"
    using fu_inv_step [OF conjunct1 [OF inv] i e] by simp
qed

text \<open>When nothing moves, \<open>main\<close> is finished: what it waits for has been created, so it comes.\<close>

lemma ww_stuck:
  assumes wo: "well_ordered n [] ms" and r: "reach (step (fu_thread task)) (fu_start (with_workers n ms)) c" "stuck (fu_thread task) c"
  shows "locs c ! 0 = []" "1 \<le> k \<Longrightarrow> k \<le> n \<Longrightarrow> fu_started (shared c) k \<Longrightarrow> locs c ! k = []"
    "visible (fu_out (shared c) 0) = sequential task ms"
proof -
  have r1: "reach (step (fu_thread task)) (start fu_init (with_workers n ms)) c" using r(1) by (simp add: fu_start_def)
  have inv: "fu_inv task (with_workers n ms) (shared c) (locs c)" "ww_inv n (shared c) (locs c)"
    using monitor_invariant.I_reach [OF ww_client [OF wo] r1] by auto
  have blocked: "fu_exec task i d ds (shared c) = []" if "i \<le> n" "locs c ! i = d # ds" for i d ds
    using act_only.act_stuck [OF fu_act_only r1 r(2), of i] that by (simp add: with_workers_def)
  have fin: "locs c ! k = []" if k: "1 \<le> k" "k \<le> n" "fu_started (shared c) k" for k
  proof -
    have "worker_ok (shared c) k (locs c ! k)" using inv(2) k by (simp add: ww_inv_def del: nth_locs)
    then show ?thesis using blocked [OF k(2)] k(3) by (auto simp: worker_ok_def worker_def split: option.splits simp del: nth_locs)
  qed
  then show "1 \<le> k \<Longrightarrow> k \<le> n \<Longrightarrow> fu_started (shared c) k \<Longrightarrow> locs c ! k = []" .
  obtain S where S: "\<forall>k\<in>set S. fu_started (shared c) k \<and> 1 \<le> k \<and> k \<le> n" "well_ordered n S (locs c ! 0)"
    using inv(2) by (auto simp: ww_inv_def simp del: nth_locs)
  have there: "fu_shared (shared c) k \<noteq> None \<and> fu_exited (shared c) k" if "k \<in> set S" for k
  proof -
    have k: "1 \<le> k" "k \<le> n" "fu_started (shared c) k" using S(1) that by auto
    then have "worker_ok (shared c) k []" using inv(2) fin [OF k] by (auto simp: ww_inv_def simp del: nth_locs)
    then show ?thesis by (simp add: worker_ok_def worker_def)
  qed
  show main: "locs c ! 0 = []"
  proof (cases "locs c ! 0")
    case (Cons d ds)
    then show ?thesis using blocked [of 0 d ds] S(2) by (cases d) (auto split: option.splits dest!: there simp del: nth_locs)
  qed
  have "visible (fu_out (shared c) 0) @ sequential task (locs c ! 0) = sequential task (with_workers n ms ! 0)"
    using inv(1) by (simp add: fu_inv_def with_workers_def del: nth_locs)
  then show "visible (fu_out (shared c) 0) = sequential task ms" using main by (simp add: with_workers_def del: nth_locs)
qed

text \<open>Every step but a fruitless \<open>wait_for\<close> uses up a command: the program ends unless it polls for ever.\<close>

definition waits_printed :: "nat \<Rightarrow> fu_state \<Rightarrow> nat" where
  "waits_printed n s = (\<Sum>i<n. count_list (fu_out s i) Waiting)"

lemma fu_step_bound:
  assumes x: "(s', l') \<in> set (fu_exec task i c cs s)" and i: "i < n"
  shows "Suc (length l') + waits_printed n s \<le> length (c # cs) + waits_printed n s'"
proof -
  have w: "waits_printed n s' + count_list (fu_out s i) Waiting = waits_printed n s + count_list (fu_out s' i) Waiting"
    using i fu_exec_out [OF x] sum.remove [of "{..<n}" i "\<lambda>j. count_list (fu_out s j) Waiting"]
      sum.remove [of "{..<n}" i "\<lambda>j. count_list (fu_out s' j) Waiting"]
      sum.cong [of "{..<n} - {i}" "{..<n} - {i}" "\<lambda>j. count_list (fu_out s j) Waiting" "\<lambda>j. count_list (fu_out s' j) Waiting"]
    by (simp add: waits_printed_def)
  have "length l' + count_list (fu_out s i) Waiting \<le> length cs + count_list (fu_out s' i) Waiting"
    using x by (cases c) (auto simp: fu_say_def split: sum.splits option.splits if_splits)
  with w show ?thesis by simp
qed

lemma fu_run_bound:
  assumes "run (astep (fu_thread task)) (s, ls) es = Some (s', ls')"
  shows "length es + sum_list (map length ls') + waits_printed (length ls) s \<le> sum_list (map length ls) + waits_printed (length ls) s'"
  using assms
proof (induction es arbitrary: s ls)
  case (Cons e es)
  obtain i k where e: "e = (i, k)" by (cases e)
  obtain s1 l1 where i: "i < length ls" "k < length (effects (fu_thread task i (ls ! i)) s)"
    and o: "effects (fu_thread task i (ls ! i)) s ! k = (s1, l1)" and r: "run (astep (fu_thread task)) (s1, ls[i := l1]) es = Some (s', ls')"
    using Cons.prems by (auto simp: e astep_def split: if_splits prod.splits option.splits)
  obtain c cs where l: "ls ! i = c # cs" using i(2) by (cases "ls ! i") auto
  have "(s1, l1) \<in> set (fu_exec task i c cs s)" using nth_mem_eq [OF i(2) o] l by simp
  from fu_step_bound [OF this i(1)]
  have "Suc (length l1) + waits_printed (length ls) s \<le> length (ls ! i) + waits_printed (length ls) s1" by (simp add: l)
  moreover obtain R where "sum_list (map length ls) = R + length (ls ! i)" "\<And>x. sum_list (map length (ls[i := x])) = R + length x"
    using sum_list_split [OF i(1)] by blast
  ultimately show ?case using Cons.IH [OF r] by simp
qed simp

lemma fu_bounded:
  assumes "run (step (fu_thread task)) (fu_start ps) es = Some c"
  shows "length es \<le> sum_list (map length ps) + waits_printed (length ps) (shared c)"
proof -
  have r: "run (step (fu_thread task)) (start fu_init ps) es = Some c" using assms by (simp add: fu_start_def)
  obtain fs where "length fs = length es" "run (astep (fu_thread task)) (shared (start fu_init ps), locs (start fu_init ps)) fs = Some (shared c, locs c)"
    using act_only.act_run [OF fu_act_only reach_refl r] by blast
  then show ?thesis using fu_run_bound [of task fu_init ps fs "shared c" "locs c"] by (simp add: start_def locs_def comp_def)
qed

subsection \<open>Readers of a shared future\<close>

lemma shared_fills: "fills k (shared_main n # map (\<lambda>i. shared_reader (Suc i)) [0..<n]) \<le> 1"
proof -
  have a: "count_list (map (\<lambda>i. Spawn (Suc i)) [0..<m]) (Deliver j) = 0" "count_list (map (\<lambda>i. Join (Suc i)) [0..<m]) (Deliver j) = 0" for m j
    by (induction m) auto
  have "count_list (shared_reader i) (Deliver j) = 0" for i j by (simp add: shared_reader_def)
  with a show ?thesis by (simp add: fills_def shared_main_def comp_def)
qed

text \<open>Where the threads can be; \<open>main\<close> has a tail of its commands left.\<close>

definition reader_ok :: "fu_state \<Rightarrow> nat \<Rightarrow> fu_cmd list \<Rightarrow> bool" where
  "reader_ok s i cs \<longleftrightarrow> cs = shared_reader i \<or> cs = [Get 0, Exit i] \<or> cs = [Exit i] \<or> cs = [] \<and> fu_exited s i"

definition sf_inv :: "nat \<Rightarrow> fu_state \<Rightarrow> fu_cmd list list \<Rightarrow> bool" where
  "sf_inv n s ls \<longleftrightarrow> length ls = Suc n \<and> (\<exists>j. ls ! 0 = drop j (shared_main n) \<and> (\<forall>i<n. i < j \<longrightarrow> fu_started s (Suc i)) \<and>
     (n < j \<longrightarrow> fu_shared s 0 \<noteq> None)) \<and> (\<forall>i. 1 \<le> i \<longrightarrow> i \<le> n \<longrightarrow> reader_ok s i (ls ! i))"

lemma shared_main_nth:
  "i < n \<Longrightarrow> shared_main n ! i = Spawn (Suc i)" "shared_main n ! n = Deliver 0"
  "n < i \<Longrightarrow> i < 2 * n + 1 \<Longrightarrow> shared_main n ! i = Join (i - n)" "length (shared_main n) = 2 * n + 1"
  by (auto simp: shared_main_def nth_append nth_Cons')

lemma sf_main_step:
  assumes "(s', l') \<in> set (fu_exec shared_task 0 (shared_main n ! j) cs s)" "j < 2 * n + 1" "j = n \<Longrightarrow> fu_shared s 0 = None"
  shows "l' = cs \<and> fu_exited s' = fu_exited s \<and> (\<forall>i. fu_started s' i \<longleftrightarrow> fu_started s i \<or> j < n \<and> i = Suc j) \<and>
    fu_shared s' = (if j = n then (fu_shared s)(0 := Some (Inr 123)) else fu_shared s)"
proof -
  consider "j < n" | "j = n" | "n < j" by linarith
  then show ?thesis by cases (use assms in \<open>auto simp: shared_main_nth shared_task_def split: if_splits\<close>)
qed

lemma sf_reader_step:
  assumes "(s', l') \<in> set (fu_exec shared_task i c cs s)" "reader_ok s i (c # cs)" "\<And>r. fu_shared s 0 = Some r \<Longrightarrow> r = Inr 123"
  shows "reader_ok s' i l' \<and> fu_started s' = fu_started s \<and> fu_shared s' = fu_shared s \<and> (\<forall>j. fu_exited s j \<longrightarrow> fu_exited s' j)"
proof -
  consider "c = Begin i" "cs = [Get 0, Exit i]" | "c = Get 0" "cs = [Exit i]" | "c = Exit i" "cs = []"
    using assms(2) by (auto simp: reader_ok_def shared_reader_def)
  then show ?thesis
  proof cases
    case 2
    then have "fu_shared s 0 = Some (Inr 123)" using assms(1,3) by auto
    then show ?thesis using assms(1) 2 by (simp add: reader_ok_def fu_say_def arrived_def)
  qed (use assms(1) in \<open>auto simp: reader_ok_def split: if_splits\<close>)
qed

lemma sf_client:
  defines "ps n \<equiv> shared_main n # map (\<lambda>i. shared_reader (Suc i)) [0..<n]"
  shows "monitor_invariant (fu_thread shared_task) fu_init (ps n) (\<lambda>s ls. fu_inv shared_task (ps n) s ls \<and> sf_inv n s ls)"
proof
  have "ps n ! i = shared_reader i" if "1 \<le> i" "i \<le> n" for i
    using that by (cases i) (simp_all add: ps_def)
  then have "sf_inv n fu_init (ps n)"
    unfolding sf_inv_def by (auto simp: ps_def reader_ok_def intro!: exI [where x = 0])
  then show "fu_inv shared_task (ps n) fu_init (ps n) \<and> sf_inv n fu_init (ps n)"
    using monitor_invariant.I_init [OF fu_client [of "ps n" shared_task]] shared_fills by (simp add: ps_def)
next
  fix s ls i s' l' assume inv: "fu_inv shared_task (ps n) s ls \<and> sf_inv n s ls" and i: "i < length ls"
    and e: "(s', l') \<in> set (effects (fu_thread shared_task i (ls ! i)) s)"
  obtain c cs where l: "ls ! i = c # cs" and x: "(s', l') \<in> set (fu_exec shared_task i c cs s)" using e by (cases "ls ! i") auto
  have len: "length ls = Suc n" and w: "\<And>i. 1 \<le> i \<Longrightarrow> i \<le> n \<Longrightarrow> reader_ok s i (ls ! i)" using inv by (auto simp: sf_inv_def)
  obtain j where j: "ls ! 0 = drop j (shared_main n)" "\<forall>i<n. i < j \<longrightarrow> fu_started s (Suc i)" "n < j \<longrightarrow> fu_shared s 0 \<noteq> None"
    using inv by (auto simp: sf_inv_def)
  have "case fu_shared s 0 of None \<Rightarrow> fills 0 ls \<le> 1 | Some r \<Rightarrow> r = shared_task 0 \<and> fills 0 ls = 0"
    using inv unfolding fu_inv_def by blast
  then have val: "case fu_shared s 0 of None \<Rightarrow> fills 0 ls \<le> 1 | Some r \<Rightarrow> r = Inr 123 \<and> fills 0 ls = 0"
    by (simp add: shared_task_def cong: option.case_cong)
  have "sf_inv n s' (ls[i := l'])"
  proof (cases "i = 0")
    case True
    have jj: "j < 2 * n + 1" "c = shared_main n ! j" "cs = drop (Suc j) (shared_main n)"
      using l j(1) True by (metis drop_eq_Nil2 list.distinct(1) not_less shared_main_nth(4), (metis drop_Suc drop_eq_Nil2 hd_drop_conv_nth list.distinct(1) list.sel(1,3) not_less tl_drop)+)
    have new: "fu_shared s 0 = None" if "j = n"
    proof -
      have "1 \<le> fills 0 ls" using fills_upd [OF i, of 0 "[]"] l that jj by (simp add: shared_main_nth True)
      then show ?thesis using val by (auto split: option.splits)
    qed
    note m = sf_main_step [OF x [unfolded True jj(2)] jj(1) new]
    have "\<forall>i<n. i < Suc j \<longrightarrow> fu_started s' (Suc i)" using m j(2) by (auto simp: less_Suc_eq)
    moreover have "n < Suc j \<longrightarrow> fu_shared s' 0 \<noteq> None" using m j(3) by (auto simp: less_Suc_eq)
    moreover have "reader_ok s' d (ls[i := l'] ! d)" if "1 \<le> d" "d \<le> n" for d
      using w [OF that] m that True by (auto simp: reader_ok_def)
    ultimately show ?thesis using m jj(3) len True by (auto simp: sf_inv_def)
  next
    case False
    then have k: "1 \<le> i" "i \<le> n" using i len by auto
    have "r = Inr 123" if "fu_shared s 0 = Some r" for r using val that by simp
    note m = sf_reader_step [OF x w [OF k, unfolded l] this]
    have "reader_ok s' d (ls[i := l'] ! d)" if "1 \<le> d" "d \<le> n" for d
      using m w [OF that] i by (cases "d = i") (auto simp: reader_ok_def)
    moreover have "ls[i := l'] ! 0 = ls ! 0" using False by simp
    ultimately show ?thesis using j m len unfolding sf_inv_def by auto
  qed
  then show "fu_inv shared_task (ps n) s' (ls[i := l']) \<and> sf_inv n s' (ls[i := l'])"
    using fu_inv_step [OF conjunct1 [OF inv] i e] by simp
qed

lemma shared_future_readers:
  assumes r: "reach (step (fu_thread shared_task)) (shared_start n) c" "stuck (fu_thread shared_task) c" and i: "1 \<le> i" "i \<le> n"
  shows "locs c ! 0 = []" "locs c ! i = []" "visible (fu_out (shared c) i) = [Result 123]"
proof -
  let ?ps = "shared_main n # map (\<lambda>i. shared_reader (Suc i)) [0..<n]"
  have r1: "reach (step (fu_thread shared_task)) (start fu_init ?ps) c" using r(1) by (simp add: shared_start_def fu_start_def)
  have inv: "fu_inv shared_task ?ps (shared c) (locs c)" "sf_inv n (shared c) (locs c)"
    using monitor_invariant.I_reach [OF sf_client r1] by auto
  obtain j where j: "locs c ! 0 = drop j (shared_main n)" "\<forall>i<n. i < j \<longrightarrow> fu_started (shared c) (Suc i)" "n < j \<longrightarrow> fu_shared (shared c) 0 \<noteq> None"
    and w: "\<And>i. 1 \<le> i \<Longrightarrow> i \<le> n \<Longrightarrow> reader_ok (shared c) i (locs c ! i)" using inv(2) by (auto simp: sf_inv_def simp del: nth_locs)
  have blocked: "fu_exec shared_task i d ds (shared c) = []" if "i \<le> n" "locs c ! i = d # ds" for i d ds
    using act_only.act_stuck [OF fu_act_only r1 r(2), of i] that by simp
  have main: "locs c ! 0 = d # ds \<Longrightarrow> j < 2 * n + 1 \<and> d = shared_main n ! j" for d ds
    using j(1) by (metis drop_eq_Nil2 hd_drop_conv_nth list.distinct(1) list.sel(1) not_less shared_main_nth(4))
  have late: "n < j"
  proof (rule ccontr)
    assume "\<not> n < j"
    then have "locs c ! 0 = shared_main n ! j # drop (Suc j) (shared_main n)" using j(1) by (simp add: Cons_nth_drop_Suc shared_main_nth)
    from blocked [OF _ this] \<open>\<not> n < j\<close> show False
      by (cases "j = n") (auto simp: shared_main_nth split: option.splits)
  qed
  have done_: "locs c ! i = [] \<and> fu_exited (shared c) i" if i: "1 \<le> i" "i \<le> n" for i
  proof -
    have "fu_started (shared c) i" using j(2) late i by (cases i) auto
    then show ?thesis using w [OF i] blocked [OF i(2)] j(3) late by (auto simp: reader_ok_def shared_reader_def simp del: nth_locs)
  qed
  then show "locs c ! i = []" using i by blast
  show "locs c ! 0 = []"
  proof (cases "locs c ! 0")
    case (Cons d ds)
    then have "d = Join (j - n)" "1 \<le> j - n" "j - n \<le> n" using main late by (auto simp: shared_main_nth)
    then show ?thesis using blocked [OF _ Cons] done_ by simp
  qed
  have "visible (fu_out (shared c) i) @ sequential shared_task (locs c ! i) = sequential shared_task (?ps ! i)"
    using inv(1) i by (auto simp: fu_inv_def simp del: nth_locs)
  moreover have "?ps ! i = shared_reader i" using i by (cases i) simp_all
  ultimately show "visible (fu_out (shared c) i) = [Result 123]" using done_ [OF i] by (simp add: shared_reader_def shared_task_def del: nth_locs)
qed

subsection \<open>Properties\<close>

text \<open>the square that \<open>slow\<close> delivers is exact as long as it fits into an \<open>int\<close>, that is up to 46340,
  and a negative argument is reported as an exception.\<close>

theorem slow_exact:
  assumes "sint x \<le> 46340"
  shows "case slow x of Inr y \<Rightarrow> 0 \<le> sint x \<and> sint y = (sint x)\<^sup>2 | Inl e \<Rightarrow> sint x < 0 \<and> e = ''negative not allowed''"
proof (cases "sint x < 0")
  case False
  then have "0 \<le> sint x" by simp
  then have "sint x * sint x \<le> 46340 * 46340" using assms by (intro mult_mono) auto
  moreover have "signed_take_bit 31 y = y" if "y \<le> 46340 * 46340" "0 \<le> y" for y :: int
    by (rule signed_take_bit_int_eq_self) (use that in simp_all)
  ultimately have "signed_take_bit 31 (sint x * sint x) = sint x * sint x" using \<open>0 \<le> sint x\<close> by simp
  then have "sint (x * x) = (sint x)\<^sup>2"
    by (simp add: power2_eq_square sint_word_ariths)
  then show ?thesis using False by (simp add: slow_def)
qed (simp add: slow_def)

theorem slow_exact_witness: "slow 7 = Inr 49 \<and> slow (- 1) = Inl ''negative not allowed''"
  using slow_exact [of 7] by (simp add: slow_def)

text \<open>C28: futures are transparent. \<open>main\<close> of \<open>01_async.cpp\<close> and of \<open>02_promise.cpp\<close>, and any program that asks
  only for futures of threads it has created, is finished when nothing moves any more, with the
  output it would have if every task were called where its result is asked for, exceptions
  included, and without a thread left behind; the number of steps is bounded by the commands and
  the fruitless calls of \<open>wait_for\<close>.\<close>

theorem futures_transparent:
  assumes "run (step (fu_thread task)) (fu_start (with_workers n ms)) es = Some c" "well_ordered n [] ms"
  shows "length es \<le> length ms + 3 * n + waits_printed (Suc n) (shared c) \<and>
    (stuck (fu_thread task) c \<longrightarrow> visible (fu_out (shared c) 0) = sequential task ms \<and> locs c ! 0 = [] \<and>
      (\<forall>k. 1 \<le> k \<and> k \<le> n \<and> fu_started (shared c) k \<longrightarrow> locs c ! k = []))"
proof -
  have "sum_list (map length (with_workers n ms)) = length ms + 3 * n"
    by (simp add: with_workers_def worker_def comp_def sum_list_triv)
  then show ?thesis
    using fu_bounded [OF assms(1)] ww_stuck [OF assms(2) run_reach [OF assms(1)]] by (simp add: with_workers_def)
qed

definition async_schedule :: "(nat \<times> choice) list" where
  "async_schedule = map (\<lambda>i. (i, Norm 0)) [0, 0, 1, 1, 0, 0, 2, 2, 0, 2, 0, 0, 0, 3, 3, 0, 0, 3, 0, 1, 0]"

definition async_demo :: "(fu_state, fu_cmd list) cfg" where
  "async_demo = the (run (step (fu_thread async_task)) async_start async_schedule)"

lemma async_demo: "all_finb (fu_thread async_task) async_demo"
  by code_simp

lemma async_demo_run: "run (step (fu_thread async_task)) (fu_start (with_workers 3 async_main)) async_schedule = Some async_demo"
proof -
  have "run (step (fu_thread async_task)) async_start async_schedule \<noteq> None" by code_simp
  then show ?thesis by (auto simp: async_demo_def async_start_def)
qed

theorem futures_transparent_witness: "visible (fu_out (shared async_demo) 0) =
  [Note ''doing other work'', Result 49, Caught ''negative not allowed'', Result 121]"
  using futures_transparent [OF async_demo_run] async_demo
  by (simp add: all_finb all_fin_stuck async_main_def async_task_def slow_def)

end
