(* ===== verification/Barriers.thy ===== *)
theory Barriers
  imports Scripts
begin

text \<open>
  Rendezvous and counting: \<open>pthread_barrier_t\<close>
  (\<open>examples/01_pthreads/05_barriers/01_barrier_basic.c\<close>), \<open>std::barrier\<close> and \<open>std::latch\<close>
  (\<open>examples/02_cpp11_threads/08_jthread_cpp20/02_latch_barrier.cpp\<close>), POSIX and C++ semaphores
  (\<open>examples/01_pthreads/06_semaphores/01_semaphore_basic.c\<close> and \<open>08_jthread_cpp20/03_semaphore.cpp\<close>).
\<close>

subsection \<open>Barriers\<close>

text \<open>
  \<open>br_gen\<close> rendezvous are complete, \<open>br_arrived\<close> threads have arrived for the next one;
  \<open>br_serial p\<close> is the thread to which the call of phase \<open>p\<close> returns
  \<open>PTHREAD_BARRIER_SERIAL_THREAD\<close>. POSIX leaves open which one it is, and so does the model.
\<close>

datatype br_event = Reached nat nat | Announced nat

record br_state =
  br_arrived :: nat
  br_gen :: nat
  br_serial :: "nat \<Rightarrow> nat"
  br_log :: "br_event list"

text \<open>Before the print of phase \<open>p\<close>, before the arrival, in the barrier, and before the announcement.\<close>

datatype br_loc = BSay nat | BArrive nat | BWait nat | BAnnounce nat

definition br_print :: "br_event \<Rightarrow> br_state \<Rightarrow> br_state" where
  "br_print e s = s\<lparr>br_log := br_log s @ [e]\<rparr>"

text \<open>
  The last of the \<open>N\<close> arrivals completes the phase; \<open>w\<close> is chosen as the serial thread. With a
  completion function (\<open>std::barrier\<close>) that function announces the phase before anybody is
  released; without one the serial thread does, after it was released.
\<close>

definition br_complete :: "bool \<Rightarrow> nat \<Rightarrow> br_state \<Rightarrow> nat \<Rightarrow> br_state" where
  "br_complete completion p s w = (let s' = s\<lparr>br_arrived := 0, br_gen := Suc (br_gen s), br_serial := (br_serial s)(p := w)\<rparr>
     in if completion then br_print (Announced p) s' else s')"

fun br_thread :: "bool \<Rightarrow> nat \<Rightarrow> nat \<Rightarrow> nat \<Rightarrow> br_loc \<Rightarrow> (br_state, br_loc) stmt" where
  "br_thread completion N PH i (BSay p) = (if p \<le> PH then Act (\<lambda>s. [(br_print (Reached i p) s, BArrive p)]) else Fin)"
| "br_thread completion N PH i (BArrive p) = Act (\<lambda>s.
     if Suc (br_arrived s) = N then map (\<lambda>w. (br_complete completion p s w, BWait p)) [0..<N]
     else [(s\<lparr>br_arrived := Suc (br_arrived s)\<rparr>, BWait p)])"
| "br_thread completion N PH i (BWait p) = Act (\<lambda>s.
     if p \<le> br_gen s then [(s, if \<not> completion \<and> br_serial s p = i then BAnnounce p else BSay (Suc p))] else [])"
| "br_thread completion N PH i (BAnnounce p) = Act (\<lambda>s. [(br_print (Announced p) s, BSay (Suc p))])"

definition br_init :: br_state where
  "br_init = \<lparr>br_arrived = 0, br_gen = 0, br_serial = (\<lambda>_. 0), br_log = []\<rparr>"

definition br_start :: "nat \<Rightarrow> (br_state, br_loc) cfg" where
  "br_start N = start br_init (replicate N (BSay 1))"

text \<open>The two programs: four threads with \<open>pthread_barrier_wait\<close>, three with \<open>arrive_and_wait\<close>; three phases each.\<close>

definition pthread_barrier_main :: "(br_state, br_loc) cfg" where
  "pthread_barrier_main = br_start 4"

definition pthread_barrier_worker :: "nat \<Rightarrow> br_loc \<Rightarrow> (br_state, br_loc) stmt" where
  "pthread_barrier_worker = br_thread False 4 3"

definition std_barrier_main :: "(br_state, br_loc) cfg" where
  "std_barrier_main = br_start 3"

definition std_barrier_worker :: "nat \<Rightarrow> br_loc \<Rightarrow> (br_state, br_loc) stmt" where
  "std_barrier_worker = br_thread True 3 3"

text \<open>The phases in the order in which they were reached, and the number of announcements of a phase.\<close>

fun reached_phase :: "br_event \<Rightarrow> nat list" where
  "reached_phase (Reached i p) = [p]"
| "reached_phase (Announced p) = []"

definition reached_phases :: "br_event list \<Rightarrow> nat list" where
  "reached_phases es = concat (map reached_phase es)"

definition blocks :: "nat \<Rightarrow> nat \<Rightarrow> nat list" where
  "blocks N k = concat (map (\<lambda>p. replicate N (Suc p)) [0..<k])"

lemma blocks_Suc: "blocks N (Suc k) = blocks N k @ replicate N (Suc k)"
  by (simp add: blocks_def)

lemma reached_phases_simps [simp]: "reached_phases [] = []" "reached_phases (es @ fs) = reached_phases es @ reached_phases fs"
  "reached_phases (e # es) = reached_phase e @ reached_phases es"
  by (simp_all add: reached_phases_def)

subsection \<open>The invariant\<close>

text \<open>
  With \<open>g\<close> phases complete a thread is on its way to the barrier of phase \<open>g + 1\<close>, waits there, or
  has not left the one of phase \<open>g\<close> yet.
\<close>

fun br_at :: "nat \<Rightarrow> nat \<Rightarrow> br_loc \<Rightarrow> bool" where
  "br_at PH g (BSay p) = (p = Suc g)"
| "br_at PH g (BArrive p) = (p = Suc g \<and> p \<le> PH)"
| "br_at PH g (BWait p) = (p = Suc g \<and> p \<le> PH \<or> p = g \<and> 1 \<le> p)"
| "br_at PH g (BAnnounce p) = (p = g \<and> 1 \<le> p)"

definition in_phase :: "nat \<Rightarrow> br_loc \<Rightarrow> nat" where
  "in_phase g l = (if l = BArrive (Suc g) \<or> l = BWait (Suc g) then 1 else 0)"

definition arrived :: "nat \<Rightarrow> br_loc \<Rightarrow> nat" where
  "arrived g l = (if l = BWait (Suc g) then 1 else 0)"

text \<open>The announcement of phase \<open>p\<close> is still to come: from thread \<open>br_serial p\<close>, if that has not left the barrier.\<close>

definition to_announce :: "bool \<Rightarrow> nat \<Rightarrow> br_loc \<Rightarrow> nat" where
  "to_announce completion p l = (if \<not> completion \<and> (l = BWait p \<or> l = BAnnounce p) then 1 else 0)"

definition br_shape :: "nat \<Rightarrow> nat \<Rightarrow> br_state \<Rightarrow> br_loc list \<Rightarrow> bool" where
  "br_shape N PH s ls \<longleftrightarrow> length ls = N \<and> br_gen s \<le> PH \<and> (\<forall>l\<in>set ls. br_at PH (br_gen s) l) \<and>
     br_arrived s = sum_list (map (arrived (br_gen s)) ls) \<and> br_arrived s < N \<and>
     reached_phases (br_log s) = blocks N (br_gen s) @ replicate (sum_list (map (in_phase (br_gen s)) ls)) (Suc (br_gen s))"

definition br_told :: "bool \<Rightarrow> nat \<Rightarrow> br_state \<Rightarrow> br_loc list \<Rightarrow> bool" where
  "br_told completion N s ls \<longleftrightarrow> (\<forall>i<N. \<forall>p. ls ! i = BAnnounce p \<longrightarrow> \<not> completion \<and> br_serial s p = i) \<and>
     (\<forall>p. if 1 \<le> p \<and> p \<le> br_gen s
        then br_serial s p < N \<and> count_list (br_log s) (Announced p) + to_announce completion p (ls ! br_serial s p) = 1
        else count_list (br_log s) (Announced p) = 0)"

lemma br_cases [consumes 1, case_names say arrive complete leave announce]:
  assumes "(s', l') \<in> set (effects (br_thread completion N PH i l) s)"
  obtains (say) p where "l = BSay p" "p \<le> PH" "s' = br_print (Reached i p) s" "l' = BArrive p"
  | (arrive) p where "l = BArrive p" "Suc (br_arrived s) \<noteq> N" "s' = s\<lparr>br_arrived := Suc (br_arrived s)\<rparr>" "l' = BWait p"
  | (complete) p w where "l = BArrive p" "Suc (br_arrived s) = N" "w < N" "s' = br_complete completion p s w" "l' = BWait p"
  | (leave) p where "l = BWait p" "p \<le> br_gen s" "s' = s" "l' = (if \<not> completion \<and> br_serial s p = i then BAnnounce p else BSay (Suc p))"
  | (announce) p where "l = BAnnounce p" "s' = br_print (Announced p) s" "l' = BSay (Suc p)"
proof (cases l)
  case (BArrive p)
  with assms arrive complete show thesis by (cases "Suc (br_arrived s) = N") auto
qed (use assms say leave announce in \<open>auto split: if_split_asm\<close>)

lemma br_complete_sel [simp]:
  "br_arrived (br_complete completion p s w) = 0" "br_gen (br_complete completion p s w) = Suc (br_gen s)"
  "br_serial (br_complete completion p s w) = (br_serial s)(p := w)"
  "br_log (br_complete completion p s w) = br_log s @ (if completion then [Announced p] else [])"
  by (simp_all add: br_complete_def br_print_def Let_def)

lemma br_print_sel [simp]: "br_arrived (br_print e s) = br_arrived s" "br_gen (br_print e s) = br_gen s"
  "br_serial (br_print e s) = br_serial s" "br_log (br_print e s) = br_log s @ [e]"
  by (simp_all add: br_print_def)

text \<open>When the last thread arrives, all others wait.\<close>

lemma all_waiting:
  assumes inv: "br_shape N PH s ls" and i: "i < length ls" "ls ! i = BArrive p" and full: "Suc (br_arrived s) = N"
  shows "\<forall>l\<in>set (ls[i := BWait (Suc (br_gen s))]). l = BWait (Suc (br_gen s))"
proof
  let ?ls = "ls[i := BWait (Suc (br_gen s))]"
  obtain R where R: "sum_list (map (arrived (br_gen s)) ls) = R + arrived (br_gen s) (ls ! i)"
    "\<And>x. sum_list (map (arrived (br_gen s)) (ls[i := x])) = R + arrived (br_gen s) x" using sum_list_split [OF i(1)] by blast
  fix l assume l: "l \<in> set ?ls"
  have "sum_list (map (arrived (br_gen s)) ?ls) = sum_list (map (\<lambda>_. 1) ?ls)"
    using inv R i full by (simp add: br_shape_def arrived_def sum_list_triv)
  then have "arrived (br_gen s) l = 1" using l by (intro sum_list_le_eqD [of "arrived (br_gen s)" ?ls "\<lambda>_. 1"]) (auto simp: arrived_def)
  then show "l = BWait (Suc (br_gen s))" by (simp add: arrived_def split: if_splits)
qed

lemma replicate_snoc: "replicate n x @ [x] = replicate (Suc n) x"
  by (simp add: replicate_append_same)

lemma br_shape_step:
  assumes inv: "br_shape N PH s ls" and i: "i < length ls" and e: "(s', l') \<in> set (effects (br_thread completion N PH i (ls ! i)) s)"
  shows "br_shape N PH s' (ls[i := l'])"
proof -
  let ?g = "br_gen s"
  have at: "br_at PH ?g (ls ! i)" using inv i by (simp add: br_shape_def)
  obtain A where A: "sum_list (map (arrived ?g) ls) = A + arrived ?g (ls ! i)"
    "\<And>x. sum_list (map (arrived ?g) (ls[i := x])) = A + arrived ?g x" using sum_list_split [OF i] by blast
  obtain B where B: "sum_list (map (in_phase ?g) ls) = B + in_phase ?g (ls ! i)"
    "\<And>x. sum_list (map (in_phase ?g) (ls[i := x])) = B + in_phase ?g x" using sum_list_split [OF i] by blast
  have all: "\<forall>l\<in>set (ls[i := l']). br_at PH ?g l" if "br_at PH ?g l'"
    using inv that by (auto simp: br_shape_def dest: set_updD)
  show ?thesis using e
  proof (cases rule: br_cases)
    case (say p)
    then show ?thesis using inv at all by (simp add: br_shape_def A B arrived_def in_phase_def replicate_snoc)
  next
    case (arrive p)
    then show ?thesis using inv at all by (simp add: br_shape_def A B arrived_def in_phase_def)
  next
    case (complete p w)
    then have p: "p = Suc ?g" "p \<le> PH" using at by simp_all
    have w: "\<forall>l\<in>set (ls[i := l']). l = BWait (Suc ?g)"
      using all_waiting [OF inv i complete(1,2)] complete(5) p by simp
    then have z: "sum_list (map (arrived (Suc ?g)) (ls[i := l'])) = 0" "sum_list (map (in_phase (Suc ?g)) (ls[i := l'])) = 0"
      by (auto intro!: sum_list_map_zero simp: arrived_def in_phase_def)
    have "in_phase ?g l = 1" if "l \<in> set (ls[i := l'])" for l using w that by (simp add: in_phase_def)
    then have "map (in_phase ?g) (ls[i := l']) = replicate (length ls) 1" by (intro replicate_eqI) auto
    then have "sum_list (map (in_phase ?g) (ls[i := l'])) = length ls" by (simp only: sum_list_replicate, simp)
    moreover have "in_phase ?g l' = in_phase ?g (ls ! i)" using complete p by (simp add: in_phase_def)
    ultimately have "sum_list (map (in_phase ?g) ls) = N" using B inv by (simp add: br_shape_def)
    then have "reached_phases (br_log s') = blocks N (Suc ?g)" using inv complete(4) by (simp add: br_shape_def blocks_Suc)
    then show ?thesis using inv w z complete(3,4) p by (auto simp: br_shape_def)
  next
    case (leave p)
    then show ?thesis using inv at all by (auto simp: br_shape_def A B arrived_def in_phase_def)
  next
    case (announce p)
    then show ?thesis using inv at all by (simp add: br_shape_def A B arrived_def in_phase_def)
  qed
qed

lemma br_told_keep:
  assumes inv: "br_told completion N s ls" and i: "i < length ls" "length ls = N"
    and s': "br_gen s' = br_gen s" "br_serial s' = br_serial s" "br_log s' = br_log s @ es"
    and bal: "\<And>p. 1 \<le> p \<Longrightarrow> p \<le> br_gen s \<Longrightarrow> br_serial s p = i \<Longrightarrow>
       count_list es (Announced p) + to_announce completion p l' = to_announce completion p (ls ! i)"
    and new: "\<And>p. Announced p \<in> set es \<Longrightarrow> br_serial s p = i \<and> 1 \<le> p \<and> p \<le> br_gen s"
    and l': "\<And>p. l' = BAnnounce p \<Longrightarrow> \<not> completion \<and> br_serial s p = i"
  shows "br_told completion N s' (ls[i := l'])"
proof -
  have told: "if 1 \<le> p \<and> p \<le> br_gen s then br_serial s p < N \<and> count_list (br_log s) (Announced p) + to_announce completion p (ls ! br_serial s p) = 1
      else count_list (br_log s) (Announced p) = 0" for p
    using inv by (simp add: br_told_def)
  have other: "count_list es (Announced p) = 0" if "\<not> (1 \<le> p \<and> p \<le> br_gen s \<and> br_serial s p = i)" for p
    using that new [of p] by (meson count_list_0_iff)
  have "if 1 \<le> p \<and> p \<le> br_gen s then br_serial s p < N \<and>
        count_list (br_log s @ es) (Announced p) + to_announce completion p (ls[i := l'] ! br_serial s p) = 1
      else count_list (br_log s @ es) (Announced p) = 0" for p
  proof (cases "1 \<le> p \<and> p \<le> br_gen s")
    case True
    then show ?thesis using told [of p] bal [of p] other [of p] i by (cases "br_serial s p = i") simp_all
  next
    case False
    then show ?thesis using told [of p] other [of p] by auto
  qed
  moreover have "\<not> completion \<and> br_serial s p = j" if "j < N" "ls[i := l'] ! j = BAnnounce p" for j p
    using that l' inv i by (cases "j = i") (auto simp: br_told_def)
  ultimately show ?thesis unfolding br_told_def s' by blast
qed

lemma br_told_step:
  assumes shape: "br_shape N PH s ls" and inv: "br_told completion N s ls" and i: "i < length ls"
    and e: "(s', l') \<in> set (effects (br_thread completion N PH i (ls ! i)) s)"
  shows "br_told completion N s' (ls[i := l'])"
proof -
  have at: "br_at PH (br_gen s) (ls ! i)" and n: "length ls = N" using shape i by (auto simp: br_shape_def)
  note keep = br_told_keep [OF inv i n, where s' = s' and l' = l']
  show ?thesis using e
  proof (cases rule: br_cases)
    case (say p)
    then show ?thesis using at by (intro keep [of "[Reached i p]"]) (auto simp: to_announce_def)
  next
    case (arrive p)
    then show ?thesis using at by (intro keep [of "[]"]) (auto simp: to_announce_def)
  next
    case (complete p w)
    then have p: "p = Suc (br_gen s)" using at by simp
    have w: "ls[i := l'] ! j = BWait p" if "j < N" for j
      using all_waiting [OF shape i complete(1,2)] complete(5) p that n by (simp add: in_set_conv_nth) (metis length_list_update nth_list_update_eq nth_mem)
    have old: "to_announce completion q (ls ! j) = 0" if "j < N" "q \<noteq> p" for q j
      using w [OF that(1)] that(2) complete(1) by (cases "j = i") (auto simp: to_announce_def)
    have "if 1 \<le> q \<and> q \<le> Suc (br_gen s) then br_serial s' q < N \<and>
        count_list (br_log s') (Announced q) + to_announce completion q (ls[i := l'] ! br_serial s' q) = 1
      else count_list (br_log s') (Announced q) = 0" for q
    proof (cases "q = p")
      case True
      have "count_list (br_log s) (Announced p) = 0" using inv p by (auto simp: br_told_def)
      then show ?thesis using True complete(3,4) p w [OF complete(3)] by (simp add: to_announce_def)
    next
      case False
      have told: "if 1 \<le> q \<and> q \<le> br_gen s then br_serial s q < N \<and> count_list (br_log s) (Announced q) + to_announce completion q (ls ! br_serial s q) = 1
        else count_list (br_log s) (Announced q) = 0" using inv by (simp add: br_told_def)
      have "to_announce completion q (BWait p) = 0" using False by (simp add: to_announce_def)
      then show ?thesis using told old [OF _ False] w p False complete(4) by (auto split: if_split_asm)
    qed
    then show ?thesis using w complete(4) unfolding br_told_def br_complete_sel complete(4) by fastforce
  next
    case (leave p)
    then have "p = br_gen s" using at by auto
    then show ?thesis using leave by (intro keep [of "[]"]) (auto simp: to_announce_def split: if_split_asm)
  next
    case (announce p)
    then have "br_serial s p = i \<and> \<not> completion" using inv i n by (auto simp: br_told_def)
    then show ?thesis using announce at by (intro keep [of "[Announced p]"]) (auto simp: to_announce_def)
  qed
qed

lemma br_act_only: "act_only (br_thread completion N PH)"
proof
  show "br_thread completion N PH i l \<noteq> Monitor m w b" for i l m w b by (cases l) auto
qed

text \<open>Each thread has four steps per phase.\<close>

fun br_todo :: "nat \<Rightarrow> br_loc \<Rightarrow> nat" where
  "br_todo PH (BSay p) = 4 * (Suc PH - p)"
| "br_todo PH (BArrive p) = 4 * (Suc PH - p) - 1"
| "br_todo PH (BWait p) = 4 * (Suc PH - p) - 2"
| "br_todo PH (BAnnounce p) = 4 * (Suc PH - p) - 3"

lemma br_terminating:
  assumes "0 < N"
  shows "terminating (br_thread completion N PH) br_init (replicate N (BSay 1)) (\<lambda>s ls. br_shape N PH s ls \<and> br_told completion N s ls)
    (\<lambda>s ls. sum_list (map (br_todo PH) ls)) 0"
proof
  have "sum_list (map (\<lambda>_. 0) (replicate N (BSay 1))) = (0 :: nat)" by simp
  then show "br_shape N PH br_init (replicate N (BSay 1)) \<and> br_told completion N br_init (replicate N (BSay 1))"
    using assms by (auto simp: br_shape_def br_told_def br_init_def blocks_def arrived_def in_phase_def sum_list_replicate)
next
  fix s ls i s' l' assume inv: "br_shape N PH s ls \<and> br_told completion N s ls" and i: "i < length ls"
    and e: "(s', l') \<in> set (effects (br_thread completion N PH i (ls ! i)) s)"
  then show "br_shape N PH s' (ls[i := l']) \<and> br_told completion N s' (ls[i := l'])"
    using br_shape_step br_told_step by blast
  obtain R where R: "sum_list (map (br_todo PH) ls) = R + br_todo PH (ls ! i)" "\<And>x. sum_list (map (br_todo PH) (ls[i := x])) = R + br_todo PH x"
    using sum_list_split [OF i] by blast
  have "br_at PH (br_gen s) (ls ! i)" "br_gen s \<le> PH" using inv i by (auto simp: br_shape_def)
  with e have "br_todo PH l' < br_todo PH (ls ! i)" by (cases rule: br_cases) auto
  then show "sum_list (map (br_todo PH) (ls[i := l'])) < sum_list (map (br_todo PH) ls)" by (simp add: R)
next
  show "length (pre :: notify list) + length (post :: notify list) \<le> 0"
    if "br_thread completion N PH i (ls ! i) = Monitor m w b" for ls i m w b pre post
    using that act_only.no_monitor [OF br_act_only] by blast
qed

lemma br_reach:
  assumes "reach (step (br_thread completion N PH)) (br_start N) c" "0 < N"
  shows "br_shape N PH (shared c) (locs c)" "br_told completion N (shared c) (locs c)"
  using monitor_invariant.I_reach [OF terminating.axioms(1) [OF br_terminating [OF assms(2)]]] assms(1)
  by (auto simp: br_start_def)

lemma br_bounded:
  assumes "run (step (br_thread completion N PH)) (br_start N) es = Some c" "0 < N"
  shows "length es \<le> 4 * (N * (4 * PH)) + 2 * N + 3 * spurs es"
  using terminating.run_bounded [OF br_terminating [OF assms(2)]] assms(1)
  by (simp add: br_start_def terminating.fee_def [OF br_terminating [OF assms(2)]] sum_list_replicate)

text \<open>Nothing moves only when all threads have passed all phases: those that wait are not all.\<close>

lemma br_stuck:
  assumes r: "reach (step (br_thread completion N PH)) (br_start N) c" "stuck (br_thread completion N PH) c" and N: "0 < N"
  shows "all_fin (br_thread completion N PH) c" "br_gen (shared c) = PH" "\<forall>l\<in>set (locs c). l = BSay (Suc PH)"
proof -
  note inv = br_reach [OF r(1) N]
  have r1: "reach (step (br_thread completion N PH)) (start br_init (replicate N (BSay 1))) c" using r(1) by (simp add: br_start_def)
  have n: "length (locs c) = N" using inv(1) by (simp add: br_shape_def)
  have at: "br_at PH (br_gen (shared c)) (locs c ! i)" if "i < N" for i using inv(1) n that by (auto simp: br_shape_def simp del: nth_locs)
  have st: "br_thread completion N PH i (locs c ! i) = Fin \<or> effects (br_thread completion N PH i (locs c ! i)) (shared c) = []" if "i < N" for i
    using act_only.act_stuck [OF br_act_only r1 r(2), of i] that by simp
  have or: "locs c ! i = BWait (Suc (br_gen (shared c))) \<or> locs c ! i = BSay (Suc PH) \<and> br_gen (shared c) = PH" if "i < N" for i
    using st [OF that] at [OF that] inv(1) by (cases "locs c ! i") (auto simp: br_shape_def split: if_split_asm)
  have "\<exists>i<N. locs c ! i \<noteq> BWait (Suc (br_gen (shared c)))"
  proof (rule ccontr)
    assume "\<not> (\<exists>i<N. locs c ! i \<noteq> BWait (Suc (br_gen (shared c))))"
    then have "arrived (br_gen (shared c)) l = 1" if "l \<in> set (locs c)" for l using that n by (auto simp: in_set_conv_nth arrived_def simp del: nth_locs)
    then have "map (arrived (br_gen (shared c))) (locs c) = replicate N 1" using n by (intro replicate_eqI) auto
    then have "br_arrived (shared c) = N" using inv(1) unfolding br_shape_def by (simp add: sum_list_replicate)
    then show False using inv(1) by (simp add: br_shape_def)
  qed
  then show g: "br_gen (shared c) = PH" using or by blast
  have "locs c ! i = BSay (Suc PH)" if "i < N" for i using or [OF that] at [OF that] g by auto
  then show "\<forall>l\<in>set (locs c). l = BSay (Suc PH)" using n by (auto simp: in_set_conv_nth simp del: nth_locs)
  show "all_fin (br_thread completion N PH) c"
    using act_only.act_fin [OF br_act_only r1] \<open>\<And>i. i < N \<Longrightarrow> locs c ! i = BSay (Suc PH)\<close> by simp
qed

text \<open>C29: no thread gets ahead of a barrier. Every run has a bounded number of steps; the phases are reached strictly one after the other, each by all
  \<open>N\<close> threads before the next one begins; no thread is left waiting; and in the end every phase has
  been announced exactly once, by the completion function or by whichever thread the library has
  made the serial one.\<close>

theorem barrier_phases:
  assumes "run (step (br_thread completion N PH)) (br_start N) es = Some c" "0 < N"
  shows "length es \<le> 4 * (N * (4 * PH)) + 2 * N + 3 * spurs es \<and> (\<exists>k m. reached_phases (br_log (shared c)) = blocks N k @ replicate m (Suc k)) \<and>
    (stuck (br_thread completion N PH) c \<longrightarrow> all_fin (br_thread completion N PH) c \<and>
       reached_phases (br_log (shared c)) = blocks N PH \<and>
       (\<forall>p. count_list (br_log (shared c)) (Announced p) = of_bool (1 \<le> p \<and> p \<le> PH)))"
proof (intro conjI impI)
  show "length es \<le> 4 * (N * (4 * PH)) + 2 * N + 3 * spurs es" by (rule br_bounded [OF assms])
  note r = run_reach [OF assms(1)]
  note inv = br_reach [OF r assms(2)]
  show "\<exists>k m. reached_phases (br_log (shared c)) = blocks N k @ replicate m (Suc k)" using inv(1) by (auto simp: br_shape_def)
  assume st: "stuck (br_thread completion N PH) c"
  note fin = br_stuck [OF r st assms(2)]
  show "all_fin (br_thread completion N PH) c" by (rule fin)
  have "sum_list (map (in_phase PH) (locs c)) = 0" using fin(3) by (intro sum_list_map_zero) (auto simp: in_phase_def)
  then show "reached_phases (br_log (shared c)) = blocks N PH" using inv(1) fin(2) by (simp add: br_shape_def)
  show "\<forall>p. count_list (br_log (shared c)) (Announced p) = of_bool (1 \<le> p \<and> p \<le> PH)"
  proof
    fix p
    have "to_announce completion p (locs c ! i) = 0" if "i < N" for i
    proof -
      have "locs c ! i \<in> set (locs c)" using inv(1) that by (auto simp: br_shape_def simp del: nth_locs)
      then show ?thesis using fin(3) by (auto simp: to_announce_def simp del: nth_locs)
    qed
    moreover have "if 1 \<le> p \<and> p \<le> PH then br_serial (shared c) p < N \<and>
        count_list (br_log (shared c)) (Announced p) + to_announce completion p (locs c ! br_serial (shared c) p) = 1
      else count_list (br_log (shared c)) (Announced p) = 0" using inv(2) fin(2) by (simp add: br_told_def del: nth_locs)
    ultimately show "count_list (br_log (shared c)) (Announced p) = of_bool (1 \<le> p \<and> p \<le> PH)" by (auto split: if_split_asm simp del: nth_locs)
  qed
qed

text \<open>Two threads and two phases.\<close>

definition br_demo :: "(nat \<times> choice) list \<times> (br_state, br_loc) cfg" where
  "br_demo = drive (br_thread False 2 2) [0, 1] 40 (br_start 2)"

lemma br_demo: "all_finb (br_thread False 2 2) (snd br_demo)"
  by code_simp

lemma br_demo_run: "run (step (br_thread False 2 2)) (br_start 2) (fst br_demo) = Some (snd br_demo)"
  unfolding br_demo_def by (rule drive_run) simp

theorem barrier_phases_witness: "reached_phases (br_log (shared (snd br_demo))) = [1, 1, 2, 2]"
  using barrier_phases [OF br_demo_run] br_demo by (simp add: all_finb all_fin_stuck blocks_def numeral_2_eq_2)

subsection \<open>Semaphores and latches\<close>

datatype sy_msg = WaitingFor nat | Working nat | Leaving nat | Ready nat | AllReady

datatype sy_cmd = SySay sy_msg | Acquire | Release | CountDown | WaitLatch

record sy_state =
  sy_sem :: nat
  sy_latch :: nat
  sy_log :: "sy_msg list"

text \<open>\<open>sem_wait\<close> and \<open>acquire\<close> block at 0, so does \<open>latch::wait\<close> until the count is 0.\<close>

fun sy_exec :: "nat \<Rightarrow> sy_cmd \<Rightarrow> sy_state \<Rightarrow> sy_state list" where
  "sy_exec i (SySay m) s = [s\<lparr>sy_log := sy_log s @ [m]\<rparr>]"
| "sy_exec i Acquire s = (if 0 < sy_sem s then [s\<lparr>sy_sem := sy_sem s - 1\<rparr>] else [])"
| "sy_exec i Release s = [s\<lparr>sy_sem := sy_sem s + 1\<rparr>]"
| "sy_exec i CountDown s = [s\<lparr>sy_latch := sy_latch s - 1\<rparr>]"
| "sy_exec i WaitLatch s = (if sy_latch s = 0 then [s] else [])"

text \<open>\<open>user\<close> of the C program and of the C++ program, which does not announce that it waits.\<close>

definition sem_user :: "nat \<Rightarrow> sy_cmd list" where
  "sem_user i = [SySay (WaitingFor i), Acquire, SySay (Working i), SySay (Leaving i), Release]"

definition cpp_user :: "nat \<Rightarrow> sy_cmd list" where
  "cpp_user i = [Acquire, SySay (Working i), SySay (Leaving i), Release]"

definition sem_start :: "nat \<Rightarrow> (nat \<Rightarrow> sy_cmd list) \<Rightarrow> nat \<Rightarrow> (sy_state, sy_cmd list) cfg" where
  "sem_start pool user users = start \<lparr>sy_sem = pool, sy_latch = 0, sy_log = []\<rparr> (map user [0..<users])"

text \<open>Three slots and six users; three slots and eight users.\<close>

definition semaphore_c_main :: "(sy_state, sy_cmd list) cfg" where
  "semaphore_c_main = sem_start 3 sem_user 6"

definition semaphore_cpp_main :: "(sy_state, sy_cmd list) cfg" where
  "semaphore_cpp_main = sem_start 3 cpp_user 8"

text \<open>The latch: workers count down, \<open>main\<close> waits for all of them.\<close>

definition latch_worker :: "nat \<Rightarrow> sy_cmd list" where
  "latch_worker i = [SySay (Ready i), CountDown]"

definition latch_start :: "nat \<Rightarrow> (sy_state, sy_cmd list) cfg" where
  "latch_start n = start \<lparr>sy_sem = 0, sy_latch = n, sy_log = []\<rparr> ([WaitLatch, SySay AllReady] # map latch_worker [0..<n])"

definition latch_main :: "(sy_state, sy_cmd list) cfg" where
  "latch_main = latch_start 3"

text \<open>A user is inside while it has a slot to give back that it need not take any more.\<close>

definition inside_pool :: "sy_cmd list \<Rightarrow> nat" where
  "inside_pool cs = (if Release \<in> set cs \<and> Acquire \<notin> set cs then 1 else 0)"

definition user_tail :: "sy_cmd list \<Rightarrow> bool" where
  "user_tail cs \<longleftrightarrow> (\<exists>i k. cs = drop k (sem_user i))"

lemma cpp_user_tail: "cpp_user i = drop 1 (sem_user i)"
  by (simp add: cpp_user_def sem_user_def)

lemma user_tail_cases:
  assumes "user_tail (c # cs)"
  obtains i where "c = SySay (WaitingFor i)" "cs = [Acquire, SySay (Working i), SySay (Leaving i), Release]"
  | i where "c = Acquire" "cs = [SySay (Working i), SySay (Leaving i), Release]"
  | i where "c = SySay (Working i)" "cs = [SySay (Leaving i), Release]"
  | i where "c = SySay (Leaving i)" "cs = [Release]"
  | "c = Release" "cs = []"
proof -
  obtain i k where "c # cs = drop k (sem_user i)" using assms by (auto simp: user_tail_def)
  moreover from this have "k < 5" by (cases "k < 5") (simp_all add: sem_user_def)
  ultimately show thesis using that by (auto simp: sem_user_def less_Suc_eq numeral_eq_Suc)
qed

lemma user_tail_tl: "user_tail (c # cs) \<Longrightarrow> user_tail cs"
  unfolding user_tail_def by (metis drop_Suc list.sel(3) tl_drop)

definition sem_inv :: "nat \<Rightarrow> nat \<Rightarrow> sy_state \<Rightarrow> sy_cmd list list \<Rightarrow> bool" where
  "sem_inv pool users s ls \<longleftrightarrow> length ls = users \<and> (\<forall>cs\<in>set ls. user_tail cs) \<and>
     sy_sem s + sum_list (map inside_pool ls) = pool"

lemma sem_client:
  assumes "\<And>i. user_tail (user i) \<and> Acquire \<in> set (user i)"
  shows "script_invariant (once sy_exec) \<lparr>sy_sem = pool, sy_latch = 0, sy_log = []\<rparr> (map user [0..<users]) (sem_inv pool users)"
proof
  have "sum_list (map inside_pool (map user [0..<users])) = 0" using assms by (intro sum_list_map_zero) (auto simp: inside_pool_def)
  then show "sem_inv pool users \<lparr>sy_sem = pool, sy_latch = 0, sy_log = []\<rparr> (map user [0..<users])"
    using assms by (simp add: sem_inv_def del: map_map)
next
  fix s ls i c cs s' ds assume inv: "sem_inv pool users s ls" and i: "i < length ls" "ls ! i = c # cs" and x: "(s', ds) \<in> set (once sy_exec i c s)"
  obtain R where R: "sum_list (map inside_pool ls) = R + inside_pool (ls ! i)" "\<And>x. sum_list (map inside_pool (ls[i := x])) = R + inside_pool x"
    using sum_list_split [OF i(1)] by blast
  have t: "user_tail (c # cs)" using inv i nth_mem [OF i(1)] by (auto simp: sem_inv_def)
  then have "sy_sem s' + inside_pool cs = sy_sem s + inside_pool (c # cs)"
    using x by (cases rule: user_tail_cases) (auto simp: inside_pool_def split: if_split_asm)
  then show "sem_inv pool users s' (ls[i := ds @ cs])"
    using inv i x R user_tail_tl [OF t] by (auto simp: sem_inv_def dest: set_updD)
qed

text \<open>C30: at every moment at most as many users are in the pool as it has slots. Every run has a bounded number of steps, and when nothing moves any more
  every user has left and all slots are free again: nobody waits for ever.\<close>

theorem semaphore_gates:
  assumes "run (step (script (once sy_exec))) (sem_start pool user users) es = Some c" "user = sem_user \<or> user = cpp_user"
  shows "sum_list (map inside_pool (locs c)) \<le> pool \<and> length es \<le> 22 * users + 3 * spurs es \<and>
    (stuck (script (once sy_exec)) c \<and> 0 < pool \<longrightarrow> all_fin (script (once sy_exec)) c \<and> sy_sem (shared c) = pool)"
proof -
  have u: "user_tail (user i) \<and> Acquire \<in> set (user i)" for i
  proof -
    have "user i = drop 0 (sem_user i) \<or> user i = drop 1 (sem_user i)" using assms(2) cpp_user_tail by auto
    then have "user_tail (user i)" unfolding user_tail_def by blast
    then show ?thesis using assms(2) by (auto simp: sem_user_def cpp_user_def)
  qed
  note run = assms(1) [unfolded sem_start_def]
  note r = run_reach [OF run]
  have five: "length (user i) \<le> 5" for i using assms(2) by (auto simp: sem_user_def cpp_user_def)
  have "sum_list (map length (map user [0..<users])) \<le> 5 * users"
  proof (induction users)
    case (Suc n)
    then show ?case using five [of n] by simp
  qed simp
  then have bound: "length es \<le> 22 * users + 3 * spurs es" using once_bounded [OF run] by simp
  have inv: "sem_inv pool users (shared c) (locs c)"
    by (rule script_invariant.script_reach [OF sem_client [OF u] r])
  have "all_fin (script (once sy_exec)) c \<and> sy_sem (shared c) = pool" if st: "stuck (script (once sy_exec)) c" and p: "0 < pool"
  proof -
    have loc: "locs c ! i = [] \<or> sy_sem (shared c) = 0 \<and> (\<exists>ds. locs c ! i = Acquire # ds)" if i: "i < users" for i
    proof -
      have "user_tail (locs c ! i)" using inv i by (auto simp: sem_inv_def simp del: nth_locs)
      then show ?thesis using script_stuckD [OF r st, of i] i
        by (auto elim!: user_tail_cases split: if_split_asm simp del: nth_locs)
    qed
    have "inside_pool cs = 0" if mem: "cs \<in> set (locs c)" for cs
    proof -
      obtain i where "i < length (locs c)" "locs c ! i = cs" using mem unfolding in_set_conv_nth by blast
      then have "i < users" "locs c ! i = cs" using inv by (auto simp: sem_inv_def)
      then show ?thesis using loc [of i] by (auto simp: inside_pool_def simp del: nth_locs)
    qed
    then have "sum_list (map inside_pool (locs c)) = 0" by (intro sum_list_map_zero)
    then have "sy_sem (shared c) = pool" using inv unfolding sem_inv_def by linarith
    then show ?thesis using script_all_fin [OF r st] loc p by (auto simp del: nth_locs)
  qed
  then show ?thesis using inv bound by (simp add: sem_inv_def)
qed

definition sem_demo :: "(nat \<times> choice) list \<times> (sy_state, sy_cmd list) cfg" where
  "sem_demo = drive (script (once sy_exec)) [0, 1] 20 (sem_start 1 sem_user 2)"

lemma sem_demo: "all_finb (script (once sy_exec)) (snd sem_demo)"
  by code_simp

lemma sem_demo_run: "run (step (script (once sy_exec))) (sem_start 1 sem_user 2) (fst sem_demo) = Some (snd sem_demo)"
  unfolding sem_demo_def by (rule drive_run) simp

theorem semaphore_gates_witness: "sy_sem (shared (snd sem_demo)) = 1"
  using semaphore_gates [OF sem_demo_run] sem_demo by (simp add: all_finb all_fin_stuck)

text \<open>The latch: \<open>main\<close> goes on when every worker has counted down, so its line is the last one.\<close>

fun unsaid :: "sy_cmd list \<Rightarrow> sy_msg multiset" where
  "unsaid [] = {#}"
| "unsaid (c # cs) = (case c of SySay m \<Rightarrow> add_mset m (unsaid cs) | _ \<Rightarrow> unsaid cs)"

definition latch_tail :: "sy_cmd list \<Rightarrow> bool" where
  "latch_tail cs \<longleftrightarrow> (\<exists>i. cs = latch_worker i \<or> cs = [CountDown] \<or> cs = [])"

definition latch_inv :: "nat \<Rightarrow> sy_state \<Rightarrow> sy_cmd list list \<Rightarrow> bool" where
  "latch_inv n s ls \<longleftrightarrow> (\<exists>m ws said. ls = m # ws \<and> length ws = n \<and> (\<forall>cs\<in>set ws. latch_tail cs) \<and>
     sy_latch s = sum_list (map (\<lambda>cs. count_list cs CountDown) ws) \<and>
     mset said + sum_list (map unsaid ws) = mset (map Ready [0..<n]) \<and>
     (m = [WaitLatch, SySay AllReady] \<and> sy_log s = said \<or> sy_latch s = 0 \<and> m = [SySay AllReady] \<and> sy_log s = said \<or>
      sy_latch s = 0 \<and> m = [] \<and> sy_log s = said @ [AllReady]))"

lemma latch_tail_down: "latch_tail cs \<Longrightarrow> count_list cs CountDown = 0 \<Longrightarrow> cs = []"
  by (auto simp: latch_tail_def latch_worker_def)

lemma latch_client:
  "script_invariant (once sy_exec) \<lparr>sy_sem = 0, sy_latch = n, sy_log = []\<rparr> ([WaitLatch, SySay AllReady] # map latch_worker [0..<n]) (latch_inv n)"
proof
  have "sum_list (map (\<lambda>cs. count_list cs CountDown) (map latch_worker [0..<n])) = n"
    by (simp add: comp_def latch_worker_def sum_list_triv)
  moreover have "sum_list (map unsaid (map latch_worker [0..<n])) = mset (map Ready [0..<n])"
    by (induction n) (simp_all add: latch_worker_def)
  ultimately show "latch_inv n \<lparr>sy_sem = 0, sy_latch = n, sy_log = []\<rparr> ([WaitLatch, SySay AllReady] # map latch_worker [0..<n])"
    unfolding latch_inv_def by (intro exI [where x = "[]"] exI conjI) (auto simp: latch_tail_def)
next
  fix s ls i c cs s' ds assume inv: "latch_inv n s ls" and i: "i < length ls" "ls ! i = c # cs" and x: "(s', ds) \<in> set (once sy_exec i c s)"
  from inv obtain m ws said where ls: "ls = m # ws" "length ws = n" and t: "\<forall>cs\<in>set ws. latch_tail cs"
    and lt: "sy_latch s = sum_list (map (\<lambda>cs. count_list cs CountDown) ws)" and u: "mset said + sum_list (map unsaid ws) = mset (map Ready [0..<n])"
    and m: "m = [WaitLatch, SySay AllReady] \<and> sy_log s = said \<or> sy_latch s = 0 \<and> m = [SySay AllReady] \<and> sy_log s = said \<or>
      sy_latch s = 0 \<and> m = [] \<and> sy_log s = said @ [AllReady]" by (auto simp: latch_inv_def)
  show "latch_inv n s' (ls[i := ds @ cs])"
  proof (cases i)
    case 0
    then have "c = WaitLatch \<and> cs = [SySay AllReady] \<and> s' = s \<and> sy_latch s = 0 \<or>
        c = SySay AllReady \<and> cs = [] \<and> s' = s\<lparr>sy_log := said @ [AllReady]\<rparr> \<and> sy_latch s = 0" "ds = []" "sy_log s = said"
      using i x m ls(1) by (auto split: if_split_asm)
    moreover from this have "sy_latch s' = sy_latch s" "ls[i := ds @ cs] = cs # ws" using ls(1) 0 by auto
    moreover from calculation have "cs = [SySay AllReady] \<and> sy_log s' = said \<or> cs = [] \<and> sy_log s' = said @ [AllReady]" by auto
    ultimately show ?thesis using ls(2) t lt u unfolding latch_inv_def
      by (intro exI [where x = cs] exI [where x = ws] exI [where x = said]) metis
  next
    case (Suc j)
    have j: "j < length ws" "ws ! j = c # cs" using i Suc ls by auto
    obtain D where D: "sum_list (map (\<lambda>cs. count_list cs CountDown) ws) = D + count_list (ws ! j) CountDown"
      "\<And>x. sum_list (map (\<lambda>cs. count_list cs CountDown) (ws[j := x])) = D + count_list x CountDown" using sum_list_split [OF j(1)] by blast
    obtain M where M: "sum_list (map unsaid ws) = M + unsaid (ws ! j)" "\<And>x. sum_list (map unsaid (ws[j := x])) = M + unsaid x"
      using sum_list_split [OF j(1)] by blast
    have tail: "latch_tail (c # cs)" using t j nth_mem by metis
    then have busy: "0 < sy_latch s" using lt D(1) j(2) latch_tail_down [OF tail] by (auto simp del: count_list.simps)
    then have m': "m = [WaitLatch, SySay AllReady]" "sy_log s = said" using m by auto
    have t': "\<forall>cs'\<in>set (ws[j := cs]). latch_tail cs'" using t tail by (auto simp: latch_tail_def latch_worker_def dest!: set_updD)
    from tail consider (say) k where "c = SySay (Ready k)" "cs = [CountDown]" | (down) "c = CountDown" "cs = []"
      by (auto simp: latch_tail_def latch_worker_def)
    then show ?thesis
    proof cases
      case (say k)
      then have "s' = s\<lparr>sy_log := said @ [Ready k]\<rparr>" "ds = []" using x m' by auto
      then show ?thesis using ls t' lt u D M j m' say Suc unfolding latch_inv_def
        by (intro exI [where x = m] exI [where x = "ws[j := cs]"] exI [where x = "said @ [Ready k]"]) simp
    next
      case down
      then have "s' = s\<lparr>sy_latch := sy_latch s - 1\<rparr>" "ds = []" using x by auto
      then show ?thesis using ls t' lt u D M j m' down Suc unfolding latch_inv_def
        by (intro exI [where x = m] exI [where x = "ws[j := cs]"] exI [where x = said]) simp
    qed
  qed
qed

lemma latch_waits:
  assumes "reach (step (script (once sy_exec))) (latch_start n) c" "stuck (script (once sy_exec)) c"
  shows "all_fin (script (once sy_exec)) c \<and> (\<exists>said. sy_log (shared c) = said @ [AllReady] \<and> mset said = mset (map Ready [0..<n]))"
proof -
  have r: "reach (step (script (once sy_exec))) (start \<lparr>sy_sem = 0, sy_latch = n, sy_log = []\<rparr> ([WaitLatch, SySay AllReady] # map latch_worker [0..<n])) c"
    using assms(1) by (simp add: latch_start_def)
  obtain m ws said where ls: "locs c = m # ws" "length ws = n" and t: "\<forall>cs\<in>set ws. latch_tail cs"
    and lt: "sy_latch (shared c) = sum_list (map (\<lambda>cs. count_list cs CountDown) ws)" and u: "mset said + sum_list (map unsaid ws) = mset (map Ready [0..<n])"
    and m: "m = [WaitLatch, SySay AllReady] \<and> sy_log (shared c) = said \<or> sy_latch (shared c) = 0 \<and> m = [SySay AllReady] \<and> sy_log (shared c) = said \<or>
      sy_latch (shared c) = 0 \<and> m = [] \<and> sy_log (shared c) = said @ [AllReady]"
    using script_invariant.script_reach [OF latch_client r] by (auto simp: latch_inv_def)
  have st: "locs c ! i = [] \<or> (\<exists>d ds. locs c ! i = d # ds \<and> sy_exec i d (shared c) = [])" if "i \<le> n" for i
    using script_stuckD [OF r assms(2), of i] that by simp
  have ws: "cs = []" if mem: "cs \<in> set ws" for cs
  proof -
    obtain i where "i < n" "ws ! i = cs" using mem ls(2) unfolding in_set_conv_nth by blast
    then have "cs = [] \<or> (\<exists>d ds. cs = d # ds \<and> sy_exec (Suc i) d (shared c) = [])" using st [of "Suc i"] ls(1) by simp
    then show ?thesis using t mem by (auto simp: latch_tail_def latch_worker_def)
  qed
  then have "sum_list (map (\<lambda>cs. count_list cs CountDown) ws) = 0" by (intro sum_list_map_zero) (metis count_list.simps(1))
  then have "sy_latch (shared c) = 0" using lt by simp
  then have m': "m = []" using st [of 0] m ls(1) by auto
  have "sum_list (map unsaid ws) = {#}" using ws by (intro sum_list_map_zero) (metis unsaid.simps(1))
  moreover have "locs c ! i = []" if "i < Suc n" for i using that ls m' ws by (cases i) (auto simp del: nth_locs)
  ultimately show ?thesis using m m' u script_all_fin [OF r assms(2)] by (auto simp del: nth_locs)
qed

end
