(* ===== verification/OpenMP.thy ===== *)
theory OpenMP
  imports RWLocks "HOL-Library.Word"
begin

text \<open>
  The OpenMP programs (\<open>examples/06_openmp\<close>). A parallel region is a team of threads; a
  worksharing construct hands its iterations or sections to them. How it does so is a parameter:
  any schedule that gives every iteration to exactly one thread. What the programs compute does
  not depend on it.
\<close>

subsection \<open>Schedules\<close>

text \<open>\<open>sched t\<close> is what thread \<open>t\<close> of \<open>T\<close> executes, in its order.\<close>

definition is_schedule :: "nat \<Rightarrow> 'a list \<Rightarrow> (nat \<Rightarrow> 'a list) \<Rightarrow> bool" where
  "is_schedule T work sched \<longleftrightarrow> mset (concat (map sched [0..<T])) = mset work"

lemma sum_list_concat: "sum_list (concat xss) = sum_list (map sum_list xss :: 'a :: comm_monoid_add list)"
  by (induction xss) simp_all

lemma schedule_sum:
  assumes "is_schedule T work sched"
  shows "(\<Sum>t\<leftarrow>[0..<T]. sum_list (map f (sched t))) = sum_list (map (f :: 'a \<Rightarrow> 'b :: comm_monoid_add) work)"
proof -
  have "sum_mset (image_mset f (mset (concat (map sched [0..<T])))) = sum_mset (image_mset f (mset work))"
    using assms by (simp add: is_schedule_def)
  then have "sum_list (map f (concat (map sched [0..<T]))) = sum_list (map f work)"
    by (simp flip: mset_map add: sum_mset_sum_list)
  then show ?thesis by (simp add: map_concat sum_list_concat comp_def)
qed

lemma schedule_set: "is_schedule T work sched \<Longrightarrow> (\<Union>t<T. set (sched t)) = set work"
  unfolding is_schedule_def by (drule arg_cong [of _ _ set_mset]) (auto simp: lessThan_atLeast0)

text \<open>\<open>schedule(static)\<close> as in the picture of \<open>02_for_loop.c\<close>: blocks of equal size.\<close>

definition static_blocks :: "nat \<Rightarrow> nat \<Rightarrow> nat list" where
  "static_blocks q t = [t * q..<Suc t * q]"

lemma static_blocks: "is_schedule T [0..<T * q] (static_blocks q)"
proof -
  have "concat (map (static_blocks q) [0..<T]) = [0..<T * q]"
  proof (induction T)
    case (Suc T)
    have "[0..<T * q + q] = [0..<T * q] @ [T * q..<T * q + q]" by (rule upt_add_eq_append) simp
    then show ?case using Suc by (simp add: static_blocks_def add.commute)
  qed simp
  then show ?thesis by (simp add: is_schedule_def)
qed

subsection \<open>04_critical.c\<close>

text \<open>
  \<open>++n\<close> in a critical section, which is a mutex of its own, and as an atomic update. The load and
  the store of the plain increment are those of \<open>basic_exec\<close>.
\<close>

definition critical_body :: "nat \<Rightarrow> basic_cmd rwc list" where
  "critical_body i = [Acq 0 Excl, Do LoadShared, Do StoreShared, Rel 0 Excl]"

definition critical_loop :: "nat list \<Rightarrow> basic_cmd rwc list" where
  "critical_loop is = concat (map critical_body is)"

definition critical_team :: "nat \<Rightarrow> (nat \<Rightarrow> nat list) \<Rightarrow> basic_cmd rwc list list" where
  "critical_team T sched = map (\<lambda>t. critical_loop (sched t)) [0..<T]"

definition critical_start :: "nat \<Rightarrow> (nat \<Rightarrow> nat list) \<Rightarrow> ((nat \<Rightarrow> rwl) \<times> basic_state, basic_cmd rwc list) cfg" where
  "critical_start T sched = rw_start rw_free basic_init (critical_team T sched)"

datatype omp_atomic = AtomicInc

fun atomic_exec :: "nat \<Rightarrow> omp_atomic \<Rightarrow> int \<Rightarrow> int list" where
  "atomic_exec t AtomicInc n = [n + 1]"

definition atomic_team :: "nat \<Rightarrow> (nat \<Rightarrow> nat list) \<Rightarrow> omp_atomic list list" where
  "atomic_team T sched = map (\<lambda>t. map (\<lambda>i. AtomicInc) (sched t)) [0..<T]"

definition atomic_start :: "nat \<Rightarrow> (nat \<Rightarrow> nat list) \<Rightarrow> (int, omp_atomic list) cfg" where
  "atomic_start T sched = start 0 (atomic_team T sched)"

text \<open>\<open>main\<close> runs both loops over this range.\<close>

definition critical_range :: "nat list" where
  "critical_range = [0..<100000]"

lemma critical_loop_ok:
  "one_lock None (critical_loop is)" "incs_ok LoadShared StoreShared 0 (critical_loop is)"
  "\<not> store_next StoreShared (critical_loop is)" "stores (critical_loop is) = length is"
  by (induction "is") (simp_all add: critical_loop_def critical_body_def)

interpretation critical: rw_program rw_acquire rw_release rl_readers "\<lambda>k. of_bool (rl_writer k)" rw_free
  basic_exec basic_init "critical_team T sched" "basic_inv (int (sum_list (map (\<lambda>t. length (sched t)) [0..<T])))" for T sched
proof unfold_locales
  show "one_lock None cs" if "cs \<in> set (critical_team T sched)" for cs
    using that by (auto simp: critical_team_def critical_loop_ok)
  show "basic_inv (int (sum_list (map (\<lambda>t. length (sched t)) [0..<T]))) basic_init (critical_team T sched)"
    by (auto simp: basic_inv_def basic_init_def critical_team_def critical_loop_ok comp_def)
qed (auto intro: basic_inv_step simp: basic_exec_runs)

lemma critical_final:
  assumes r: "reach (step (rw_thread rw_acquire rw_release basic_exec)) (critical_start T sched) c"
    and st: "stuck (rw_thread rw_acquire rw_release basic_exec) c" and s: "is_schedule T work sched"
  shows "all_fin (rw_thread rw_acquire rw_release basic_exec) c" "ba_shared (snd (shared c)) = int (length work)"
proof -
  note r' = r [unfolded critical_start_def]
  show "all_fin (rw_thread rw_acquire rw_release basic_exec) c" using critical.rw_stuck_fin [OF r' st] by simp
  have "basic_inv (int (sum_list (map (\<lambda>t. length (sched t)) [0..<T]))) (snd (shared c)) (locs c)"
    using critical.rw_reach [OF r'] by simp
  then have "ba_shared (snd (shared c)) = int (sum_list (map (\<lambda>t. length (sched t)) [0..<T]))"
    unfolding basic_inv_def critical.rw_stuck_fin(2) [OF r' st] by (simp add: sum_list_replicate)
  then show "ba_shared (snd (shared c)) = int (length work)"
    using schedule_sum [OF s, of "\<lambda>_. 1 :: nat"] by (simp add: sum_list_triv)
qed

lemma atomic_final:
  assumes r: "reach (step (script (once atomic_exec))) (atomic_start T sched) c"
    and st: "stuck (script (once atomic_exec)) c" and s: "is_schedule T work sched"
  shows "all_fin (script (once atomic_exec)) c" "shared c = int (length work)"
proof -
  let ?I = "\<lambda>n ls. length ls = T \<and> n + int (sum_list (map length ls)) = int (length work)"
  have "script_invariant (once atomic_exec) 0 (atomic_team T sched) ?I"
  proof
    show "?I 0 (atomic_team T sched)"
      using schedule_sum [OF s, of "\<lambda>_. 1 :: nat"] by (simp add: atomic_team_def comp_def sum_list_triv)
  next
    fix n and ls :: "omp_atomic list list" and i c cs n' ds assume inv: "?I n ls" and i: "i < length ls" "ls ! i = c # cs" and x: "(n', ds) \<in> set (once atomic_exec i c n)"
    obtain R where "sum_list (map length ls) = R + length (ls ! i)" "\<And>x. sum_list (map length (ls[i := x])) = R + length x"
      using sum_list_split [OF i(1)] by blast
    then show "?I n' (ls[i := ds @ cs])" using inv i x by (cases c) auto
  qed
  note client = this
  have r': "reach (step (script (once atomic_exec))) (start 0 (atomic_team T sched)) c" using r by (simp add: atomic_start_def)
  have fin: "locs c ! i = []" if "i < T" for i
  proof -
    have no: "atomic_exec i d n \<noteq> []" for i d n by (cases d) auto
    show ?thesis using script_stuckD [OF r' st, of i] that no by (auto simp: atomic_team_def simp del: nth_locs)
  qed
  then show "all_fin (script (once atomic_exec)) c" using script_all_fin [OF r' st] by (simp add: atomic_team_def)
  have inv: "?I (shared c) (locs c)" by (rule script_invariant.script_reach [OF client r'])
  then have "locs c = replicate T []" using fin by (intro nth_equalityI) (auto simp del: nth_locs)
  then have "sum_list (map length (locs c)) = 0" by (simp add: sum_list_replicate)
  then show "shared c = int (length work)" using inv by linarith
qed

text \<open>C33: with the critical section as with the atomic update no increment is lost, whatever the team and the
  schedule: both loops end with the number of iterations, and no thread is left waiting.\<close>

theorem critical_atomic_agree:
  assumes "is_schedule T work sched" "is_schedule T' work sched'"
    and "reach (step (rw_thread rw_acquire rw_release basic_exec)) (critical_start T sched) c" "stuck (rw_thread rw_acquire rw_release basic_exec) c"
    and "reach (step (script (once atomic_exec))) (atomic_start T' sched') d" "stuck (script (once atomic_exec)) d"
  shows "all_fin (rw_thread rw_acquire rw_release basic_exec) c \<and> all_fin (script (once atomic_exec)) d \<and>
    ba_shared (snd (shared c)) = int (length work) \<and> shared d = ba_shared (snd (shared c))"
  using critical_final [OF assms(3,4,1)] atomic_final [OF assms(5,6,2)] by simp


definition critical_demo :: "((nat \<Rightarrow> rwl) \<times> basic_state, basic_cmd rwc list) cfg" where
  "critical_demo = snd (drive (rw_thread rw_acquire rw_release basic_exec) [0, 1] 30 (critical_start 2 (static_blocks 1)))"

definition atomic_demo :: "(int, omp_atomic list) cfg" where
  "atomic_demo = snd (drive (script (once atomic_exec)) [0, 1] 30 (atomic_start 2 (static_blocks 1)))"

lemma critical_demo: "all_finb (rw_thread rw_acquire rw_release basic_exec) critical_demo"
  by code_simp

lemma atomic_demo: "all_finb (script (once atomic_exec)) atomic_demo"
  by code_simp

theorem critical_atomic_agree_witness: "shared atomic_demo = 2 \<and> ba_shared (snd (shared critical_demo)) = 2"
  using critical_atomic_agree [OF static_blocks [of 2 1] static_blocks [of 2 1]
    drive_reach all_fin_stuck [OF iffD1 [OF all_finb critical_demo, unfolded critical_demo_def]]
    drive_reach all_fin_stuck [OF iffD1 [OF all_finb atomic_demo, unfolded atomic_demo_def]]]
  unfolding critical_demo_def atomic_demo_def by simp

subsection \<open>05_reduction.c\<close>


datatype red_cmd = RedIter "64 word" | RedCombine




definition red_thread :: "nat list \<Rightarrow> red_cmd list" where
  "red_thread is = map (\<lambda>i. RedIter (word_of_nat i)) is @ [RedCombine]"


definition red_range :: "nat \<Rightarrow> nat list" where
  "red_range N = [1..<Suc N]"

definition red_main_range :: "nat list" where
  "red_main_range = red_range 1000000"

text \<open>What a thread still has to contribute.\<close>

fun red_iters :: "red_cmd list \<Rightarrow> 64 word list" where
  "red_iters [] = []"
| "red_iters (RedIter i # cs) = i # red_iters cs"
| "red_iters (RedCombine # cs) = red_iters cs"

fun red_tail :: "red_cmd list \<Rightarrow> bool" where
  "red_tail [] = True"
| "red_tail (RedIter i # cs) = (red_tail cs \<and> cs \<noteq> [])"
| "red_tail (RedCombine # cs) = (cs = [])"










lemma red_thread_simps [simp]:
  "red_tail (red_thread is)" "red_iters (red_thread is) = map word_of_nat is" "red_thread is \<noteq> []"
proof -
  have "red_tail (map (\<lambda>i. RedIter (f i)) is @ [RedCombine]) \<and> red_iters (map (\<lambda>i. RedIter (f i)) is @ [RedCombine]) = map f is" for f :: "nat \<Rightarrow> 64 word"
    by (induction "is") auto
  then show "red_tail (red_thread is)" "red_iters (red_thread is) = map word_of_nat is" "red_thread is \<noteq> []"
    by (simp_all add: red_thread_def)
qed


lemma unat_of_small: "n < 2 ^ 64 \<Longrightarrow> unat (word_of_nat n :: 64 word) = n"
  by (simp add: unat_of_nat)


lemma sint_of_unat:
  assumes "unat (w :: 64 word) < 2 ^ 63"
  shows "sint w = int (unat w)"
proof -
  have "sint w = signed_take_bit 63 (uint w)" by (subst sint_uint) simp
  also have "\<dots> = uint w"
  proof (rule signed_take_bit_int_eq_self)
    have "0 \<le> uint w" by simp
    then show "- (2 ^ 63) \<le> uint w" by (rule order_trans [rotated]) simp
    have "int (unat w) < 2 ^ 63" using assms by (simp only: of_nat_less_numeral_power_cancel_iff)
    then show "uint w < 2 ^ 63" by simp
  qed
  finally show ?thesis by simp
qed







subsection \<open>02_for_loop.c\<close>

text \<open>
  An iteration of the loop writes the number of its thread. With \<open>schedule(static)\<close> the
  iterations of a thread are fixed beforehand; with \<open>schedule(dynamic, chunk)\<close> the threads fetch the
  next chunk when they are ready, until there is none.
\<close>

record for_state =
  fo_next :: nat
  fo_who :: "nat list"

datatype for_cmd = SetWho nat | Fetch

fun for_exec :: "nat \<Rightarrow> nat \<Rightarrow> nat \<Rightarrow> for_cmd \<Rightarrow> for_state \<Rightarrow> (for_state \<times> for_cmd list) list" where
  "for_exec N chunk t (SetWho i) s = [(s\<lparr>fo_who := (fo_who s)[i := t]\<rparr>, [])]"
| "for_exec N chunk t Fetch s = [if fo_next s < N then
     (s\<lparr>fo_next := fo_next s + chunk\<rparr>, map SetWho [fo_next s..<min N (fo_next s + chunk)] @ [Fetch]) else (s, [])]"

definition for_init :: "nat list \<Rightarrow> for_state" where
  "for_init who = \<lparr>fo_next = 0, fo_who = who\<rparr>"

definition static_team :: "nat \<Rightarrow> (nat \<Rightarrow> nat list) \<Rightarrow> for_cmd list list" where
  "static_team T sched = map (\<lambda>t. map SetWho (sched t)) [0..<T]"

definition static_loop :: "nat \<Rightarrow> (nat \<Rightarrow> nat list) \<Rightarrow> nat list \<Rightarrow> (for_state, for_cmd list) cfg" where
  "static_loop T sched who = start (for_init who) (static_team T sched)"

definition dynamic_loop :: "nat \<Rightarrow> nat list \<Rightarrow> (for_state, for_cmd list) cfg" where
  "dynamic_loop T who = start (for_init who) (replicate T [Fetch])"


text \<open>
  Both loops from one account of who executes what: \<open>own i\<close> is the thread of iteration \<open>i\<close>, for the
  iterations \<open>D\<close> that have been handed out.
\<close>

definition owned :: "(nat \<Rightarrow> nat) \<Rightarrow> nat set \<Rightarrow> for_state \<Rightarrow> for_cmd list list \<Rightarrow> bool" where
  "owned own D s ls \<longleftrightarrow>
     (\<forall>i\<in>D. i < length (fo_who s) \<and> own i < length ls \<and> (SetWho i \<in> set (ls ! own i) \<or> fo_who s ! i = own i)) \<and>
     (\<forall>t<length ls. \<forall>i. SetWho i \<in> set (ls ! t) \<longrightarrow> i \<in> D \<and> own i = t)"

lemma owned_update:
  assumes own: "owned own D s ls" and t: "t < length ls"
    and new: "\<And>i. i \<in> D' \<Longrightarrow> i \<notin> D \<Longrightarrow> i < length (fo_who s') \<and> own' i = t \<and> SetWho i \<in> set l"
    and keep: "length (fo_who s') = length (fo_who s)" "\<And>i. i \<in> D \<Longrightarrow> i \<in> D' \<and> own' i = own i \<and> (own i \<noteq> t \<longrightarrow> fo_who s' ! i = fo_who s ! i)"
    and self: "\<And>i. i \<in> D \<Longrightarrow> own i = t \<Longrightarrow> SetWho i \<in> set (ls ! t) \<or> fo_who s ! i = t \<Longrightarrow> SetWho i \<in> set l \<or> fo_who s' ! i = t"
    and "from": "\<And>i. SetWho i \<in> set l \<Longrightarrow> SetWho i \<in> set (ls ! t) \<or> i \<in> D' \<and> own' i = t"
  shows "owned own' D' s' (ls[t := l])"
  unfolding owned_def
proof (intro conjI ballI allI impI)
  fix i assume i: "i \<in> D'"
  show "i < length (fo_who s')" using i new keep own by (cases "i \<in> D") (auto simp: owned_def)
  show "own' i < length (ls[t := l])" using i new keep own t by (cases "i \<in> D") (auto simp: owned_def)
  show "SetWho i \<in> set (ls[t := l] ! own' i) \<or> fo_who s' ! i = own' i"
  proof (cases "i \<in> D")
    case True
    then have "SetWho i \<in> set (ls ! own i) \<or> fo_who s ! i = own i" using own by (simp add: owned_def)
    then show ?thesis using keep(2) [OF True] self [OF True] t by (cases "own i = t") simp_all
  qed (use i new t in simp)
next
  fix u i assume u: "u < length (ls[t := l])" "SetWho i \<in> set (ls[t := l] ! u)"
  have old: "i \<in> D' \<and> own' i = v" if "v < length ls" "SetWho i \<in> set (ls ! v)" for v
    using own that keep(2) by (auto simp: owned_def)
  have "i \<in> D' \<and> own' i = u"
  proof (cases "u = t")
    case True
    then show ?thesis using u t "from" [of i] old [of t] by auto
  qed (use u old in simp)
  then show "i \<in> D'" "own' i = u" by simp_all
qed

lemma owned_SetWho:
  assumes own: "owned own D s ls" and t: "t < length ls" "ls ! t = SetWho k # cs"
  shows "owned own D (s\<lparr>fo_who := (fo_who s)[k := t]\<rparr>) (ls[t := cs])"
proof -
  have k: "k \<in> D" "own k = t" using own t unfolding owned_def by (metis list.set_intros(1))+
  then have "k < length (fo_who s)" using own by (simp add: owned_def)
  then show ?thesis using k t by (intro owned_update [OF own t(1)]) (auto simp: nth_list_update)
qed

lemma owned_Fetch:
  assumes own: "owned own D s ls" and t: "t < length ls" "ls ! t = Fetch # cs"
    and new: "\<And>i. i \<in> set is \<Longrightarrow> i < length (fo_who s) \<and> own' i = t" and keep: "\<And>i. i \<in> D \<Longrightarrow> own' i = own i"
  shows "owned own' (D \<union> set is) (s\<lparr>fo_next := n\<rparr>) (ls[t := (map SetWho is @ [Fetch]) @ cs])"
  by (rule owned_update [OF own t(1)]) (use t new keep in auto)

lemma owned_end: "owned own D s ls \<Longrightarrow> (\<And>t. t < length ls \<Longrightarrow> ls ! t = []) \<Longrightarrow> i \<in> D \<Longrightarrow> fo_who s ! i = own i \<and> own i < length ls"
  by (fastforce simp: owned_def)

definition static_inv :: "nat \<Rightarrow> (nat \<Rightarrow> nat) \<Rightarrow> nat \<Rightarrow> for_state \<Rightarrow> for_cmd list list \<Rightarrow> bool" where
  "static_inv T own N s ls \<longleftrightarrow> length ls = T \<and> length (fo_who s) = N \<and> owned own {..<N} s ls \<and> (\<forall>l\<in>set ls. Fetch \<notin> set l)"

definition for_ends :: "for_cmd list \<Rightarrow> bool" where
  "for_ends cs \<longleftrightarrow> (cs = [] \<or> (\<exists>is. cs = map SetWho is @ [Fetch]))"

definition dynamic_inv :: "nat \<Rightarrow> nat \<Rightarrow> nat \<Rightarrow> for_state \<Rightarrow> for_cmd list list \<Rightarrow> bool" where
  "dynamic_inv T N chunk s ls \<longleftrightarrow> length ls = T \<and> length (fo_who s) = N \<and> chunk dvd fo_next s \<and>
     (\<exists>own. owned own {..<min N (fo_next s)} s ls \<and> (\<forall>i j. i div chunk = j div chunk \<longrightarrow> own i = own j)) \<and>
     (\<forall>l\<in>set ls. for_ends l \<and> (l = [] \<longrightarrow> N \<le> fo_next s))"

lemma for_ends_simps [simp]: "for_ends []" "for_ends (map SetWho is @ [Fetch])"
  "for_ends (Fetch # cs) \<longleftrightarrow> cs = []" "for_ends (SetWho i # cs) \<longleftrightarrow> for_ends cs \<and> cs \<noteq> []"
  by (auto simp: for_ends_def Cons_eq_append_conv append_eq_Cons_conv Cons_eq_map_conv)

lemma dynamic_inv_step:
  assumes inv: "dynamic_inv T N chunk s ls" and chunk: "0 < chunk" and t: "t < length ls" "ls ! t = c # cs"
    and x: "(s', ds) \<in> set (for_exec N chunk t c s)"
  shows "dynamic_inv T N chunk s' (ls[t := ds @ cs])"
proof -
  obtain own where own: "owned own {..<min N (fo_next s)} s ls" "\<And>i j. i div chunk = j div chunk \<Longrightarrow> own i = own j"
    using inv unfolding dynamic_inv_def by blast
  have ends: "for_ends (c # cs)" using inv t unfolding dynamic_inv_def by (metis nth_mem)
  show ?thesis
  proof (cases c)
    case (SetWho k)
    then show ?thesis using inv x t ends own owned_SetWho [OF own(1) t(1), of k cs]
      by (auto simp: dynamic_inv_def dest!: set_updD)
  next
    case Fetch
    show ?thesis
    proof (cases "fo_next s < N")
      case True
      let ?n = "fo_next s + chunk" and ?is = "[fo_next s..<min N (fo_next s + chunk)]"
      let ?own = "\<lambda>i. if i div chunk = fo_next s div chunk then t else own i"
      obtain m where m: "fo_next s = m * chunk" using inv unfolding dynamic_inv_def by (metis dvd_div_mult_self)
      have here: "i div chunk = fo_next s div chunk" if "fo_next s \<le> i" "i < ?n" for i
        using that chunk unfolding m by (simp add: div_nat_eqI mult.commute)
      have before: "i div chunk \<noteq> fo_next s div chunk" if "i < fo_next s" for i
        using less_mult_imp_div_less [of i m chunk] that chunk unfolding m by simp
      define own' where "own' = ?own"
      have "{..<min N (fo_next s)} \<union> set ?is = {..<min N ?n}" by auto
      moreover have "owned own' ({..<min N (fo_next s)} \<union> set ?is) (s\<lparr>fo_next := ?n\<rparr>) (ls[t := (map SetWho ?is @ [Fetch]) @ cs])"
        unfolding own'_def
      proof (rule owned_Fetch [OF own(1) t [unfolded Fetch]])
        show "i < length (fo_who s) \<and> ?own i = t" if "i \<in> set ?is" for i using that here [of i] inv by (simp add: dynamic_inv_def)
        show "?own i = own i" if "i \<in> {..<min N (fo_next s)}" for i using that before [of i] by simp
      qed
      moreover have s': "s' = s\<lparr>fo_next := ?n\<rparr>" "ds = map SetWho ?is @ [Fetch]" "fo_next s' = ?n" using x True Fetch by simp_all
      ultimately have owned: "owned own' {..<min N (fo_next s')} s' (ls[t := ds @ cs])" by (simp only:)
      have same: "\<forall>i j. i div chunk = j div chunk \<longrightarrow> own' i = own' j" unfolding own'_def using own(2) by metis
      have "for_ends l \<and> (l = [] \<longrightarrow> N \<le> fo_next s')" if "l \<in> set (ls[t := ds @ cs])" for l
        using set_updD [OF that] inv ends s' Fetch by (auto simp: dynamic_inv_def)
      then show ?thesis using owned same inv unfolding dynamic_inv_def s'(1) by auto
    next
      case False
      then have "owned own {..<min N (fo_next s)} s (ls[t := cs])"
        using t Fetch by (intro owned_update [OF own(1) t(1)]) auto
      then show ?thesis using inv x ends own(2) False Fetch by (auto simp: dynamic_inv_def dest!: set_updD)
    qed
  qed
qed

lemma static_inv_step:
  assumes inv: "static_inv T own N s ls" and t: "t < length ls" "ls ! t = c # cs" and x: "(s', ds) \<in> set (for_exec N' chunk t c s)"
  shows "static_inv T own N s' (ls[t := ds @ cs])"
proof -
  have no: "\<forall>l\<in>set ls. Fetch \<notin> set l" using inv unfolding static_inv_def by blast
  then have "Fetch \<notin> set (c # cs)" using t by (metis nth_mem)
  then obtain k where "c = SetWho k" by (cases c) auto
  then show ?thesis using inv x t owned_SetWho [of own _ s ls t k cs] \<open>Fetch \<notin> set (c # cs)\<close>
    by (auto simp: static_inv_def dest!: set_updD)
qed

definition for_todo :: "nat \<Rightarrow> for_state \<Rightarrow> for_cmd list list \<Rightarrow> nat" where
  "for_todo N s ls = 2 * (N - fo_next s) + sum_list (map length ls)"

lemma for_terminating:
  assumes "0 < chunk"
  shows "terminating (script (for_exec N chunk)) s0 ps (\<lambda>s ls. True) (for_todo N) 0"
proof unfold_locales
  fix s ls i s' l' assume i: "i < length (ls :: for_cmd list list)" and "(s', l') \<in> set (effects (script (for_exec N chunk) i (ls ! i)) s)"
  then obtain c cs ds where l: "ls ! i = c # cs" "(s', ds) \<in> set (for_exec N chunk i c s)" "l' = ds @ cs" by (auto elim: script_effectE)
  obtain R where "sum_list (map length ls) = R + length (ls ! i)" "\<And>x. sum_list (map length (ls[i := x])) = R + length x"
    using sum_list_split [OF i] by blast
  then show "for_todo N s' (ls[i := l']) < for_todo N s ls" using l assms
    by (cases c) (auto simp: for_todo_def min_def split: if_split_asm)
qed auto


lemma for_stuck:
  assumes r: "reach (step (script (for_exec N chunk))) (start s ps) c" and st: "stuck (script (for_exec N chunk)) c"
  shows "t < length ps \<Longrightarrow> locs c ! t = []" "all_fin (script (for_exec N chunk)) c"
proof -
  have no: "for_exec N chunk t d s \<noteq> []" for t d s by (cases d) simp_all
  show fin: "locs c ! t = []" if "t < length ps" for t
    using script_stuckD [OF r st that] no by (auto simp del: nth_locs)
  then show "all_fin (script (for_exec N chunk)) c" using script_all_fin [OF r st] by simp
qed

lemma schedule_unique:
  assumes s: "is_schedule T work sched" and "distinct work" "t < T" "u < T" "i \<in> set (sched t)" "i \<in> set (sched u)"
  shows "t = u"
proof -
  have "distinct (concat (map sched [0..<T]))" using s \<open>distinct work\<close> by (metis is_schedule_def mset_eq_imp_distinct_iff)
  then show ?thesis using assms(3-)
  proof (induction T)
    case (Suc T)
    have "j \<notin> set (sched T)" if "j \<in> set (sched v)" "v < T" for j v using Suc.prems(1) that by fastforce
    then show ?case using Suc by (auto simp: less_Suc_eq)
  qed simp
qed

lemma static_loop_owners:
  assumes r: "reach (step (script (for_exec N' chunk))) (static_loop T sched who) c" and st: "stuck (script (for_exec N' chunk)) c"
    and s: "is_schedule T [0..<N] sched" and w: "length who = N" and t: "t < T" "i \<in> set (sched t)"
  shows "fo_who (shared c) ! i = t"
proof -
  define own where "own i = (THE t. t < T \<and> i \<in> set (sched t))" for i
  have own: "own i = t" if "t < T" "i \<in> set (sched t)" for t i
    unfolding own_def using that schedule_unique [OF s] by (intro the_equality) auto
  have all: "(\<Union>t<T. set (sched t)) = {..<N}" using schedule_set [OF s] by auto
  have some: "own i < T \<and> i \<in> set (sched (own i))" if "i < N" for i
  proof -
    have "i \<in> (\<Union>t<T. set (sched t))" using all that by simp
    then show ?thesis using own by auto
  qed
  have init: "static_inv T own N (for_init who) (static_team T sched)"
    using own some all w by (auto simp: static_inv_def owned_def for_init_def static_team_def)
  have "script_invariant (for_exec N' chunk) (for_init who) (static_team T sched) (static_inv T own N)"
    by unfold_locales (auto intro: init static_inv_step)
  from script_invariant.script_reach [OF this r [unfolded static_loop_def]]
  have inv: "static_inv T own N (shared c) (locs c)" .
  have "i \<in> {..<N}" using all t by auto
  then have "fo_who (shared c) ! i = own i"
    using inv for_stuck(1) [OF r [unfolded static_loop_def] st] owned_end [of own "{..<N}" "shared c" "locs c" i]
    by (auto simp: static_inv_def static_team_def simp del: nth_locs)
  then show ?thesis using own t by simp
qed

text \<open>with \<open>schedule(dynamic, chunk)\<close> every run of the loop is bounded, and when nothing moves any more all
  threads are through, every iteration has been executed by one of them and iterations of the same
  chunk by the same one.\<close>

theorem dynamic_loop_chunks:
  assumes "run (step (script (for_exec N chunk))) (dynamic_loop T who) es = Some c" "length who = N" "0 < chunk" "0 < T"
  shows "length es \<le> 8 * N + 6 * T + 3 * spurs es \<and> (stuck (script (for_exec N chunk)) c \<longrightarrow>
    all_fin (script (for_exec N chunk)) c \<and> length (fo_who (shared c)) = N \<and> (\<forall>i<N. fo_who (shared c) ! i < T \<and>
      (\<forall>j<N. i div chunk = j div chunk \<longrightarrow> fo_who (shared c) ! i = fo_who (shared c) ! j)))"
proof (intro conjI impI)
  note run = assms(1) [unfolded dynamic_loop_def] and chunk = assms(3)
  show "length es \<le> 8 * N + 6 * T + 3 * spurs es"
    using terminating.run_bounded [OF for_terminating [OF chunk] run]
    by (simp add: terminating.fee_def [OF for_terminating [OF chunk]] for_todo_def for_init_def sum_list_replicate)
  assume st: "stuck (script (for_exec N chunk)) c"
  note r = run_reach [OF run]
  show "all_fin (script (for_exec N chunk)) c" by (rule for_stuck(2) [OF r st])
  have init: "dynamic_inv T N chunk (for_init who) (replicate T [Fetch])"
    using assms(2) by (auto simp: dynamic_inv_def owned_def for_init_def for_ends_def)
  have "script_invariant (for_exec N chunk) (for_init who) (replicate T [Fetch]) (dynamic_inv T N chunk)"
    by unfold_locales (auto intro: init dynamic_inv_step [OF _ chunk])
  from script_invariant.script_reach [OF this r]
  have inv: "dynamic_inv T N chunk (shared c) (locs c)" .
  have fin: "locs c ! t = []" if "t < T" for t using for_stuck(1) [OF r st] that by simp
  have "N \<le> fo_next (shared c)" using inv fin [OF assms(4)] assms(4) nth_mem [of 0 "locs c"] unfolding dynamic_inv_def by metis
  then obtain own where own: "owned own {..<N} (shared c) (locs c)" "\<And>i j. i div chunk = j div chunk \<Longrightarrow> own i = own j"
    using inv by (auto simp: dynamic_inv_def)
  have "fo_who (shared c) ! i = own i \<and> own i < T" if "i < N" for i
    using owned_end [OF own(1), of i] fin that inv by (simp add: dynamic_inv_def del: nth_locs)
  then show "\<forall>i<N. fo_who (shared c) ! i < T \<and>
      (\<forall>j<N. i div chunk = j div chunk \<longrightarrow> fo_who (shared c) ! i = fo_who (shared c) ! j)"
    using own(2) by metis
  show "length (fo_who (shared c)) = N" using inv by (simp add: dynamic_inv_def)
qed

text \<open>The loops of \<open>main\<close>: 12 iterations; the picture of the first one is that of four threads.\<close>

definition for_main_static :: "(for_state, for_cmd list) cfg" where
  "for_main_static = static_loop 4 (static_blocks 3) (replicate 12 0)"

definition for_main_dynamic :: "nat \<Rightarrow> nat list \<Rightarrow> (for_state, for_cmd list) cfg" where
  "for_main_dynamic T who = dynamic_loop T who"

definition for_main_prog :: "nat \<Rightarrow> for_cmd list \<Rightarrow> (for_state, for_cmd list) stmt" where
  "for_main_prog = script (for_exec 12 2)"

definition for_demo :: "(nat \<times> choice) list \<times> (for_state, for_cmd list) cfg" where
  "for_demo = drive (script (for_exec 3 2)) [0, 1] 20 (dynamic_loop 2 [0, 0, 0])"

lemma for_demo: "all_finb (script (for_exec 3 2)) (snd for_demo)"
  by code_simp

theorem dynamic_loop_chunks_witness: "fo_who (shared (snd for_demo)) ! 0 = fo_who (shared (snd for_demo)) ! 1"
proof -
  have "run (step (script (for_exec 3 2))) (dynamic_loop 2 [0, 0, 0]) (fst for_demo) = Some (snd for_demo)"
    unfolding for_demo_def by (rule drive_run) simp
  from dynamic_loop_chunks [OF this] all_fin_stuck [OF iffD1 [OF all_finb for_demo]] show ?thesis by simp
qed


subsection \<open>06_tasks.c\<close>

text \<open>
  A call of \<open>fib\<close> is: not yet begun, between the creation of its two tasks, waiting at
  \<open>taskwait\<close>, or back with its result. Which of the tasks that exist moves is open, so every
  number of threads is covered. \<open>int\<close> has 32 bits, \<open>long\<close> 64.
\<close>

datatype fib_task = Call "32 word" | Spawned fib_task "32 word" | TaskWait fib_task fib_task | Returned "64 word"

inductive fib_step :: "fib_task \<Rightarrow> fib_task \<Rightarrow> bool" where
  fib_base: "sint n < 2 \<Longrightarrow> fib_step (Call n) (Returned (scast n))"
| fib_first: "\<not> sint n < 2 \<Longrightarrow> fib_step (Call n) (Spawned (Call (n - 1)) n)"
| fib_early: "fib_step a a' \<Longrightarrow> fib_step (Spawned a n) (Spawned a' n)"
| fib_second: "fib_step (Spawned a n) (TaskWait a (Call (n - 2)))"
| fib_left: "fib_step a a' \<Longrightarrow> fib_step (TaskWait a b) (TaskWait a' b)"
| fib_right: "fib_step b b' \<Longrightarrow> fib_step (TaskWait a b) (TaskWait a b')"
| fib_sum: "fib_step (TaskWait (Returned x) (Returned y)) (Returned (x + y))"

code_pred fib_step .

inductive_cases fib_CallE: "fib_step (Call n) t"
inductive_cases fib_SpawnedE: "fib_step (Spawned a n) t"
inductive_cases fib_TaskWaitE: "fib_step (TaskWait a b) t"
inductive_simps fib_Returned [simp]: "fib_step (Returned x) t"

lemmas fib_intros = fib_base fib_first fib_early fib_second fib_left fib_right fib_sum

definition fib_main :: fib_task where
  "fib_main = Call 20"

text \<open>The reference: the numbers, and the number of steps a call takes.\<close>

fun fib_seq :: "nat \<Rightarrow> nat" where
  "fib_seq n = (if n < 2 then n else fib_seq (n - 1) + fib_seq (n - 2))"

declare fib_seq.simps [simp del]

fun fib_cost :: "nat \<Rightarrow> nat" where
  "fib_cost n = (if n < 2 then 1 else 3 + fib_cost (n - 1) + fib_cost (n - 2))"

declare fib_cost.simps [simp del]

text \<open>What a task will return, and what it still costs. A negative argument is returned as it is.\<close>

definition fib_of :: "32 word \<Rightarrow> 64 word" where
  "fib_of n = (if sint n < 0 then scast n else word_of_nat (fib_seq (nat (sint n))))"

fun fib_value :: "fib_task \<Rightarrow> 64 word" where
  "fib_value (Call n) = fib_of n"
| "fib_value (Spawned a n) = fib_value a + fib_of (n - 2)"
| "fib_value (TaskWait a b) = fib_value a + fib_value b"
| "fib_value (Returned x) = x"

fun fib_left_over :: "fib_task \<Rightarrow> nat" where
  "fib_left_over (Call n) = fib_cost (nat (sint n))"
| "fib_left_over (Spawned a n) = 2 + fib_left_over a + fib_cost (nat (sint (n - 2)))"
| "fib_left_over (TaskWait a b) = 1 + fib_left_over a + fib_left_over b"
| "fib_left_over (Returned x) = 0"

lemma sint_minus:
  assumes "2 \<le> sint (n :: 32 word)" "0 \<le> k" "k \<le> 2"
  shows "sint (n - word_of_int k) = sint n - k"
proof -
  have "sint n < 2 ^ 31" using sint_less [of n] by simp
  then have "signed_take_bit 31 (sint n - k) = sint n - k"
    using assms by (intro signed_take_bit_int_eq_self) auto
  then show ?thesis using assms by (simp add: sint_word_ariths sint_sbintrunc' signed_take_bit_int_eq_self)
qed

lemma sint_minus_12:
  assumes "2 \<le> sint (n :: 32 word)"
  shows "nat (sint (n - 1)) = nat (sint n) - 1" "nat (sint (n - 2)) = nat (sint n) - 2" "0 \<le> sint (n - 1)" "0 \<le> sint (n - 2)"
  using sint_minus [OF assms, of 1] sint_minus [OF assms, of 2] assms by (simp_all add: nat_diff_distrib)

lemma fib_seq_simps: "m < 2 \<Longrightarrow> fib_seq m = m" "2 \<le> m \<Longrightarrow> fib_seq m = fib_seq (m - 1) + fib_seq (m - 2)"
  by (subst fib_seq.simps; simp)+

lemma fib_cost_simps: "m < 2 \<Longrightarrow> fib_cost m = 1" "2 \<le> m \<Longrightarrow> fib_cost m = 3 + fib_cost (m - 1) + fib_cost (m - 2)"
  by (subst fib_cost.simps; simp)+

lemma fib_of_base:
  assumes "sint n < 2"
  shows "fib_of n = scast n"
proof (cases "sint n < 0")
  case False
  then have "fib_seq (nat (sint n)) = nat (sint n)" using assms by (intro fib_seq_simps) simp
  then have "fib_of n = word_of_nat (nat (sint n))" using False by (simp only: fib_of_def if_False)
  also have "\<dots> = word_of_int (sint n)" using False by (simp only: of_nat_nat not_less)
  finally show ?thesis by (simp only: scast_eq)
qed (simp add: fib_of_def)

lemma fib_of_rec:
  assumes "2 \<le> sint n"
  shows "fib_of n = fib_of (n - 1) + fib_of (n - 2)"
proof -
  note m = sint_minus_12 [OF assms]
  have "fib_seq (nat (sint n)) = fib_seq (nat (sint n) - 1) + fib_seq (nat (sint n) - 2)" using assms by (intro fib_seq_simps) simp
  then have "fib_seq (nat (sint n)) = fib_seq (nat (sint (n - 1))) + fib_seq (nat (sint (n - 2)))" by (simp only: m)
  then show ?thesis using m(3,4) assms unfolding fib_of_def by simp
qed

lemma fib_cost_rec:
  fixes n :: "32 word"
  shows "2 \<le> sint n \<Longrightarrow> fib_cost (nat (sint n)) = 3 + fib_cost (nat (sint (n - 1))) + fib_cost (nat (sint (n - 2)))"
  "sint n < 2 \<Longrightarrow> fib_cost (nat (sint n)) = 1"
proof -
  assume n: "2 \<le> sint n"
  have "fib_cost (nat (sint n)) = 3 + fib_cost (nat (sint n) - 1) + fib_cost (nat (sint n) - 2)" using n by (intro fib_cost_simps) simp
  then show "fib_cost (nat (sint n)) = 3 + fib_cost (nat (sint (n - 1))) + fib_cost (nat (sint (n - 2)))"
    by (simp only: sint_minus_12 [OF n])
qed (simp add: fib_cost_simps)

lemma fib_step_value: "fib_step t u \<Longrightarrow> fib_value u = fib_value t \<and> fib_left_over t = Suc (fib_left_over u)"
  by (induction rule: fib_step.induct) (simp_all add: fib_of_base fib_of_rec fib_cost_rec)

lemma fib_progress: "(\<exists>x. t = Returned x) \<or> (\<exists>u. fib_step t u)"
proof (induction t)
  case (Call n)
  then show ?case by (cases "sint n < 2") (blast intro: fib_intros)+
qed (blast intro: fib_intros)+

lemma fib_run_value: "(fib_step ^^ k) t u \<Longrightarrow> fib_value u = fib_value t \<and> fib_left_over t = k + fib_left_over u"
proof (induction k arbitrary: u)
  case (Suc k)
  then obtain v where "(fib_step ^^ k) t v" "fib_step v u" by auto
  then show ?case using Suc.IH fib_step_value by fastforce
qed simp

lemma fib_seq_step: "fib_seq n \<le> fib_seq (Suc n)"
  by (cases n) (simp_all add: fib_seq_simps)

lemma fib_seq_mono: "m \<le> n \<Longrightarrow> fib_seq m \<le> fib_seq n"
  using fib_seq_step by (rule lift_Suc_mono_le)

text \<open>The pair of two neighbours computes the numbers quickly.\<close>

lemma fib_seq_pair: "((\<lambda>(a, b). (b, a + b)) ^^ n) (0, 1) = (int (fib_seq n), int (fib_seq (Suc n)))"
  by (induction n) (simp_all add: fib_seq_simps)

lemma fib_seq_92: "int (fib_seq 92) = 7540113804746346429"
proof -
  have "fst (((\<lambda>(a, b). (b, a + b)) ^^ 92) (0, 1 :: int)) = 7540113804746346429" by code_simp
  then show ?thesis unfolding fib_seq_pair by simp
qed

text \<open>C32: \<open>fib\<close> with tasks: in whatever order the tasks run, a call has not returned before its last step, every
  run that goes on as long as it can has the same number of steps, and it returns the Fibonacci number,
  exactly as long as that fits into a \<open>long\<close>, that is up to \<open>fib(92)\<close>.\<close>

theorem fib_tasks_exact:
  assumes "(fib_step ^^ k) (Call n) t" "0 \<le> sint n"
  shows "k \<le> fib_cost (nat (sint n)) \<and>
    ((\<nexists>u. fib_step t u) \<longleftrightarrow> k = fib_cost (nat (sint n))) \<and>
    ((\<nexists>u. fib_step t u) \<longrightarrow> t = Returned (word_of_nat (fib_seq (nat (sint n))))) \<and>
    (sint n \<le> 92 \<longrightarrow> sint (word_of_nat (fib_seq (nat (sint n))) :: 64 word) = int (fib_seq (nat (sint n))))"
proof -
  note run = fib_run_value [OF assms(1)]
  have val: "fib_of n = word_of_nat (fib_seq (nat (sint n)))" using assms(2) by (simp add: fib_of_def)
  have none: "(\<nexists>u. fib_step t u) \<longleftrightarrow> fib_left_over t = 0"
    using fib_progress [of t] fib_step_value [of t] by fastforce
  have ends: "(\<nexists>u. fib_step t u) \<longrightarrow> t = Returned (word_of_nat (fib_seq (nat (sint n))))"
    using fib_progress [of t] run val by auto
  have exact: "sint (word_of_nat (fib_seq (nat (sint n))) :: 64 word) = int (fib_seq (nat (sint n)))" if "sint n \<le> 92"
  proof -
    have "int (fib_seq (nat (sint n))) \<le> int (fib_seq 92)" using that by (intro of_nat_mono fib_seq_mono) simp
    then have "int (fib_seq (nat (sint n))) < 2 ^ 63" unfolding fib_seq_92 by simp
    then have "fib_seq (nat (sint n)) < 2 ^ 63" by (simp only: of_nat_less_numeral_power_cancel_iff)
    then show ?thesis using sint_of_unat [of "word_of_nat (fib_seq (nat (sint n)))"] by (simp add: unat_of_small)
  qed
  show ?thesis using run none ends exact by simp
qed

theorem fib_tasks_exact_witness: "sint (word_of_nat (fib_seq 2) :: 64 word) = int (fib_seq 2)"
proof -
  have "fib_step (Call 2) (Spawned (Call 1) 2)" using fib_first [of 2] by simp
  moreover have "fib_step \<dots> (Spawned (Returned 1) 2)" using fib_base [of 1] by (intro fib_early) simp
  ultimately have "(fib_step ^^ 2) (Call 2) (Spawned (Returned 1) 2)" by (auto simp: numeral_2_eq_2)
  from fib_tasks_exact [OF this] show ?thesis by simp
qed

corollary fib_main_result:
  assumes "(fib_step ^^ k) fib_main t" "\<nexists>u. fib_step t u"
  shows "t = Returned 6765"
proof -
  have "fst (((\<lambda>(a, b). (b, a + b)) ^^ 20) (0, 1 :: int)) = 6765" by code_simp
  then have "int (fib_seq 20) = 6765" unfolding fib_seq_pair by simp
  then have twenty: "fib_seq 20 = 6765" by linarith
  have "fib_value t = fib_of 20" using fib_run_value [OF assms(1)] by (simp add: fib_main_def)
  then show ?thesis using fib_progress [of t] assms(2) twenty by (auto simp: fib_of_def)
qed

end
