(* ===== verification/StopFlags.thy ===== *)
theory StopFlags
  imports Scripts
begin

text \<open>
  Asking a thread to stop: the flag of \<open>examples/01_pthreads/09_cancellation/02_atomic_flag_stop.c\<close>, the stop token of
  \<open>examples/02_cpp11_threads/08_jthread_cpp20/01_jthread.cpp\<close>, and \<open>pthread_cancel\<close> with a cleanup handler
  (\<open>examples/01_pthreads/09_cancellation/01_cancellation.c\<close>). The worker loops until it is asked to stop, so no bound on
  the whole run exists; there is one on what happens after the request.
\<close>

subsection \<open>02_atomic_flag_stop.c and 01_jthread.cpp\<close>

text \<open>
  Thread 0 is \<open>main\<close>, thread 1 the worker. \<open>sf_returned\<close> is what \<open>pthread_join\<close> waits for.
\<close>

datatype stop_line = Tick nat | Bye nat | Asking

record stop_state =
  sf_stop :: bool
  sf_returned :: bool
  sf_out :: "stop_line list"

datatype stop_loc = Check nat | Chunk nat | SayBye nat | Gone | Ask | SetStop | Join | Exit

definition stop_say :: "stop_line \<Rightarrow> stop_state \<Rightarrow> stop_state" where
  "stop_say l s = s\<lparr>sf_out := sf_out s @ [l]\<rparr>"

fun stop_thread :: "nat \<Rightarrow> stop_loc \<Rightarrow> (stop_state, stop_loc) stmt" where
  "stop_thread i (Check n) = Act (\<lambda>s. [(s, if sf_stop s then SayBye n else Chunk (Suc n))])"
| "stop_thread i (Chunk n) = Act (\<lambda>s. [(stop_say (Tick n) s, Check n)])"
| "stop_thread i (SayBye n) = Act (\<lambda>s. [((stop_say (Bye n) s)\<lparr>sf_returned := True\<rparr>, Gone)])"
| "stop_thread i Gone = Fin"
| "stop_thread i Ask = Act (\<lambda>s. [(stop_say Asking s, SetStop)])"
| "stop_thread i SetStop = Act (\<lambda>s. [(s\<lparr>sf_stop := True\<rparr>, Join)])"
| "stop_thread i Join = Act (\<lambda>s. if sf_returned s then [(s, Exit)] else [])"
| "stop_thread i Exit = Fin"

definition stop_init :: stop_state where
  "stop_init = \<lparr>sf_stop = False, sf_returned = False, sf_out = []\<rparr>"

definition stop_start :: "(stop_state, stop_loc) cfg" where
  "stop_start = start stop_init [Ask, Check 0]"

text \<open>\<open>main\<close> of \<open>01_jthread.cpp\<close> is the same program: \<open>request_stop\<close> sets the flag, the destructor of the
  \<open>jthread\<close> joins; the last line of the worker does not name the number.\<close>

definition jthread_main :: "(stop_state, stop_loc) cfg" where
  "jthread_main = stop_start"

text \<open>The ticks that have been printed, and the invariant over \<open>main\<close>'s and the worker's program points.\<close>

fun tick_of :: "stop_line \<Rightarrow> nat list" where
  "tick_of (Tick n) = [n]"
| "tick_of (Bye n) = []"
| "tick_of Asking = []"

definition ticks :: "stop_state \<Rightarrow> nat list" where
  "ticks s = concat (map tick_of (sf_out s))"

lemma ticks_say [simp]: "ticks (stop_say l s) = ticks s @ tick_of l" "ticks (s\<lparr>sf_stop := b\<rparr>) = ticks s"
  "ticks (s\<lparr>sf_returned := b\<rparr>) = ticks s" "sf_stop (stop_say l s) = sf_stop s" "sf_returned (stop_say l s) = sf_returned s"
  by (simp_all add: ticks_def stop_say_def)

fun worker_at :: "stop_state \<Rightarrow> stop_loc \<Rightarrow> bool" where
  "worker_at s (Check n) \<longleftrightarrow> ticks s = [1..<Suc n] \<and> \<not> sf_returned s"
| "worker_at s (Chunk n) \<longleftrightarrow> 0 < n \<and> ticks s = [1..<n] \<and> \<not> sf_returned s"
| "worker_at s (SayBye n) \<longleftrightarrow> ticks s = [1..<Suc n] \<and> \<not> sf_returned s \<and> sf_stop s"
| "worker_at s Gone \<longleftrightarrow> sf_returned s \<and> sf_stop s \<and> (\<exists>n. ticks s = [1..<Suc n] \<and> sf_out s \<noteq> [] \<and> last (sf_out s) = Bye n)"
| "worker_at s l \<longleftrightarrow> False"

fun main_at :: "stop_state \<Rightarrow> stop_loc \<Rightarrow> bool" where
  "main_at s Ask \<longleftrightarrow> \<not> sf_stop s"
| "main_at s SetStop \<longleftrightarrow> \<not> sf_stop s"
| "main_at s Join \<longleftrightarrow> sf_stop s"
| "main_at s Exit \<longleftrightarrow> sf_stop s \<and> sf_returned s"
| "main_at s l \<longleftrightarrow> False"

definition stop_inv :: "stop_state \<Rightarrow> stop_loc list \<Rightarrow> bool" where
  "stop_inv s ls \<longleftrightarrow> (\<exists>m w. ls = [m, w] \<and> main_at s m \<and> worker_at s w)"

lemma stop_inv_step:
  assumes inv: "stop_inv s ls" and i: "i < length ls" and x: "(s', l') \<in> set (effects (stop_thread i (ls ! i)) s)"
  shows "stop_inv s' (ls[i := l'])"
proof -
  obtain m w where ls: "ls = [m, w]" "main_at s m" "worker_at s w" using inv by (auto simp: stop_inv_def)
  show ?thesis
  proof (cases "i = 0")
    case True
    show ?thesis
      using x ls True by (cases m; cases w) (auto simp: stop_inv_def split: if_split_asm)
  next
    case False
    then have "i = 1" using i ls by simp
    then show ?thesis
      using x ls by (cases m; cases w) (auto simp: stop_inv_def stop_say_def ticks_def split: if_split_asm)
  qed
qed

lemma stop_inv_init: "stop_inv stop_init [Ask, Check 0]"
  by (simp add: stop_inv_def stop_init_def ticks_def)

interpretation stopping: monitor_invariant stop_thread stop_init "[Ask, Check 0]" stop_inv
  by unfold_locales (auto intro: stop_inv_step stop_inv_init)

interpretation stopping: act_only stop_thread
proof
  show "stop_thread i l \<noteq> Monitor m w b" for i l m w b by (cases l) simp_all
qed

text \<open>After the request: the steps that are left, and the ticks that can still come.\<close>

fun stop_left :: "stop_loc \<Rightarrow> nat" where
  "stop_left (Check n) = 2"
| "stop_left (Chunk n) = 3"
| "stop_left (SayBye n) = 1"
| "stop_left Join = 1"
| "stop_left l = 0"

fun stop_due :: "stop_loc \<Rightarrow> nat" where
  "stop_due (Chunk n) = 1"
| "stop_due l = 0"


definition asked_inv :: "stop_state \<Rightarrow> stop_loc list \<Rightarrow> bool" where
  "asked_inv s ls \<longleftrightarrow> stop_inv s ls \<and> sf_stop s"

definition stop_pot :: "stop_state \<Rightarrow> stop_loc list \<Rightarrow> nat" where
  "stop_pot s ls = sum_list (map stop_left ls)"

lemma asked_step:
  assumes inv: "asked_inv s ls" and i: "i < length ls" and x: "(s', l') \<in> set (effects (stop_thread i (ls ! i)) s)"
  shows "asked_inv s' (ls[i := l']) \<and> stop_pot s' (ls[i := l']) < stop_pot s ls \<and>
    length (ticks s') + sum_list (map stop_due (ls[i := l'])) \<le> length (ticks s) + sum_list (map stop_due ls)"
proof -
  obtain m w where ls: "ls = [m, w]" "main_at s m" "worker_at s w" "sf_stop s" using inv by (auto simp: asked_inv_def stop_inv_def)
  have "stop_inv s' (ls[i := l'])" using stop_inv_step [OF _ i x] inv by (simp add: asked_inv_def)
  moreover have "i = 0 \<or> i = 1" using i ls by auto
  ultimately show ?thesis using x ls unfolding asked_inv_def stop_pot_def
    by (cases m; cases w) (auto split: if_split_asm)
qed

lemma stop_stuck:
  assumes r: "reach (step stop_thread) stop_start d" and st: "stuck stop_thread d"
  shows "all_fin stop_thread d \<and> sf_stop (shared d) \<and> sf_out (shared d) \<noteq> [] \<and> last (sf_out (shared d)) = Bye (length (ticks (shared d)))"
proof -
  note r' = r [unfolded stop_start_def]
  obtain m w where ls: "locs d = [m, w]" "main_at (shared d) m" "worker_at (shared d) w"
    using stopping.I_reach [OF r'] by (auto simp: stop_inv_def)
  have now: "stop_thread i (locs d ! i) = Fin \<or> effects (stop_thread i (locs d ! i)) (shared d) = []" if "i < 2" for i
    using stopping.act_stuck [OF r' st, of i] that by simp
  have w: "w = Gone" using now [of 1] ls by (cases w) auto
  then have m: "m = Exit" using now [of 0] ls by (cases m) auto
  have "all_fin stop_thread d" by (rule stopping.act_fin [OF r']) (use ls m w in \<open>auto simp: less_Suc_eq simp del: nth_locs\<close>)
  then show ?thesis using ls w by auto
qed

text \<open>C34: a stop flag is prompt. In every reachable state the worker has printed its chunks in order, without a gap;
  from the moment the flag is set the program can make at most four more steps and print at most one more chunk,
  and when nothing moves any more \<open>main\<close> has joined the worker, whose last line gives the number of chunks.\<close>

theorem stop_flag_prompt:
  assumes "reach (step stop_thread) stop_start c" "run (step stop_thread) c es = Some d"
  shows "ticks (shared c) = [1..<Suc (length (ticks (shared c)))] \<and>
    (sf_stop (shared c) \<longrightarrow> length es \<le> 4 \<and> length (ticks (shared d)) \<le> Suc (length (ticks (shared c)))) \<and>
    (stuck stop_thread d \<longrightarrow> all_fin stop_thread d \<and> sf_stop (shared d) \<and> last (sf_out (shared d)) = Bye (length (ticks (shared d))))"
proof (intro conjI impI)
  note r = assms(1) [unfolded stop_start_def]
  obtain m w where ls: "locs c = [m, w]" "main_at (shared c) m" "worker_at (shared c) w"
    using stopping.I_reach [OF r] by (auto simp: stop_inv_def)
  show "ticks (shared c) = [1..<Suc (length (ticks (shared c)))]" using ls(3) by (cases w) (auto simp del: upt_Suc)
  assume "sf_stop (shared c)"
  define J where "J s ls' \<longleftrightarrow> asked_inv s ls' \<and> length (ticks s) + sum_list (map stop_due ls') \<le> length (ticks (shared c)) + sum_list (map stop_due (locs c))" for s ls'
  have "J (shared d) (locs d) \<and> length es + stop_pot (shared d) (locs d) \<le> stop_pot (shared c) (locs c)"
    using stopping.I_reach [OF r] \<open>sf_stop (shared c)\<close> asked_step
    by (intro stopping.act_run_bound [OF r assms(2)]) (fastforce simp: J_def asked_inv_def)+
  then show "length es \<le> 4" "length (ticks (shared d)) \<le> Suc (length (ticks (shared c)))"
    using ls by (cases m; cases w; simp add: J_def stop_pot_def)+
next
  assume "stuck stop_thread d"
  from stop_stuck [OF reach_trans [OF assms(1) run_reach [OF assms(2)]] this]
  show "all_fin stop_thread d" "sf_stop (shared d)" "last (sf_out (shared d)) = Bye (length (ticks (shared d)))" by simp_all
qed

definition stop_demo :: "(nat \<times> choice) list \<times> (stop_state, stop_loc) cfg" where
  "stop_demo = drive stop_thread [1, 0] 20 (snd (drive stop_thread [0] 2 (snd (drive stop_thread [1] 3 stop_start))))"

lemma stop_demo: "all_finb stop_thread (snd stop_demo)" "sf_out (shared (snd stop_demo)) = [Tick 1, Asking, Tick 2, Bye 2]"
  by code_simp+

theorem stop_flag_prompt_witness: "length (fst stop_demo) \<le> 4 \<and> sf_stop (shared (snd stop_demo))"
proof -
  let ?c = "snd (drive stop_thread [0] 2 (snd (drive stop_thread [1] 3 stop_start)))"
  have r: "reach (step stop_thread) stop_start ?c" by (rule reach_trans [OF drive_reach drive_reach])
  have run: "run (step stop_thread) ?c (fst stop_demo) = Some (snd stop_demo)"
    by (rule drive_run [of _ "[1, 0]" 20]) (simp add: stop_demo_def)
  have "sf_stop (shared ?c)" by code_simp
  then show ?thesis using stop_flag_prompt [OF r run] all_fin_stuck [OF iffD1 [OF all_finb stop_demo(1)]] by blast
qed


subsection \<open>01_cancellation.c\<close>

text \<open>
  A cancellation request is pending until the worker reaches a cancellation point: \<open>sleep\<close> is one, and
  \<open>printf\<close> may be one. Acting on it runs the cleanup handler and ends the thread with
  \<open>PTHREAD_CANCELED\<close>. \<open>cn_used\<close> and \<open>cn_freed\<close> count the allocations and releases of the resource.
\<close>

datatype cancel_line = CTick | Cleanup | Requesting | WasCanceled | ExitedNormally

datatype cancel_loc = CMalloc | CPush | CPrint | CSleep | CHandler | CFree | CGone | CRequest | CCancel | CJoin | CTell bool | CExit

record cancel_state =
  cn_pending :: bool
  cn_used :: nat
  cn_freed :: nat
  cn_handlers :: nat
  cn_result :: "bool option"
  cn_out :: "cancel_line list"

definition cancel_say :: "cancel_line \<Rightarrow> cancel_state \<Rightarrow> cancel_state" where
  "cancel_say l s = s\<lparr>cn_out := cn_out s @ [l]\<rparr>"

text \<open>Acting on a request: the handlers that are pushed run, here at most the one that releases the resource.\<close>

definition unwind :: "cancel_state \<Rightarrow> cancel_state \<times> cancel_loc" where
  "unwind s = (if cn_handlers s = 0 then (s\<lparr>cn_result := Some True\<rparr>, CGone) else (s\<lparr>cn_handlers := cn_handlers s - 1\<rparr>, CHandler))"

fun cancel_thread :: "nat \<Rightarrow> cancel_loc \<Rightarrow> (cancel_state, cancel_loc) stmt" where
  "cancel_thread i CMalloc = Act (\<lambda>s. [(s\<lparr>cn_used := cn_used s + 1\<rparr>, CPush)])"
| "cancel_thread i CPush = Act (\<lambda>s. [(s\<lparr>cn_handlers := cn_handlers s + 1\<rparr>, CPrint)])"
| "cancel_thread i CPrint = Act (\<lambda>s. (cancel_say CTick s, CSleep) # (if cn_pending s then [unwind s] else []))"
| "cancel_thread i CSleep = Act (\<lambda>s. if cn_pending s then [unwind s] else [(s, CPrint)])"
| "cancel_thread i CHandler = Act (\<lambda>s. [(cancel_say Cleanup s, CFree)])"
| "cancel_thread i CFree = Act (\<lambda>s. [unwind (s\<lparr>cn_freed := cn_freed s + 1\<rparr>)])"
| "cancel_thread i CGone = Fin"
| "cancel_thread i CRequest = Act (\<lambda>s. [(cancel_say Requesting s, CCancel)])"
| "cancel_thread i CCancel = Act (\<lambda>s. [(s\<lparr>cn_pending := True\<rparr>, CJoin)])"
| "cancel_thread i CJoin = Act (\<lambda>s. case cn_result s of None \<Rightarrow> [] | Some b \<Rightarrow> [(s, CTell b)])"
| "cancel_thread i (CTell b) = Act (\<lambda>s. [(cancel_say (if b then WasCanceled else ExitedNormally) s, CExit)])"
| "cancel_thread i CExit = Fin"

definition cancel_init :: cancel_state where
  "cancel_init = \<lparr>cn_pending = False, cn_used = 0, cn_freed = 0, cn_handlers = 0, cn_result = None, cn_out = []\<rparr>"

definition cancel_start :: "(cancel_state, cancel_loc) cfg" where
  "cancel_start = start cancel_init [CRequest, CMalloc]"

fun cleaned :: "cancel_loc \<Rightarrow> nat" where
  "cleaned CFree = 1"
| "cleaned CGone = 1"
| "cleaned l = 0"

definition cancel_worker_at :: "cancel_state \<Rightarrow> cancel_loc \<Rightarrow> bool" where
  "cancel_worker_at s w \<longleftrightarrow> w \<in> {CMalloc, CPush, CPrint, CSleep, CHandler, CFree, CGone} \<and>
     cn_handlers s = of_bool (w = CPrint \<or> w = CSleep) \<and> cn_used s = of_bool (w \<noteq> CMalloc) \<and>
     cn_freed s = of_bool (w = CGone) \<and> cn_result s = (if w = CGone then Some True else None) \<and>
     (w \<in> {CHandler, CFree, CGone} \<longrightarrow> cn_pending s) \<and> length (filter ((=) Cleanup) (cn_out s)) = cleaned w"

fun cancel_main_at :: "cancel_state \<Rightarrow> cancel_loc \<Rightarrow> bool" where
  "cancel_main_at s CRequest \<longleftrightarrow> \<not> cn_pending s"
| "cancel_main_at s CCancel \<longleftrightarrow> \<not> cn_pending s"
| "cancel_main_at s CJoin \<longleftrightarrow> cn_pending s"
| "cancel_main_at s (CTell b) \<longleftrightarrow> b \<and> cn_pending s \<and> cn_result s \<noteq> None"
| "cancel_main_at s CExit \<longleftrightarrow> cn_pending s \<and> cn_result s \<noteq> None \<and> cn_out s \<noteq> [] \<and> last (cn_out s) = WasCanceled"
| "cancel_main_at s l \<longleftrightarrow> False"

definition cancel_inv :: "cancel_state \<Rightarrow> cancel_loc list \<Rightarrow> bool" where
  "cancel_inv s ls \<longleftrightarrow> (\<exists>m w. ls = [m, w] \<and> cancel_main_at s m \<and> cancel_worker_at s w) \<and> ExitedNormally \<notin> set (cn_out s)"

lemma cancel_inv_step:
  assumes inv: "cancel_inv s ls" and i: "i < length ls" and x: "(s', l') \<in> set (effects (cancel_thread i (ls ! i)) s)"
  shows "cancel_inv s' (ls[i := l'])"
proof -
  obtain m w where ls: "ls = [m, w]" "cancel_main_at s m" "cancel_worker_at s w" "ExitedNormally \<notin> set (cn_out s)"
    using inv by (auto simp: cancel_inv_def)
  show ?thesis
  proof (cases "i = 0")
    case True
    show ?thesis
      using x ls True by (cases m) (auto simp: cancel_inv_def cancel_worker_at_def cancel_say_def split: if_split_asm option.split_asm)
  next
    case False
    then have "i = 1" using i ls by simp
    then show ?thesis
      using x ls by (cases w; cases m) (auto simp: cancel_inv_def cancel_worker_at_def cancel_say_def unwind_def split: if_split_asm)
  qed
qed

lemma cancel_inv_init: "cancel_inv cancel_init [CRequest, CMalloc]"
  by (simp add: cancel_inv_def cancel_worker_at_def cancel_init_def)

interpretation cancelling: monitor_invariant cancel_thread cancel_init "[CRequest, CMalloc]" cancel_inv
  by unfold_locales (auto intro: cancel_inv_step cancel_inv_init)

interpretation cancelling: act_only cancel_thread
proof
  show "cancel_thread i l \<noteq> Monitor m w b" for i l m w b by (cases l) simp_all
qed

fun cancel_left :: "cancel_loc \<Rightarrow> nat" where
  "cancel_left CMalloc = 6"
| "cancel_left CPush = 5"
| "cancel_left CPrint = 4"
| "cancel_left CSleep = 3"
| "cancel_left CHandler = 2"
| "cancel_left CFree = 1"
| "cancel_left CJoin = 2"
| "cancel_left (CTell b) = 1"
| "cancel_left l = 0"

definition cancelled_inv :: "cancel_state \<Rightarrow> cancel_loc list \<Rightarrow> bool" where
  "cancelled_inv s ls \<longleftrightarrow> cancel_inv s ls \<and> cn_pending s"

lemma cancelled_step:
  assumes inv: "cancelled_inv s ls" and i: "i < length ls" and x: "(s', l') \<in> set (effects (cancel_thread i (ls ! i)) s)"
  shows "cancelled_inv s' (ls[i := l']) \<and> sum_list (map cancel_left (ls[i := l'])) < sum_list (map cancel_left ls)"
proof -
  obtain m w where ls: "ls = [m, w]" "cancel_main_at s m" "cancel_worker_at s w" "cn_pending s"
    using inv by (auto simp: cancelled_inv_def cancel_inv_def)
  have "cancel_inv s' (ls[i := l'])" using cancel_inv_step [OF _ i x] inv by (simp add: cancelled_inv_def)
  moreover have "i = 0 \<or> i = 1" using i ls by auto
  ultimately show ?thesis using x ls unfolding cancelled_inv_def
    by (cases m; cases w) (auto simp: cancel_worker_at_def cancel_say_def unwind_def split: if_split_asm option.split_asm)
qed

text \<open>C35: cancellation with a cleanup handler leaks nothing and frees nothing twice. At every moment at most one resource
  exists and it is released only by the handler; once the request is pending the program can make at most eight more steps, and
  when nothing moves any more the resource has been released exactly once and \<open>main\<close> has reported
  the cancellation.\<close>

theorem cancellation_cleans_up:
  assumes "reach (step cancel_thread) cancel_start c" "run (step cancel_thread) c es = Some d"
  shows "cn_freed (shared c) \<le> cn_used (shared c) \<and> cn_used (shared c) \<le> 1 \<and> ExitedNormally \<notin> set (cn_out (shared c)) \<and>
    (cn_pending (shared c) \<longrightarrow> length es \<le> 8) \<and>
    (stuck cancel_thread d \<longrightarrow> all_fin cancel_thread d \<and> cn_used (shared d) = 1 \<and> cn_freed (shared d) = 1 \<and>
      length (filter ((=) Cleanup) (cn_out (shared d))) = 1 \<and> last (cn_out (shared d)) = WasCanceled)"
proof (intro conjI impI)
  note r = assms(1) [unfolded cancel_start_def]
  have inv: "cancel_inv (shared c) (locs c)" by (rule cancelling.I_reach [OF r])
  then obtain m w where ls: "locs c = [m, w]" "cancel_main_at (shared c) m" "cancel_worker_at (shared c) w"
    by (auto simp: cancel_inv_def)
  show "cn_freed (shared c) \<le> cn_used (shared c)" "cn_used (shared c) \<le> 1" "ExitedNormally \<notin> set (cn_out (shared c))"
    using inv ls(3) by (auto simp: cancel_worker_at_def cancel_inv_def)
  assume "cn_pending (shared c)"
  then have "cancelled_inv (shared d) (locs d) \<and> length es + sum_list (map cancel_left (locs d)) \<le> sum_list (map cancel_left (locs c))"
    using inv cancelled_step
    by (intro cancelling.act_run_bound [OF r assms(2), where J = cancelled_inv and pot = "\<lambda>s ls. sum_list (map cancel_left ls)"]) (auto simp: cancelled_inv_def)
  then show "length es \<le> 8" using ls by (cases m; cases w; simp)
next
  assume st: "stuck cancel_thread d"
  note r = reach_trans [OF assms(1) run_reach [OF assms(2)], unfolded cancel_start_def]
  obtain m w where ls: "locs d = [m, w]" "cancel_main_at (shared d) m" "cancel_worker_at (shared d) w"
    using cancelling.I_reach [OF r] by (auto simp: cancel_inv_def)
  have now: "cancel_thread i (locs d ! i) = Fin \<or> effects (cancel_thread i (locs d ! i)) (shared d) = []" if "i < 2" for i
    using cancelling.act_stuck [OF r st, of i] that by simp
  have w: "w = CGone \<or> w = CExit" using now [of 1] ls by (cases w) (auto simp: cancel_worker_at_def split: if_split_asm)
  then have m: "m = CExit" using now [of 0] ls by (cases m) (auto simp: cancel_worker_at_def split: option.split_asm)
  show "all_fin cancel_thread d" by (rule cancelling.act_fin [OF r]) (use ls m w in \<open>auto simp: less_Suc_eq simp del: nth_locs\<close>)
  show "cn_used (shared d) = 1" "cn_freed (shared d) = 1" "length (filter ((=) Cleanup) (cn_out (shared d))) = 1" "last (cn_out (shared d)) = WasCanceled"
    using ls m w by (auto simp: cancel_worker_at_def)
qed

definition cancel_demo :: "(nat \<times> choice) list \<times> (cancel_state, cancel_loc) cfg" where
  "cancel_demo = drive cancel_thread [1, 0] 20 (snd (drive cancel_thread [0] 2 (snd (drive cancel_thread [1] 5 cancel_start))))"

lemma cancel_demo: "all_finb cancel_thread (snd cancel_demo)"
  by code_simp

theorem cancellation_cleans_up_witness: "cn_freed (shared (snd cancel_demo)) = 1 \<and> last (cn_out (shared (snd cancel_demo))) = WasCanceled"
proof -
  let ?c = "snd (drive cancel_thread [0] 2 (snd (drive cancel_thread [1] 5 cancel_start)))"
  have r: "reach (step cancel_thread) cancel_start ?c" by (rule reach_trans [OF drive_reach drive_reach])
  have run: "run (step cancel_thread) ?c (fst cancel_demo) = Some (snd cancel_demo)"
    by (rule drive_run [of _ "[1, 0]" 20]) (simp add: cancel_demo_def)
  show ?thesis using cancellation_cleans_up [OF r run] all_fin_stuck [OF iffD1 [OF all_finb cancel_demo]] by blast
qed

end
