(* ===== verification/ThreadLocal.thy ===== *)
theory ThreadLocal
  imports Scripts Pipeline Once
begin

text \<open>
  Variables of which every thread has its own: \<open>thread_local\<close>
  (\<open>examples/02_cpp11_threads/07_thread_local/01_thread_local.cpp\<close>) and \<open>pthread_key_t\<close> with a destructor
  (\<open>examples/01_pthreads/08_thread_specific/01_tls_pthread.c\<close>).
\<close>

subsection \<open>01_tls_pthread.c\<close>

text \<open>
  \<open>scratch\<close> gives a thread its buffer of 64 bytes, which it allocates and fills at the first call; the key is made by
  \<open>pthread_once\<close>. Buffers are numbers, 0 is \<open>NULL\<close>. The destructor of the key runs when a thread
  returns and finds its slot filled. The thread number that \<open>pthread_self\<close> gives is the parameter \<open>self\<close>. The
  argument of a program point says whether it belongs to the second call of \<open>scratch\<close>.
\<close>

record tls_state =
  ts_once :: once_flag
  ts_keys :: nat
  ts_slot :: "nat \<Rightarrow> nat"
  ts_heap :: "nat \<Rightarrow> string"
  ts_next :: nat
  ts_freed :: "nat list"
  ts_out :: "(nat \<times> string) list"

datatype tls_loc =
    OnceKey bool
  | MakeKey bool
  | GetSpecific bool
  | Malloc bool
  | SetSpecific bool nat
  | Format bool nat
  | Scratch bool nat
  | Touched nat
  | KeyDtor
  | FreeBuf nat
  | Ended

text \<open>\<open>snprintf\<close> writes at most \<open>n - 1\<close> characters and the terminating null.\<close>

definition snprintf :: "nat \<Rightarrow> string \<Rightarrow> string" where
  "snprintf n s = take (n - 1) s"

definition greeting :: "nat \<Rightarrow> string" where
  "greeting self = snprintf 64 (''thread '' @ string_of_nat self @ [CHR 0x27] @ ''s buffer'')"

definition touched :: string where
  "touched = '' (touched)''"

fun tls_thread :: "(nat \<Rightarrow> nat) \<Rightarrow> nat \<Rightarrow> tls_loc \<Rightarrow> (tls_state, tls_loc) stmt" where
  "tls_thread self i (OnceKey k) = Act (\<lambda>s. case ts_once s of
       Never \<Rightarrow> [(s\<lparr>ts_once := Running\<rparr>, MakeKey k)]
     | Running \<Rightarrow> []
     | Finished \<Rightarrow> [(s, GetSpecific k)])"
| "tls_thread self i (MakeKey k) = Act (\<lambda>s. [(s\<lparr>ts_keys := ts_keys s + 1, ts_once := Finished\<rparr>, GetSpecific k)])"
| "tls_thread self i (GetSpecific k) = Act (\<lambda>s. [(s, if ts_slot s i = 0 then Malloc k else Scratch k (ts_slot s i))])"
| "tls_thread self i (Malloc k) = Act (\<lambda>s. [(s\<lparr>ts_next := ts_next s + 1\<rparr>, SetSpecific k (ts_next s))])"
| "tls_thread self i (SetSpecific k p) = Act (\<lambda>s. [(s\<lparr>ts_slot := (ts_slot s)(i := p)\<rparr>, Format k p)])"
| "tls_thread self i (Format k p) = Act (\<lambda>s. [(s\<lparr>ts_heap := (ts_heap s)(p := greeting (self i))\<rparr>, Scratch k p)])"
| "tls_thread self i (Scratch False p) = Act (\<lambda>s. [(s\<lparr>ts_out := ts_out s @ [(i, ts_heap s p)]\<rparr>, OnceKey True)])"
| "tls_thread self i (Scratch True p) = Act (\<lambda>s. [(s\<lparr>ts_heap := (ts_heap s)(p := ts_heap s p @ touched)\<rparr>, Touched p)])"
| "tls_thread self i (Touched p) = Act (\<lambda>s. [(s\<lparr>ts_out := ts_out s @ [(i, ts_heap s p)]\<rparr>, KeyDtor)])"
| "tls_thread self i KeyDtor = Act (\<lambda>s. [if ts_slot s i = 0 then (s, Ended) else (s\<lparr>ts_slot := (ts_slot s)(i := 0)\<rparr>, FreeBuf (ts_slot s i))])"
| "tls_thread self i (FreeBuf p) = Act (\<lambda>s. [(s\<lparr>ts_freed := p # ts_freed s\<rparr>, Ended)])"
| "tls_thread self i Ended = Fin"

definition tls_init :: tls_state where
  "tls_init = \<lparr>ts_once = Never, ts_keys = 0, ts_slot = (\<lambda>_. 0), ts_heap = (\<lambda>_. []), ts_next = 1, ts_freed = [], ts_out = []\<rparr>"

definition tls_start :: "nat \<Rightarrow> (tls_state, tls_loc) cfg" where
  "tls_start N = start tls_init (replicate N (OnceKey False))"

definition tls_main :: "(tls_state, tls_loc) cfg" where
  "tls_main = tls_start 3"

text \<open>Lengths: a decimal number, and the two strings that a buffer holds.\<close>

lemma length_string_of_nat: "0 < k \<Longrightarrow> n < 10 ^ k \<Longrightarrow> length (string_of_nat n) \<le> k"
proof (induction k arbitrary: n)
  case (Suc k)
  show ?case
  proof (cases "n < 10")
    case False
    then have "0 < k" using Suc.prems by (cases k) auto
    moreover have "n div 10 < 10 ^ k" using Suc.prems by (simp add: div_less_iff_less_mult)
    ultimately show ?thesis using Suc.IH [of "n div 10"] False by (simp add: string_of_nat.simps [of n])
  qed (simp add: string_of_nat.simps)
qed simp

lemma greeting_fits:
  assumes "n < 2 ^ 64"
  shows "greeting n = ''thread '' @ string_of_nat n @ [CHR 0x27] @ ''s buffer''" "length (greeting n @ touched) < 64"
proof -
  have "length (string_of_nat n) \<le> 20" using assms by (intro length_string_of_nat) auto
  then show "greeting n = ''thread '' @ string_of_nat n @ [CHR 0x27] @ ''s buffer''" "length (greeting n @ touched) < 64"
    by (simp_all add: greeting_def snprintf_def touched_def)
qed

text \<open>The buffer a thread owns, what it holds, and the lines the thread has printed.\<close>

fun tls_buffer :: "nat \<Rightarrow> tls_loc \<Rightarrow> nat" where
  "tls_buffer slot (SetSpecific k p) = p"
| "tls_buffer slot (FreeBuf p) = p"
| "tls_buffer slot l = slot"

fun tls_lines :: "string \<Rightarrow> tls_loc \<Rightarrow> string list" where
  "tls_lines g (OnceKey k) = (if k then [g] else [])"
| "tls_lines g (MakeKey k) = (if k then [g] else [])"
| "tls_lines g (GetSpecific k) = (if k then [g] else [])"
| "tls_lines g (Scratch k p) = (if k then [g] else [])"
| "tls_lines g (Touched p) = [g]"
| "tls_lines g KeyDtor = [g, g @ touched]"
| "tls_lines g (FreeBuf p) = [g, g @ touched]"
| "tls_lines g Ended = [g, g @ touched]"
| "tls_lines g l = []"

fun tls_at :: "once_flag \<Rightarrow> nat \<Rightarrow> string \<Rightarrow> string \<Rightarrow> tls_loc \<Rightarrow> bool" where
  "tls_at fl slot g b (OnceKey k) \<longleftrightarrow> (if k then slot \<noteq> 0 \<and> b = g \<and> fl = Finished else slot = 0)"
| "tls_at fl slot g b (MakeKey k) \<longleftrightarrow> \<not> k \<and> slot = 0"
| "tls_at fl slot g b (GetSpecific k) \<longleftrightarrow> fl = Finished \<and> (if k then slot \<noteq> 0 \<and> b = g else slot = 0)"
| "tls_at fl slot g b (Malloc k) \<longleftrightarrow> fl = Finished \<and> \<not> k \<and> slot = 0"
| "tls_at fl slot g b (SetSpecific k p) \<longleftrightarrow> fl = Finished \<and> \<not> k \<and> slot = 0 \<and> p \<noteq> 0"
| "tls_at fl slot g b (Format k p) \<longleftrightarrow> fl = Finished \<and> \<not> k \<and> p = slot \<and> slot \<noteq> 0"
| "tls_at fl slot g b (Scratch k p) \<longleftrightarrow> fl = Finished \<and> p = slot \<and> slot \<noteq> 0 \<and> b = g"
| "tls_at fl slot g b (Touched p) \<longleftrightarrow> fl = Finished \<and> p = slot \<and> slot \<noteq> 0 \<and> b = g @ touched"
| "tls_at fl slot g b KeyDtor \<longleftrightarrow> fl = Finished \<and> slot \<noteq> 0"
| "tls_at fl slot g b (FreeBuf p) \<longleftrightarrow> fl = Finished \<and> slot = 0 \<and> p \<noteq> 0"
| "tls_at fl slot g b Ended \<longleftrightarrow> fl = Finished \<and> slot = 0"

definition tls_owned :: "tls_state \<Rightarrow> tls_loc list \<Rightarrow> nat \<Rightarrow> nat" where
  "tls_owned s ls i = tls_buffer (ts_slot s i) (ls ! i)"

definition makers :: "tls_loc \<Rightarrow> nat" where
  "makers l = of_bool (l = MakeKey False)"

definition ended :: "tls_loc \<Rightarrow> nat" where
  "ended l = of_bool (l = Ended)"

fun allocated :: "tls_loc \<Rightarrow> nat" where
  "allocated (OnceKey k) = of_bool k"
| "allocated (MakeKey k) = 0"
| "allocated (GetSpecific k) = of_bool k"
| "allocated (Malloc k) = 0"
| "allocated l = 1"

definition tls_inv :: "(nat \<Rightarrow> nat) \<Rightarrow> nat \<Rightarrow> tls_state \<Rightarrow> tls_loc list \<Rightarrow> bool" where
  "tls_inv self N s ls \<longleftrightarrow> length ls = N \<and>
     sum_list (map makers ls) = of_bool (ts_once s = Running) \<and> ts_keys s = of_bool (ts_once s = Finished) \<and>
     (\<forall>i<N. tls_at (ts_once s) (ts_slot s i) (greeting (self i)) (ts_heap s (ts_slot s i)) (ls ! i) \<and>
        map snd (filter (\<lambda>l. fst l = i) (ts_out s)) = tls_lines (greeting (self i)) (ls ! i) \<and>
        tls_owned s ls i < ts_next s \<and> tls_owned s ls i \<notin> set (ts_freed s)) \<and>
     (\<forall>i<N. \<forall>j<N. tls_owned s ls i = tls_owned s ls j \<and> tls_owned s ls i \<noteq> 0 \<longrightarrow> i = j) \<and>
     distinct (ts_freed s) \<and> (\<forall>p\<in>set (ts_freed s). 0 < p \<and> p < ts_next s) \<and>
     length (ts_freed s) = sum_list (map ended ls) \<and> ts_next s = Suc (sum_list (map allocated ls))"

lemma tls_inv_init: "tls_inv self N tls_init (replicate N (OnceKey False))"
  by (auto simp: tls_inv_def tls_init_def tls_owned_def makers_def ended_def sum_list_replicate)


lemma tls_at_other:
  assumes "tls_at fl slot g b l" "slot \<noteq> 0 \<Longrightarrow> b' = b" "fl = Finished \<Longrightarrow> fl' = Finished"
  shows "tls_at fl' slot g b' l"
  using assms by (cases l) (auto split: if_splits)

lemma tls_at_buffer: "tls_at fl slot g b l \<Longrightarrow> slot \<noteq> 0 \<Longrightarrow> tls_buffer slot l = slot"
  by (cases l) auto

text \<open>What one step of thread \<open>i\<close> may change, for all program points at once.\<close>

lemma tls_inv_upd:
  assumes inv: "tls_inv self N s ls" and i: "i < N"
    and slot: "\<And>j. j \<noteq> i \<Longrightarrow> ts_slot s' j = ts_slot s j" and heap: "\<And>p. p \<noteq> tls_owned s ls i \<Longrightarrow> ts_heap s' p = ts_heap s p"
    and fl: "ts_once s = Finished \<Longrightarrow> ts_once s' = Finished"
    and out: "ts_out s' = ts_out s @ map (Pair i) xs" and lines: "tls_lines (greeting (self i)) l' = tls_lines (greeting (self i)) (ls ! i) @ xs"
    and at: "tls_at (ts_once s') (ts_slot s' i) (greeting (self i)) (ts_heap s' (ts_slot s' i)) l'"
    and own: "own = tls_buffer (ts_slot s' i) l'" "own = 0 \<or> own = tls_owned s ls i \<or> own = ts_next s" "own < ts_next s'" "ts_next s \<le> ts_next s'" "ts_next s' + allocated (ls ! i) = ts_next s + allocated l'"
    and freed: "ts_freed s' = ts_freed s \<and> ls ! i \<noteq> Ended \<and> l' \<noteq> Ended \<or>
      ts_freed s' = tls_owned s ls i # ts_freed s \<and> tls_owned s ls i \<noteq> 0 \<and> own = 0 \<and> ls ! i \<noteq> Ended \<and> l' = Ended"
    and once: "makers l' + of_bool (ts_once s = Running) = makers (ls ! i) + of_bool (ts_once s' = Running)" "ts_keys s' = of_bool (ts_once s' = Finished)"
  shows "tls_inv self N s' (ls[i := l'])"
proof -
  note I = inv [unfolded tls_inv_def]
  have len: "length ls = N" "i < length ls" using I i by auto
  have own_i: "tls_owned s' (ls[i := l']) i = own" using own(1) len by (simp add: tls_owned_def)
  have own_j: "tls_owned s' (ls[i := l']) j = tls_owned s ls j" if "j \<noteq> i" for j using that slot by (simp add: tls_owned_def)
  have below: "tls_owned s ls j < ts_next s" "tls_owned s ls j \<notin> set (ts_freed s)" if "j < N" for j using I that by blast+
  have apart: "tls_owned s ls j \<noteq> own" if j: "j < N" "j \<noteq> i" "tls_owned s ls j \<noteq> 0" for j
    using own(2) below(1) [OF j(1)] I i j by (metis nat_neq_iff)
  have freed_small: "\<forall>p\<in>set (ts_freed s'). 0 < p \<and> p < ts_next s'" "distinct (ts_freed s')"
    using freed I below [OF i] own(4) by fastforce+
  have at_j: "tls_at (ts_once s') (ts_slot s' j) (greeting (self j)) (ts_heap s' (ts_slot s' j)) (ls ! j)" if j: "j < N" "j \<noteq> i" for j
  proof -
    have old: "tls_at (ts_once s) (ts_slot s j) (greeting (self j)) (ts_heap s (ts_slot s j)) (ls ! j)" using I j by blast
    have "ts_heap s' (ts_slot s j) = ts_heap s (ts_slot s j)" if nz: "ts_slot s j \<noteq> 0"
    proof (rule heap)
      have "tls_owned s ls j = ts_slot s j" using tls_at_buffer [OF old nz] by (simp add: tls_owned_def)
      then show "ts_slot s j \<noteq> tls_owned s ls i" using I i j nz by metis
    qed
    then show ?thesis using tls_at_other [OF old] fl slot [OF j(2)] by simp
  qed
  have lines_i: "map snd (filter (\<lambda>l. fst l = i) (ts_out s')) = tls_lines (greeting (self i)) l'"
    using I i out lines by (simp add: comp_def)
  have lines_j: "filter (\<lambda>l. fst l = j) (ts_out s') = filter (\<lambda>l. fst l = j) (ts_out s)" if "j \<noteq> i" for j
    using out that by simp
  have unfreed: "tls_owned s' (ls[i := l']) j \<notin> set (ts_freed s')" if j: "j < N" for j
  proof (cases "j = i")
    case True
    have "0 \<notin> set (ts_freed s)" "ts_next s \<notin> set (ts_freed s)" using I by auto
    then have "own \<notin> set (ts_freed s')" using own(2) freed below(2) [OF i] by auto
    then show ?thesis using own_i True by simp
  next
    case False
    then show ?thesis using own_j [OF False] below [OF j] freed I i j by (metis set_ConsD)
  qed
  have "length (ts_freed s') = sum_list (map ended (ls[i := l']))"
  proof -
    obtain R where "sum_list (map ended ls) = R + ended (ls ! i)" "sum_list (map ended (ls[i := l'])) = R + ended l'"
      using sum_list_split [OF len(2)] by metis
    then show ?thesis using freed I by (auto simp: ended_def)
  qed
  moreover have "ts_next s' = Suc (sum_list (map allocated (ls[i := l'])))"
  proof -
    obtain R where "sum_list (map allocated ls) = R + allocated (ls ! i)" "sum_list (map allocated (ls[i := l'])) = R + allocated l'"
      using sum_list_split [OF len(2)] by metis
    then show ?thesis using own(5) I by linarith
  qed
  moreover have "sum_list (map makers (ls[i := l'])) = of_bool (ts_once s' = Running)"
  proof -
    obtain R where "sum_list (map makers ls) = R + makers (ls ! i)" "sum_list (map makers (ls[i := l'])) = R + makers l'"
      using sum_list_split [OF len(2)] by metis
    then show ?thesis using once(1) I by linarith
  qed
  moreover have "\<forall>j<N. tls_at (ts_once s') (ts_slot s' j) (greeting (self j)) (ts_heap s' (ts_slot s' j)) (ls[i := l'] ! j) \<and>
      map snd (filter (\<lambda>l. fst l = j) (ts_out s')) = tls_lines (greeting (self j)) (ls[i := l'] ! j) \<and>
      tls_owned s' (ls[i := l']) j < ts_next s' \<and> tls_owned s' (ls[i := l']) j \<notin> set (ts_freed s')"
  proof (intro allI impI)
    fix j assume j: "j < N"
    show "tls_at (ts_once s') (ts_slot s' j) (greeting (self j)) (ts_heap s' (ts_slot s' j)) (ls[i := l'] ! j) \<and>
      map snd (filter (\<lambda>l. fst l = j) (ts_out s')) = tls_lines (greeting (self j)) (ls[i := l'] ! j) \<and>
      tls_owned s' (ls[i := l']) j < ts_next s' \<and> tls_owned s' (ls[i := l']) j \<notin> set (ts_freed s')"
    proof (cases "j = i")
      case True
      then show ?thesis using at lines_i own_i own(3) unfreed [OF j] len by simp
    next
      case False
      moreover have "map snd (filter (\<lambda>l. fst l = j) (ts_out s)) = tls_lines (greeting (self j)) (ls ! j)" using I j by blast
      ultimately show ?thesis using at_j [OF j False] lines_j [OF False] own_j [OF False] below(1) [OF j] own(4) unfreed [OF j] by simp
    qed
  qed
  moreover have "\<forall>j<N. \<forall>k<N. tls_owned s' (ls[i := l']) j = tls_owned s' (ls[i := l']) k \<and> tls_owned s' (ls[i := l']) j \<noteq> 0 \<longrightarrow> j = k"
    using own_i own_j apart I by metis
  ultimately show ?thesis using len(1) freed_small once(2) own(3) by (auto simp: tls_inv_def)
qed


lemma makers_le: "i < length ls \<Longrightarrow> makers (ls ! i) \<le> sum_list (map makers ls)"
  by (rule member_le_sum_list_nat)

lemma tls_inv_step:
  assumes inv: "tls_inv self N s ls" and i: "i < length ls" and x: "(s', l') \<in> set (effects (tls_thread self i (ls ! i)) s)"
  shows "tls_inv self N s' (ls[i := l'])"
proof -
  have N: "i < N" using inv i by (simp add: tls_inv_def)
  have at: "tls_at (ts_once s) (ts_slot s i) (greeting (self i)) (ts_heap s (ts_slot s i)) (ls ! i)"
    and keys: "ts_keys s = of_bool (ts_once s = Finished)" and next_: "tls_owned s ls i < ts_next s" "0 < ts_next s"
    using inv N unfolding tls_inv_def by (blast, blast, blast, simp)
  have running: "ts_once s = Running" if "makers (ls ! i) = 1"
    using makers_le [OF i] that inv unfolding tls_inv_def by (cases "ts_once s") auto
  note upd = tls_inv_upd [OF inv N, where s' = s' and l' = l' and own = "tls_buffer (ts_slot s' i) l'"]
  note defs = tls_owned_def makers_def
  show ?thesis
  proof (cases "ls ! i")
    case (OnceKey k)
    then show ?thesis using x at keys next_ by (intro upd [where xs = "[]"]) (auto simp: defs split: once_flag.split_asm if_split_asm)
  next
    case (MakeKey k)
    then show ?thesis using x at keys next_ running by (intro upd [where xs = "[]"]) (auto simp: defs)
  next
    case (GetSpecific k)
    then show ?thesis using x at keys next_ by (intro upd [where xs = "[]"]) (auto simp: defs split: if_split_asm)
  next
    case (Malloc k)
    then show ?thesis using x at keys next_ by (intro upd [where xs = "[]"]) (auto simp: defs)
  next
    case (SetSpecific k p)
    then show ?thesis using x at keys next_ by (intro upd [where xs = "[]"]) (auto simp: defs)
  next
    case (Format k p)
    then show ?thesis using x at keys next_ by (intro upd [where xs = "[]"]) (auto simp: defs)
  next
    case (Scratch k p)
    then show ?thesis using x at keys next_ by (cases k; intro upd [where xs = "if k then [] else [ts_heap s p]"]) (auto simp: defs)
  next
    case (Touched p)
    then show ?thesis using x at keys next_ by (intro upd [where xs = "[ts_heap s p]"]) (auto simp: defs)
  next
    case KeyDtor
    then show ?thesis using x at keys next_ by (intro upd [where xs = "[]"]) (auto simp: defs)
  next
    case (FreeBuf p)
    then show ?thesis using x at keys next_ by (intro upd [where xs = "[]"]) (auto simp: defs)
  qed (use x in simp)
qed

interpretation tls: monitor_invariant "tls_thread self" tls_init "replicate N (OnceKey False)" "tls_inv self N" for self N
  by unfold_locales (auto intro: tls_inv_step tls_inv_init)

interpretation tls: act_only "tls_thread self" for self
proof
  show "tls_thread self i l \<noteq> Monitor m w b" for i l m w b by (cases "(self, i, l)" rule: tls_thread.cases) simp_all
qed

fun tls_left :: "tls_loc \<Rightarrow> nat" where
  "tls_left (OnceKey k) = (if k then 7 else 14)"
| "tls_left (MakeKey k) = (if k then 6 else 13)"
| "tls_left (GetSpecific k) = (if k then 5 else 12)"
| "tls_left (Malloc k) = 11"
| "tls_left (SetSpecific k p) = 10"
| "tls_left (Format k p) = 9"
| "tls_left (Scratch k p) = (if k then 4 else 8)"
| "tls_left (Touched p) = 3"
| "tls_left KeyDtor = 2"
| "tls_left (FreeBuf p) = 1"
| "tls_left Ended = 0"

lemma tls_left_step:
  assumes inv: "tls_inv self N s ls" and i: "i < length ls" and x: "(s', l') \<in> set (effects (tls_thread self i (ls ! i)) s)"
  shows "sum_list (map tls_left (ls[i := l'])) < sum_list (map tls_left ls)"
proof -
  have at: "tls_at (ts_once s) (ts_slot s i) (greeting (self i)) (ts_heap s (ts_slot s i)) (ls ! i)"
    using inv i unfolding tls_inv_def by blast
  have "tls_left l' < tls_left (ls ! i)"
  proof (cases "ls ! i")
    case (Scratch k p)
    then show ?thesis using x at by (cases k) auto
  qed (use x at in \<open>auto split: once_flag.split_asm if_split_asm\<close>)
  then show ?thesis using sum_list_split [OF i, of tls_left] by (metis add_less_cancel_left)
qed


text \<open>C36: every thread has a buffer of its own. The program stops after at most 14 steps per thread; no thread ever appends to
  a buffer that has been freed or beyond its 64 bytes, for whatever numbers \<open>pthread_self\<close> gives; and when nothing
  moves any more the key has been made once, every thread has printed its own greeting, untouched and touched, and every buffer
  that was allocated has been freed exactly once, by the destructor.\<close>

theorem tls_buffers_private:
  assumes "run (step (tls_thread self)) (tls_start N) es = Some c" "\<And>i. self i < 2 ^ 64" "0 < N"
  shows "length es \<le> 14 * N \<and>
    (\<forall>i<N. \<forall>p. locs c ! i = Scratch True p \<longrightarrow> p \<notin> set (ts_freed (shared c)) \<and> length (ts_heap (shared c) p @ touched) < 64) \<and>
    (stuck (tls_thread self) c \<longrightarrow> all_fin (tls_thread self) c \<and> ts_keys (shared c) = 1 \<and>
      (\<forall>i<N. map snd (filter (\<lambda>l. fst l = i) (ts_out (shared c))) = [greeting (self i), greeting (self i) @ touched]) \<and>
      distinct (ts_freed (shared c)) \<and> set (ts_freed (shared c)) = {1..<ts_next (shared c)})"
proof (intro conjI allI impI)
  note r = run_reach [OF assms(1), unfolded tls_start_def]
  have inv: "tls_inv self N (shared c) (locs c)" by (rule tls.I_reach [OF r])
  have at: "tls_at (ts_once (shared c)) (ts_slot (shared c) i) (greeting (self i)) (ts_heap (shared c) (ts_slot (shared c) i)) (locs c ! i)"
    and own: "tls_owned (shared c) (locs c) i \<notin> set (ts_freed (shared c))"
    and lines: "map snd (filter (\<lambda>l. fst l = i) (ts_out (shared c))) = tls_lines (greeting (self i)) (locs c ! i)" if "i < N" for i
    using inv that unfolding tls_inv_def by blast+
  have "tls_inv self N (shared c) (locs c) \<and> length es + sum_list (map tls_left (locs c)) \<le> sum_list (map tls_left (locs (tls_start N)))"
    by (rule tls.act_run_bound [OF reach_refl assms(1) [unfolded tls_start_def], where J = "tls_inv self N" and pot = "\<lambda>s ls. sum_list (map tls_left ls)", folded tls_start_def])
      (auto intro: tls_inv_step tls_left_step tls_inv_init simp: tls_start_def start_def locs_def comp_def)
  then show "length es \<le> 14 * N" by (simp add: tls_start_def start_def locs_def comp_def sum_list_replicate)
  show "p \<notin> set (ts_freed (shared c))" "length (ts_heap (shared c) p @ touched) < 64" if "i < N" "locs c ! i = Scratch True p" for i p
    using at [OF that(1)] own [OF that(1)] that(2) greeting_fits(2) [OF assms(2)] by (auto simp: tls_owned_def simp del: nth_locs)
  assume st: "stuck (tls_thread self) c"
  have now: "tls_thread self i (locs c ! i) = Fin \<or> effects (tls_thread self i (locs c ! i)) (shared c) = []" if "i < N" for i
    using tls.act_stuck [OF r st, of i] that by simp
  have len: "length (locs c) = N" using inv by (simp add: tls_inv_def)
  have no_maker: "locs c ! i \<noteq> MakeKey k" if "i < N" for i k using now [OF that] by auto
  have "makers l = 0" if "l \<in> set (locs c)" for l using that no_maker len by (auto simp: in_set_conv_nth makers_def simp del: nth_locs)
  then have "ts_once (shared c) \<noteq> Running" using inv sum_list_map_zero [of "locs c" makers] by (auto simp: tls_inv_def)
  then have gone: "locs c ! i = Ended" if "i < N" for i
    using now [OF that] by (cases "(self, i, locs c ! i)" rule: tls_thread.cases) (auto split: once_flag.split_asm simp del: nth_locs)
  then show "all_fin (tls_thread self) c" by (intro tls.act_fin [OF r]) (simp del: nth_locs)
  show "map snd (filter (\<lambda>l. fst l = i) (ts_out (shared c))) = [greeting (self i), greeting (self i) @ touched]" if "i < N" for i
    using lines [OF that] gone [OF that] by simp
  show "ts_keys (shared c) = 1" using at [OF assms(3)] gone [OF assms(3)] inv by (simp add: tls_inv_def)
  show dist: "distinct (ts_freed (shared c))" using inv by (simp add: tls_inv_def)
  have all: "locs c = replicate N Ended" using gone len by (intro nth_equalityI) (simp_all del: nth_locs)
  have "card (set (ts_freed (shared c))) = card {1..<ts_next (shared c)}"
    using dist inv all by (simp add: tls_inv_def distinct_card ended_def sum_list_replicate)
  moreover have "set (ts_freed (shared c)) \<subseteq> {1..<ts_next (shared c)}" using inv by (auto simp: tls_inv_def)
  ultimately show "set (ts_freed (shared c)) = {1..<ts_next (shared c)}" by (intro card_subset_eq) simp_all
qed

definition tls_demo :: "(nat \<times> choice) list \<times> (tls_state, tls_loc) cfg" where
  "tls_demo = drive (tls_thread (\<lambda>i. 100 + i mod 8)) [0, 1] 40 (tls_start 2)"

lemma tls_demo: "all_finb (tls_thread (\<lambda>i. 100 + i mod 8)) (snd tls_demo)"
  by code_simp

theorem tls_buffers_private_witness: "ts_keys (shared (snd tls_demo)) = 1 \<and> length (fst tls_demo) \<le> 28"
proof -
  have run: "run (step (tls_thread (\<lambda>i. 100 + i mod 8))) (tls_start 2) (fst tls_demo) = Some (snd tls_demo)"
    unfolding tls_demo_def by (rule drive_run) simp
  have small: "100 + i mod 8 < (2 :: nat) ^ 64" for i :: nat by (rule less_le_trans [of _ 108]) simp_all
  show ?thesis
    using tls_buffers_private [OF run small] all_fin_stuck [OF iffD1 [OF all_finb tls_demo]] by simp
qed


subsection \<open>01_thread_local.cpp\<close>

text \<open>
  Every thread has its own \<open>calls\<close>; \<open>main\<close> is the thread after the \<open>N\<close> workers. The generator may give any number of
  the range. \<open>tv_returned\<close> is what \<open>join\<close> waits for.
\<close>

datatype tv_line = ThreadLine nat int int | MainLine int

record tv_state =
  tv_calls :: "nat \<Rightarrow> int"
  tv_sum :: "nat \<Rightarrow> int"
  tv_returned :: "nat \<Rightarrow> bool"
  tv_out :: "tv_line list"

datatype tv_cmd = RandIn int int | PrintSum | Returns | JoinThread nat | PrintCalls

fun tv_exec :: "nat \<Rightarrow> tv_cmd \<Rightarrow> tv_state \<Rightarrow> tv_state list" where
  "tv_exec t (RandIn lo hi) s = map (\<lambda>v. s\<lparr>tv_calls := (tv_calls s)(t := tv_calls s t + 1), tv_sum := (tv_sum s)(t := tv_sum s t + v)\<rparr>) [lo..hi]"
| "tv_exec t PrintSum s = [s\<lparr>tv_out := tv_out s @ [ThreadLine t (tv_sum s t) (tv_calls s t)]\<rparr>]"
| "tv_exec t Returns s = [s\<lparr>tv_returned := (tv_returned s)(t := True)\<rparr>]"
| "tv_exec t (JoinThread u) s = (if tv_returned s u then [s] else [])"
| "tv_exec t PrintCalls s = [s\<lparr>tv_out := tv_out s @ [MainLine (tv_calls s t)]\<rparr>]"

definition tv_worker :: "nat \<Rightarrow> tv_cmd list" where
  "tv_worker K = replicate K (RandIn 1 100) @ [PrintSum, Returns]"

definition tv_main :: "nat \<Rightarrow> tv_cmd list" where
  "tv_main N = map JoinThread [0..<N] @ [PrintCalls]"

definition tv_init :: tv_state where
  "tv_init = \<lparr>tv_calls = (\<lambda>_. 0), tv_sum = (\<lambda>_. 0), tv_returned = (\<lambda>_. False), tv_out = []\<rparr>"

definition tv_threads :: "nat \<Rightarrow> nat \<Rightarrow> tv_cmd list list" where
  "tv_threads N K = replicate N (tv_worker K) @ [tv_main N]"

definition tv_start :: "nat \<Rightarrow> nat \<Rightarrow> (tv_state, tv_cmd list) cfg" where
  "tv_start N K = start tv_init (tv_threads N K)"

definition thread_local_main :: "(tv_state, tv_cmd list) cfg" where
  "thread_local_main = tv_start 4 5"

text \<open>Where a worker and \<open>main\<close> are, and what they have printed by then.\<close>

fun by_thread :: "nat \<Rightarrow> tv_line \<Rightarrow> bool" where
  "by_thread i (ThreadLine j v n) \<longleftrightarrow> j = i"
| "by_thread i (MainLine n) \<longleftrightarrow> False"

definition tv_worker_ok :: "nat \<Rightarrow> tv_state \<Rightarrow> nat \<Rightarrow> tv_cmd list \<Rightarrow> bool" where
  "tv_worker_ok K s i l \<longleftrightarrow> (\<exists>k v. k \<le> K \<and> tv_calls s i = int K - int k \<and> tv_sum s i = v \<and> int K - int k \<le> v \<and> v \<le> 100 * (int K - int k) \<and>
     (l = tv_worker k \<and> filter (by_thread i) (tv_out s) = [] \<and> \<not> tv_returned s i \<or>
      k = 0 \<and> filter (by_thread i) (tv_out s) = [ThreadLine i v (int K)] \<and> (l = [Returns] \<and> \<not> tv_returned s i \<or> l = [] \<and> tv_returned s i)))"

definition tv_main_ok :: "nat \<Rightarrow> tv_state \<Rightarrow> tv_cmd list \<Rightarrow> bool" where
  "tv_main_ok N s l \<longleftrightarrow> tv_calls s N = 0 \<and> ((\<exists>j\<le>N. l = map JoinThread [j..<N] @ [PrintCalls] \<and> (\<forall>u<j. tv_returned s u)) \<or>
     l = [] \<and> (\<forall>u<N. tv_returned s u) \<and> tv_out s \<noteq> [] \<and> last (tv_out s) = MainLine 0)"

definition tv_inv :: "nat \<Rightarrow> nat \<Rightarrow> tv_state \<Rightarrow> tv_cmd list list \<Rightarrow> bool" where
  "tv_inv N K s ls \<longleftrightarrow> length ls = Suc N \<and> (\<forall>i<N. tv_worker_ok K s i (ls ! i)) \<and> tv_main_ok N s (ls ! N)"

lemma tv_worker_Suc: "tv_worker (Suc k) = RandIn 1 100 # tv_worker k" "tv_worker 0 = [PrintSum, Returns]"
  by (simp_all add: tv_worker_def)

lemma tv_worker_ok_step:
  assumes ok: "tv_worker_ok K s i (c # cs)" and x: "s' \<in> set (tv_exec i c s)"
  shows "tv_worker_ok K s' i cs"
proof -
  from ok obtain k v where k: "k \<le> K" "tv_calls s i = int K - int k" "tv_sum s i = v" "int K - int k \<le> v" "v \<le> 100 * (int K - int k)"
    and l: "c # cs = tv_worker k \<and> filter (by_thread i) (tv_out s) = [] \<and> \<not> tv_returned s i \<or>
      k = 0 \<and> filter (by_thread i) (tv_out s) = [ThreadLine i v (int K)] \<and> c # cs = [Returns] \<and> \<not> tv_returned s i"
    unfolding tv_worker_ok_def by auto
  from l show ?thesis
  proof
    assume w: "c # cs = tv_worker k \<and> filter (by_thread i) (tv_out s) = [] \<and> \<not> tv_returned s i"
    show ?thesis
    proof (cases k)
      case 0
      then show ?thesis using w x k by (auto simp: tv_worker_ok_def tv_worker_Suc)
    next
      case (Suc m)
      then obtain d where d: "1 \<le> d" "d \<le> 100" "s' = s\<lparr>tv_calls := (tv_calls s)(i := tv_calls s i + 1), tv_sum := (tv_sum s)(i := tv_sum s i + d)\<rparr>"
        using w x by (auto simp: tv_worker_Suc)
      then show ?thesis unfolding tv_worker_ok_def using Suc w k
        by (intro exI [of _ m] exI [of _ "v + d"]) (auto simp: tv_worker_Suc)
    qed
  next
    assume "k = 0 \<and> filter (by_thread i) (tv_out s) = [ThreadLine i v (int K)] \<and> c # cs = [Returns] \<and> \<not> tv_returned s i"
    then show ?thesis using x k by (auto simp: tv_worker_ok_def)
  qed
qed

lemma tv_worker_ok_other:
  assumes "tv_worker_ok K s i l" "tv_calls s' i = tv_calls s i" "tv_sum s' i = tv_sum s i" "tv_returned s' i = tv_returned s i"
    "filter (by_thread i) (tv_out s') = filter (by_thread i) (tv_out s)"
  shows "tv_worker_ok K s' i l"
  using assms by (simp add: tv_worker_ok_def)

lemma tv_exec_other:
  assumes "s' \<in> set (tv_exec i c s)" "j \<noteq> i"
  shows "tv_calls s' j = tv_calls s j \<and> tv_sum s' j = tv_sum s j \<and> tv_returned s' j = tv_returned s j \<and> filter (by_thread j) (tv_out s') = filter (by_thread j) (tv_out s)"
  using assms by (cases c) (auto split: if_split_asm)

lemma tv_main_ok_step:
  assumes ok: "tv_main_ok N s (c # cs)" and x: "s' \<in> set (tv_exec N c s)"
  shows "tv_main_ok N s' cs \<and> tv_returned s' = tv_returned s \<and> tv_calls s' = tv_calls s \<and> tv_sum s' = tv_sum s \<and>
    (\<forall>i. filter (by_thread i) (tv_out s') = filter (by_thread i) (tv_out s))"
proof -
  from ok obtain j where j: "j \<le> N" "c # cs = map JoinThread [j..<N] @ [PrintCalls]" "\<forall>u<j. tv_returned s u" "tv_calls s N = 0"
    by (auto simp: tv_main_ok_def)
  show ?thesis
  proof (cases "j = N")
    case True
    then show ?thesis using j x by (auto simp: tv_main_ok_def)
  next
    case False
    then have "c = JoinThread j" "cs = map JoinThread [Suc j..<N] @ [PrintCalls]" using j by (simp_all add: upt_conv_Cons)
    then show ?thesis using j x False
      by (auto simp: tv_main_ok_def less_Suc_eq split: if_split_asm intro!: exI [of _ "Suc j"])
  qed
qed

lemma tv_inv_step:
  assumes inv: "tv_inv N K s ls" and i: "i < length ls" "ls ! i = c # cs" and x: "s' \<in> set (tv_exec i c s)"
  shows "tv_inv N K s' (ls[i := cs])"
proof (cases "i = N")
  case True
  then have "tv_main_ok N s (c # cs)" using inv i by (simp add: tv_inv_def)
  from tv_main_ok_step [OF this] x True show ?thesis
    using inv by (auto simp: tv_inv_def intro: tv_worker_ok_other)
next
  case False
  then have ok: "tv_worker_ok K s i (c # cs)" and iN: "i < N" using inv i by (auto simp: tv_inv_def less_Suc_eq)
  have "\<not> tv_returned s i" using ok by (auto simp: tv_worker_ok_def)
  then have "\<not> (ls ! N = [] \<and> tv_main_ok N s (ls ! N) )" using iN by (auto simp: tv_main_ok_def)
  moreover have "tv_returned s u \<Longrightarrow> tv_returned s' u" for u using tv_exec_other [OF x] x by (cases "u = i"; cases c) (auto split: if_split_asm)
  ultimately have "tv_main_ok N s' (ls ! N)"
    using inv tv_exec_other [OF x, of N] False by (auto simp: tv_inv_def tv_main_ok_def)
  moreover have "tv_worker_ok K s' j (ls[i := cs] ! j)" if "j < N" for j
  proof (cases "j = i")
    case True
    then show ?thesis using tv_worker_ok_step [OF ok x] i by simp
  next
    case False
    then show ?thesis using inv that tv_exec_other [OF x False] by (auto simp: tv_inv_def intro: tv_worker_ok_other)
  qed
  ultimately show ?thesis using inv False by (simp add: tv_inv_def)
qed

lemma tv_client: "script_invariant (once tv_exec) tv_init (tv_threads N K) (tv_inv N K)"
proof
  show "tv_inv N K tv_init (tv_threads N K)"
    by (auto simp: tv_inv_def tv_threads_def tv_init_def tv_main_ok_def tv_main_def tv_worker_ok_def nth_append intro!: exI [of _ K] exI [of _ "0 :: nat"])
qed (auto intro: tv_inv_step)

text \<open>each thread counts its own calls: when nothing moves any more every worker has printed one line with \<open>K\<close> calls and a
  sum between \<open>K\<close> and \<open>100 * K\<close>, and the last line is that of \<open>main\<close>, whose own counter is still 0.\<close>

theorem thread_local_counts:
  assumes "reach (step (script (once tv_exec))) (tv_start N K) c" "stuck (script (once tv_exec)) c"
  shows "all_fin (script (once tv_exec)) c \<and> last (tv_out (shared c)) = MainLine 0 \<and>
    (\<forall>i<N. \<exists>v. filter (by_thread i) (tv_out (shared c)) = [ThreadLine i v (int K)] \<and> int K \<le> v \<and> v \<le> 100 * int K)"
proof -
  note r = assms(1) [unfolded tv_start_def]
  have len: "length (tv_threads N K) = Suc N" by (simp add: tv_threads_def)
  have inv: "tv_inv N K (shared c) (locs c)" by (rule script_invariant.script_reach [OF tv_client r])
  have now: "locs c ! i = [] \<or> (\<exists>d ds. locs c ! i = d # ds \<and> tv_exec i d (shared c) = [])" if "i \<le> N" for i
    using script_stuckD [OF r assms(2), of i] len that by simp
  have gone: "locs c ! i = []" if "i < N" for i
  proof -
    have "tv_worker_ok K (shared c) i (locs c ! i)" using inv that by (simp add: tv_inv_def del: nth_locs)
    moreover have "tv_exec i d s \<noteq> []" if "tv_worker k = d # ds" for d ds k s using that by (cases k) (auto simp: tv_worker_Suc)
    ultimately show ?thesis using now [of i] that by (auto simp: tv_worker_ok_def simp del: nth_locs)
  qed
  have ret: "tv_returned (shared c) i" and line: "\<exists>v. filter (by_thread i) (tv_out (shared c)) = [ThreadLine i v (int K)] \<and> int K \<le> v \<and> v \<le> 100 * int K" if "i < N" for i
  proof -
    have "tv_worker_ok K (shared c) i (locs c ! i)" using inv that by (simp add: tv_inv_def del: nth_locs)
    then have "tv_worker_ok K (shared c) i []" by (simp only: gone [OF that])
    then show "tv_returned (shared c) i" "\<exists>v. filter (by_thread i) (tv_out (shared c)) = [ThreadLine i v (int K)] \<and> int K \<le> v \<and> v \<le> 100 * int K"
      by (auto simp: tv_worker_ok_def tv_worker_def)
  qed
  have ok: "tv_main_ok N (shared c) (locs c ! N)" using inv by (simp add: tv_inv_def del: nth_locs)
  have "locs c ! N = []"
  proof (rule ccontr)
    assume "locs c ! N \<noteq> []"
    then obtain d ds where d: "locs c ! N = d # ds" "tv_exec N d (shared c) = []" using now [of N] by auto
    then show False using ok ret by (auto simp: tv_main_ok_def Cons_eq_append_conv Cons_eq_map_conv upt_eq_Cons_conv split: if_split_asm simp del: nth_locs)
  qed
  then show ?thesis using ok gone line script_all_fin [OF r assms(2)] len by (auto simp: tv_main_ok_def less_Suc_eq simp del: nth_locs)
qed

end
