(* ===== verification/ForkJoin.thy ===== *)
theory ForkJoin
  imports OpenMP
begin

text \<open>
  Programs that create threads, let them print or compute, and join them: \<open>examples/01_pthreads/01_basics\<close>,
  \<open>examples/02_cpp11_threads/01_basics\<close> and the OpenMP regions that only print
  (\<open>examples/06_openmp/01_parallel.c\<close>, \<open>03_sections.c\<close>). Thread 0 is \<open>main\<close>. A thread that is created and joined at once
  is a function call; threads that run side by side interleave their lines, each keeping its own order.
\<close>

subsection \<open>Commands\<close>

text \<open>
  \<open>Begin\<close> waits for the creation of the thread, \<open>Return v\<close> ends it with a value that \<open>Join\<close> waits for. A printed line is
  its text and the numbers in it. Variables that are passed by reference are numbered.
\<close>

type_synonym line = "string \<times> int list"

record fj_state =
  fj_started :: "nat \<Rightarrow> bool"
  fj_result :: "nat \<Rightarrow> int option"
  fj_var :: "nat \<Rightarrow> int"
  fj_out :: "(nat \<times> line) list"

datatype fj_cmd =
    Begin
  | Print string "int list"
  | Return int
  | Spawn nat
  | Join nat
  | PrintResult string "int list" nat
  | Incr nat
  | SetVar nat int
  | PrintVar string "int list" nat

definition fj_say :: "nat \<Rightarrow> line \<Rightarrow> fj_state \<Rightarrow> fj_state" where
  "fj_say t l s = s\<lparr>fj_out := fj_out s @ [(t, l)]\<rparr>"

fun fj_exec :: "nat \<Rightarrow> fj_cmd \<Rightarrow> fj_state \<Rightarrow> fj_state list" where
  "fj_exec t Begin s = (if fj_started s t then [s] else [])"
| "fj_exec t (Print f vs) s = [fj_say t (f, vs) s]"
| "fj_exec t (Return v) s = [s\<lparr>fj_result := (fj_result s)(t := Some v)\<rparr>]"
| "fj_exec t (Spawn k) s = [s\<lparr>fj_started := (fj_started s)(k := True)\<rparr>]"
| "fj_exec t (Join k) s = (if fj_result s k = None then [] else [s])"
| "fj_exec t (PrintResult f vs k) s = (case fj_result s k of None \<Rightarrow> [] | Some v \<Rightarrow> [fj_say t (f, vs @ [v]) s])"
| "fj_exec t (Incr x) s = [s\<lparr>fj_var := (fj_var s)(x := fj_var s x + 1)\<rparr>]"
| "fj_exec t (SetVar x v) s = [s\<lparr>fj_var := (fj_var s)(x := v)\<rparr>]"
| "fj_exec t (PrintVar f vs x) s = [fj_say t (f, vs @ [fj_var s x]) s]"

definition fj_init :: fj_state where
  "fj_init = \<lparr>fj_started = (\<lambda>_. False), fj_result = (\<lambda>_. None), fj_var = (\<lambda>_. 0), fj_out = []\<rparr>"

definition fj_threads :: "nat \<Rightarrow> (nat \<Rightarrow> fj_cmd list) \<Rightarrow> fj_cmd list \<Rightarrow> fj_cmd list list" where
  "fj_threads n w ms = ms # map (\<lambda>k. Begin # w (Suc k)) [0..<n]"

definition fj_start :: "nat \<Rightarrow> (nat \<Rightarrow> fj_cmd list) \<Rightarrow> fj_cmd list \<Rightarrow> (fj_state, fj_cmd list) cfg" where
  "fj_start n w ms = start fj_init (fj_threads n w ms)"

subsection \<open>Created and joined at once\<close>

text \<open>The reference: the body of the thread is run where it is joined.\<close>

fun inline :: "(nat \<Rightarrow> fj_cmd list) \<Rightarrow> fj_cmd list \<Rightarrow> (nat \<times> fj_cmd) list" where
  "inline w [] = []"
| "inline w (Join k # cs) = (k, Begin) # map (Pair k) (w k) @ (0, Join k) # inline w cs"
| "inline w (c # cs) = (0, c) # inline w cs"

definition fj_seq :: "(nat \<times> fj_cmd) list \<Rightarrow> fj_state \<Rightarrow> fj_state" where
  "fj_seq cs s = foldl (\<lambda>s (t, c). hd (fj_exec t c s)) s cs"

lemma fj_seq_simps [simp]: "fj_seq [] s = s" "fj_seq ((t, c) # cs) s = fj_seq cs (hd (fj_exec t c s))"
  by (simp_all add: fj_seq_def)

fun body :: "fj_cmd list \<Rightarrow> bool" where
  "body [] = False"
| "body [Return v] = True"
| "body (Print f vs # cs) = body cs"
| "body (Incr x # cs) = body cs"
| "body (SetVar x v # cs) = body cs"
| "body (PrintVar f vs x # cs) = body cs"
| "body cs = False"

fun spawns :: "fj_cmd list \<Rightarrow> nat list" where
  "spawns [] = []"
| "spawns (Spawn k # cs) = k # spawns cs"
| "spawns (c # cs) = spawns cs"

text \<open>\<open>js\<close> are the threads that have been joined.\<close>

fun at_once :: "nat \<Rightarrow> nat set \<Rightarrow> fj_cmd list \<Rightarrow> bool" where
  "at_once n js [] = True"
| "at_once n js (Spawn k # Join l # cs) = (l = k \<and> 0 < k \<and> k \<le> n \<and> k \<notin> js \<and> at_once n (insert k js) cs)"
| "at_once n js (Print f vs # cs) = at_once n js cs"
| "at_once n js (PrintResult f vs k # cs) = (k \<in> js \<and> at_once n js cs)"
| "at_once n js (Incr x # cs) = at_once n js cs"
| "at_once n js (SetVar x v # cs) = at_once n js cs"
| "at_once n js (PrintVar f vs x # cs) = at_once n js cs"
| "at_once n js cs = False"

text \<open>
  The state of the program: \<open>js\<close> have been joined; either no thread runs beside \<open>main\<close>, or \<open>main\<close> waits for
  thread \<open>k\<close>, which still has \<open>cs\<close> to do.
\<close>

definition idle :: "nat \<Rightarrow> (nat \<Rightarrow> fj_cmd list) \<Rightarrow> nat set \<Rightarrow> fj_state \<Rightarrow> fj_cmd list list \<Rightarrow> nat \<Rightarrow> bool" where
  "idle n w js s ls j \<longleftrightarrow> (if j \<in> js then ls ! j = [] \<and> fj_result s j \<noteq> None
     else ls ! j = Begin # w j \<and> \<not> fj_started s j \<and> fj_result s j = None)"

definition fj_inv :: "nat \<Rightarrow> (nat \<Rightarrow> fj_cmd list) \<Rightarrow> fj_state \<Rightarrow> fj_state \<Rightarrow> fj_cmd list list \<Rightarrow> bool" where
  "fj_inv n w final s ls \<longleftrightarrow> length ls = Suc n \<and> (\<exists>js \<subseteq> {1..n}.
     (at_once n js (ls ! 0) \<and> (\<forall>j\<in>{1..n}. idle n w js s ls j) \<and> fj_seq (inline w (ls ! 0)) s = final) \<or>
     (\<exists>k ms cs. ls ! 0 = Join k # ms \<and> 0 < k \<and> k \<le> n \<and> k \<notin> js \<and> at_once n (insert k js) ms \<and> (\<forall>j\<in>{1..n} - {k}. idle n w js s ls j) \<and>
       fj_started s k \<and> ls ! k = cs \<and> (cs = Begin # w k \<or> body cs \<or> cs = []) \<and> (fj_result s k \<noteq> None \<longleftrightarrow> cs = []) \<and>
       fj_seq (map (Pair k) cs @ (0, Join k) # inline w ms) s = final))"


lemma fj_exec_det: "s' \<in> set (fj_exec t c s) \<Longrightarrow> hd (fj_exec t c s) = s'"
  by (cases c) (auto split: if_splits option.splits)

lemma fj_exec_other:
  assumes "s' \<in> set (fj_exec t c s)" "j \<noteq> t"
  shows "fj_result s' j = fj_result s j" "(\<And>k. c \<noteq> Spawn k) \<Longrightarrow> fj_started s' = fj_started s"
  using assms by (cases c; auto simp: fj_say_def split: if_split_asm option.split_asm)+

lemma fj_exec_main:
  assumes "s' \<in> set (fj_exec t c s)" "\<And>k. c \<noteq> Spawn k" "\<And>v. c \<noteq> Return v"
  shows "fj_result s' = fj_result s" "fj_started s' = fj_started s"
  using assms by (cases c; auto simp: fj_say_def split: if_split_asm option.split_asm)+

lemma idle_keep:
  "idle n w js s ls j \<Longrightarrow> ls' ! j = ls ! j \<Longrightarrow> fj_result s' j = fj_result s j \<Longrightarrow> fj_started s' j = fj_started s j \<Longrightarrow> idle n w js s' ls' j"
  by (simp add: idle_def)

lemma idle_blocked: "idle n w js s ls j \<Longrightarrow> ls ! j = c # cs \<Longrightarrow> fj_exec j c s = []"
  by (auto simp: idle_def split: if_split_asm)

lemma body_Cons: "body (c # cs) \<Longrightarrow> (\<exists>v. c = Return v \<and> cs = []) \<or> body cs \<and> (\<forall>v. c \<noteq> Return v) \<and> (\<forall>k. c \<noteq> Spawn k)"
  by (cases c; cases cs) auto

lemma at_once_Cons:
  assumes "at_once n js (c # cs)"
  shows "(\<exists>k ms. c = Spawn k \<and> cs = Join k # ms \<and> 0 < k \<and> k \<le> n \<and> k \<notin> js \<and> at_once n (insert k js) ms) \<or>
    at_once n js cs \<and> (\<forall>k. c \<noteq> Spawn k) \<and> (\<forall>k. c \<noteq> Join k) \<and> (\<forall>v. c \<noteq> Return v) \<and> c \<noteq> Begin"
  using assms by (cases "(n, js, c # cs)" rule: at_once.cases) auto

lemma inline_Cons: "(\<And>k. c \<noteq> Join k) \<Longrightarrow> inline w (c # cs) = (0, c) # inline w cs"
  by (cases c) auto

lemma fj_inv_alone:
  assumes js: "js \<subseteq> {1..n}" and at: "at_once n js (ls ! 0)" and idle: "\<forall>j\<in>{1..n}. idle n w js s ls j" and fin: "fj_seq (inline w (ls ! 0)) s = final"
    and len: "length ls = Suc n" and i: "i < length ls" "ls ! i = c # cs" and x: "s' \<in> set (fj_exec i c s)"
  shows "fj_inv n w final s' (ls[i := cs])"
proof -
  have i0: "i = 0"
  proof (rule ccontr)
    assume "i \<noteq> 0"
    then have "idle n w js s ls i" using idle i len by auto
    then show False using idle_blocked i(2) x by fastforce
  qed
  note hd = fj_exec_det [OF x]
  have "at_once n js (c # cs)" using at i(2) i0 by simp
  from at_once_Cons [OF this] show ?thesis
  proof (elim disjE exE conjE)
    fix k ms assume c: "c = Spawn k" "cs = Join k # ms" and k: "0 < k" "k \<le> n" "k \<notin> js" "at_once n (insert k js) ms"
    have s': "s' = s\<lparr>fj_started := (fj_started s)(k := True)\<rparr>" using x c by simp
    have "idle n w js s ls k" using idle k by auto
    then have w: "ls ! k = Begin # w k" "fj_result s k = None" using k by (simp_all add: idle_def)
    have "\<forall>j\<in>{1..n} - {k}. idle n w js s' (ls[0 := cs]) j" using idle s' by (auto intro: idle_keep)
    moreover have "fj_seq (map (Pair k) (Begin # w k) @ (0, Join k) # inline w ms) s' = final"
      using fin i(2) i0 c s' by simp
    ultimately have "ls[0 := cs] ! 0 = Join k # ms \<and> 0 < k \<and> k \<le> n \<and> k \<notin> js \<and> at_once n (insert k js) ms \<and> (\<forall>j\<in>{1..n} - {k}. idle n w js s' (ls[0 := cs]) j) \<and>
       fj_started s' k \<and> ls[0 := cs] ! k = Begin # w k \<and> (Begin # w k = Begin # w k \<or> body (Begin # w k) \<or> Begin # w k = []) \<and> (fj_result s' k \<noteq> None \<longleftrightarrow> Begin # w k = []) \<and>
       fj_seq (map (Pair k) (Begin # w k) @ (0, Join k) # inline w ms) s' = final" using c k w s' len by simp
    then show ?thesis unfolding fj_inv_def i0 using js len by (metis length_list_update)
  next
    assume a: "at_once n js cs" "\<forall>k. c \<noteq> Spawn k" "\<forall>k. c \<noteq> Join k" "\<forall>v. c \<noteq> Return v"
    have "\<forall>j\<in>{1..n}. idle n w js s' (ls[0 := cs]) j"
      using idle fj_exec_main [OF x] a by (auto intro: idle_keep)
    moreover have "fj_seq (inline w cs) s' = final" using fin i(2) i0 hd a by (simp add: inline_Cons)
    ultimately show ?thesis unfolding fj_inv_def i0 using js len a(1) by (intro conjI exI [of _ js] disjI1) simp_all
  qed
qed

lemma fj_inv_beside:
  assumes js: "js \<subseteq> {1..n}" and m: "ls ! 0 = Join k # ms" "0 < k" "k \<le> n" "k \<notin> js" "at_once n (insert k js) ms"
    and idle: "\<forall>j\<in>{1..n} - {k}. idle n w js s ls j"
    and k: "fj_started s k" "ls ! k = ks" "ks = Begin # w k \<or> body ks \<or> ks = []" "fj_result s k \<noteq> None \<longleftrightarrow> ks = []"
    and fin: "fj_seq (map (Pair k) ks @ (0, Join k) # inline w ms) s = final" and w: "body (w k)"
    and len: "length ls = Suc n" and i: "i < length ls" "ls ! i = c # cs" and x: "s' \<in> set (fj_exec i c s)"
  shows "fj_inv n w final s' (ls[i := cs])"
proof -
  have "i = 0 \<or> i = k"
  proof (rule ccontr)
    assume "\<not> (i = 0 \<or> i = k)"
    then have "idle n w js s ls i" using idle i len by auto
    then show False using idle_blocked i(2) x by fastforce
  qed
  then show ?thesis
  proof
    assume i0: "i = 0"
    then have c: "c = Join k" "cs = ms" "s' = s" "fj_result s k \<noteq> None" using i m x by (auto split: if_split_asm)
    then have ks: "ks = []" using k by simp
    have "\<forall>j\<in>{1..n}. idle n w (insert k js) s' (ls[0 := cs]) j"
    proof
      fix j assume "j \<in> {1..n}"
      then show "idle n w (insert k js) s' (ls[0 := cs]) j"
        using idle k ks c by (cases "j = k") (auto simp: idle_def)
    qed
    moreover have "fj_seq (inline w cs) s' = final" using fin ks c by simp
    ultimately show ?thesis unfolding fj_inv_def i0 using js len m c by (intro conjI exI [of _ "insert k js"] disjI1) simp_all
  next
    assume ik: "i = k"
    then have ks: "ks = c # cs" using i k by simp
    have hd: "hd (fj_exec k c s) = s'" using fj_exec_det [OF x] ik by simp
    have new: "(body cs \<or> cs = []) \<and> fj_started s' k \<and> (fj_result s' k \<noteq> None \<longleftrightarrow> cs = []) \<and> fj_started s' = fj_started s"
    proof (cases "ks = Begin # w k")
      case True
      then have "s' = s" using ks x ik by (auto split: if_split_asm)
      then show ?thesis using True ks w k by (cases "w k") auto
    next
      case False
      then have "body (c # cs)" using k ks False by auto
      from body_Cons [OF this] show ?thesis
      proof (elim disjE exE conjE)
        fix v assume "c = Return v" "cs = []"
        then show ?thesis using x k ik by simp
      next
        assume b: "body cs" "\<forall>v. c \<noteq> Return v" "\<forall>k. c \<noteq> Spawn k"
        then have "cs \<noteq> []" by auto
        then show ?thesis using fj_exec_main [OF x] b k ks by simp
      qed
    qed
    have others: "\<forall>j\<in>{1..n} - {k}. idle n w js s' (ls[k := cs]) j"
      using idle fj_exec_other(1) [OF x] new ik by (auto intro: idle_keep)
    have "ls[k := cs] ! 0 = Join k # ms \<and> 0 < k \<and> k \<le> n \<and> k \<notin> js \<and> at_once n (insert k js) ms \<and> (\<forall>j\<in>{1..n} - {k}. idle n w js s' (ls[k := cs]) j) \<and>
       fj_started s' k \<and> ls[k := cs] ! k = cs \<and> (cs = Begin # w k \<or> body cs \<or> cs = []) \<and> (fj_result s' k \<noteq> None \<longleftrightarrow> cs = []) \<and>
       fj_seq (map (Pair k) cs @ (0, Join k) # inline w ms) s' = final"
      using m new others fin ks hd len k(1) by simp
    then show ?thesis unfolding fj_inv_def ik using js len by (metis length_list_update)
  qed
qed

lemma fj_client:
  assumes "at_once n {} ms" "\<And>k. 0 < k \<Longrightarrow> k \<le> n \<Longrightarrow> body (w k)"
  shows "script_invariant (once fj_exec) fj_init (fj_threads n w ms) (fj_inv n w (fj_seq (inline w ms) fj_init))"
proof
  have "idle n w {} fj_init (fj_threads n w ms) j" if "j \<in> {1..n}" for j
    using that by (auto simp: idle_def fj_init_def fj_threads_def nth_Cons')
  then show "fj_inv n w (fj_seq (inline w ms) fj_init) fj_init (fj_threads n w ms)"
    unfolding fj_inv_def using assms(1) by (intro conjI exI [of _ "{}"] disjI1) (simp_all add: fj_threads_def)
next
  fix s ls i c cs s' ds
  assume inv: "fj_inv n w (fj_seq (inline w ms) fj_init) s ls" and i: "i < length ls" "ls ! i = c # cs" and "(s', ds) \<in> set (once fj_exec i c s)"
  then have x: "s' \<in> set (fj_exec i c s)" and ds: "ds = []" by simp_all
  have "fj_inv n w (fj_seq (inline w ms) fj_init) s' (ls[i := cs])"
  proof -
    from inv obtain js where len: "length ls = Suc n" and js: "js \<subseteq> {1..n}"
      and alt: "at_once n js (ls ! 0) \<and> (\<forall>j\<in>{1..n}. idle n w js s ls j) \<and> fj_seq (inline w (ls ! 0)) s = fj_seq (inline w ms) fj_init \<or>
        (\<exists>k ks. ls ! 0 = Join k # ks \<and> 0 < k \<and> k \<le> n \<and> k \<notin> js \<and> at_once n (insert k js) ks \<and> (\<forall>j\<in>{1..n} - {k}. idle n w js s ls j) \<and>
          fj_started s k \<and> (ls ! k = Begin # w k \<or> body (ls ! k) \<or> ls ! k = []) \<and> (fj_result s k \<noteq> None \<longleftrightarrow> ls ! k = []) \<and>
          fj_seq (map (Pair k) (ls ! k) @ (0, Join k) # inline w ks) s = fj_seq (inline w ms) fj_init)"
      unfolding fj_inv_def by metis
    from alt show ?thesis
    proof
      assume "at_once n js (ls ! 0) \<and> (\<forall>j\<in>{1..n}. idle n w js s ls j) \<and> fj_seq (inline w (ls ! 0)) s = fj_seq (inline w ms) fj_init"
      then show ?thesis using fj_inv_alone [OF js _ _ _ len i x] by blast
    next
      assume "\<exists>k ks. ls ! 0 = Join k # ks \<and> 0 < k \<and> k \<le> n \<and> k \<notin> js \<and> at_once n (insert k js) ks \<and> (\<forall>j\<in>{1..n} - {k}. idle n w js s ls j) \<and>
          fj_started s k \<and> (ls ! k = Begin # w k \<or> body (ls ! k) \<or> ls ! k = []) \<and> (fj_result s k \<noteq> None \<longleftrightarrow> ls ! k = []) \<and>
          fj_seq (map (Pair k) (ls ! k) @ (0, Join k) # inline w ks) s = fj_seq (inline w ms) fj_init"
      then obtain k ks where B: "ls ! 0 = Join k # ks" "0 < k" "k \<le> n" "k \<notin> js" "at_once n (insert k js) ks" "\<forall>j\<in>{1..n} - {k}. idle n w js s ls j"
          "fj_started s k" "ls ! k = Begin # w k \<or> body (ls ! k) \<or> ls ! k = []" "fj_result s k \<noteq> None \<longleftrightarrow> ls ! k = []"
          "fj_seq (map (Pair k) (ls ! k) @ (0, Join k) # inline w ks) s = fj_seq (inline w ms) fj_init" by blast
      show ?thesis by (rule fj_inv_beside [OF js B(1-7) refl B(8-10) assms(2) [OF B(2,3)] len i x])
    qed
  qed
  then show "fj_inv n w (fj_seq (inline w ms) fj_init) s' (ls[i := ds @ cs])" using ds by simp
qed


text \<open>
  Of all schedules there is only one outcome, that of the sequential program, and \<open>main\<close> is at its end in
  every state in which nothing moves.
\<close>

lemma fj_stuck:
  assumes r: "reach (step (script (once fj_exec))) (fj_start n w ms) c" and st: "stuck (script (once fj_exec)) c"
    and ms: "at_once n {} ms" "\<And>k. 0 < k \<Longrightarrow> k \<le> n \<Longrightarrow> body (w k)"
  shows "locs c ! 0 = [] \<and> shared c = fj_seq (inline w ms) fj_init"
proof -
  note r' = r [unfolded fj_start_def]
  have len: "length (fj_threads n w ms) = Suc n" by (simp add: fj_threads_def)
  have now: "locs c ! i = [] \<or> (\<exists>d ds. locs c ! i = d # ds \<and> fj_exec i d (shared c) = [])" if "i \<le> n" for i
    using script_stuckD [OF r' st, of i] len that by simp
  have inv: "fj_inv n w (fj_seq (inline w ms) fj_init) (shared c) (locs c)"
    by (rule script_invariant.script_reach [OF fj_client [OF ms] r'])
  then obtain js where js: "js \<subseteq> {1..n}" and alt: "at_once n js (locs c ! 0) \<and> (\<forall>j\<in>{1..n}. idle n w js (shared c) (locs c) j) \<and>
      fj_seq (inline w (locs c ! 0)) (shared c) = fj_seq (inline w ms) fj_init \<or>
      (\<exists>k ks. locs c ! 0 = Join k # ks \<and> k \<le> n \<and> fj_started (shared c) k \<and> (locs c ! k = Begin # w k \<or> body (locs c ! k) \<or> locs c ! k = []) \<and>
        (fj_result (shared c) k \<noteq> None \<longleftrightarrow> locs c ! k = []))"
    unfolding fj_inv_def by metis
  from alt show ?thesis
  proof
    assume a: "at_once n js (locs c ! 0) \<and> (\<forall>j\<in>{1..n}. idle n w js (shared c) (locs c) j) \<and>
      fj_seq (inline w (locs c ! 0)) (shared c) = fj_seq (inline w ms) fj_init"
    have "locs c ! 0 = []"
    proof (rule ccontr)
      assume "locs c ! 0 \<noteq> []"
      then obtain d ds where d: "locs c ! 0 = d # ds" "fj_exec 0 d (shared c) = []" using now [of 0] by auto
      have "\<forall>k\<in>js. fj_result (shared c) k \<noteq> None"
      proof
        fix k assume "k \<in> js"
        have "idle n w js (shared c) (locs c) k" using a \<open>k \<in> js\<close> js by blast
        then show "fj_result (shared c) k \<noteq> None" using \<open>k \<in> js\<close> by (simp add: idle_def)
      qed
      then show False using a d by (cases "(n, js, d # ds)" rule: at_once.cases) (auto split: option.split_asm simp del: nth_locs)
    qed
    then show ?thesis using a by (simp del: nth_locs)
  next
    assume "\<exists>k ks. locs c ! 0 = Join k # ks \<and> k \<le> n \<and> fj_started (shared c) k \<and> (locs c ! k = Begin # w k \<or> body (locs c ! k) \<or> locs c ! k = []) \<and>
        (fj_result (shared c) k \<noteq> None \<longleftrightarrow> locs c ! k = [])"
    then obtain k ks where k: "locs c ! 0 = Join k # ks" "k \<le> n" "fj_started (shared c) k" "locs c ! k = Begin # w k \<or> body (locs c ! k) \<or> locs c ! k = []"
        "fj_result (shared c) k \<noteq> None \<longleftrightarrow> locs c ! k = []" by blast
    have "fj_result (shared c) k = None" using now [of 0] k(1) by (auto split: if_split_asm simp del: nth_locs)
    then obtain d ds where d: "locs c ! k = d # ds" "fj_exec k d (shared c) = []" using now [OF k(2)] k(5) by auto
    have False using d k(3,4) by (cases "d # ds" rule: body.cases) (auto simp del: nth_locs)
    then show ?thesis ..
  qed
qed


subsection \<open>Side by side\<close>

text \<open>What a command adds to the output does not depend on the other threads, when it prints no variable.\<close>

fun fj_lines :: "fj_cmd list \<Rightarrow> line list" where
  "fj_lines [] = []"
| "fj_lines (Print f vs # cs) = (f, vs) # fj_lines cs"
| "fj_lines (c # cs) = fj_lines cs"

fun literal :: "fj_cmd \<Rightarrow> bool" where
  "literal (PrintResult f vs k) = False"
| "literal (PrintVar f vs x) = False"
| "literal c = True"

definition fj_output :: "nat \<Rightarrow> fj_state \<Rightarrow> line list" where
  "fj_output i s = map snd (filter (\<lambda>l. fst l = i) (fj_out s))"

lemma fj_exec_lines:
  assumes "s' \<in> set (fj_exec t c s)"
  shows "i \<noteq> t \<Longrightarrow> fj_output i s' = fj_output i s" "literal c \<Longrightarrow> fj_output t s' = fj_output t s @ fj_lines [c]"
  using assms by (cases c; auto simp: fj_output_def fj_say_def split: if_split_asm option.split_asm)+

lemma fj_lines_Cons: "fj_lines (c # cs) = fj_lines [c] @ fj_lines cs"
  by (cases c) simp_all

lemma fj_lines_reach:
  assumes r: "reach (step (script (once fj_exec))) (start fj_init ps) c" and i: "i < length ps" "\<forall>c\<in>set (ps ! i). literal c"
  shows "fj_output i (shared c) @ fj_lines (locs c ! i) = fj_lines (ps ! i)"
proof -
  let ?I = "\<lambda>s ls. i < length ls \<and> (\<forall>c\<in>set (ls ! i). literal c) \<and> fj_output i s @ fj_lines (ls ! i) = fj_lines (ps ! i)"
  have "script_invariant (once fj_exec) fj_init ps ?I"
  proof
    show "?I fj_init ps" using i by (simp add: fj_output_def fj_init_def)
  next
    fix s ls j c cs s' ds assume inv: "?I s ls" and j: "j < length ls" "ls ! j = c # cs" and "(s', ds) \<in> set (once fj_exec j c s)"
    then have x: "s' \<in> set (fj_exec j c s)" "ds = []" by simp_all
    show "?I s' (ls[j := ds @ cs])"
      using inv j x(2) fj_exec_lines [OF x(1)] fj_lines_Cons [of c cs] by (cases "j = i") auto
  qed
  from script_invariant.script_reach [OF this r] show ?thesis by (simp del: nth_locs)
qed

subsection \<open>The C and C++ basics\<close>

definition hello_worker :: "nat \<Rightarrow> fj_cmd list" where
  "hello_worker k = [Print ''[worker]  hello from the worker thread!'' [], Return 0]"

text \<open>\<open>rc\<close> is the result of \<open>pthread_create\<close>.\<close>

definition hello_main :: "int \<Rightarrow> fj_cmd list" where
  "hello_main rc = Print ''[main  ]  about to spawn a worker...'' [] #
     (if rc \<noteq> 0 then [Print ''pthread_create failed'' [rc]]
      else [Spawn 1, Join 1, Print ''[main  ]  worker has finished, exiting.'' []])"

text \<open>\<open>01_hello_thread.cpp\<close>; the identifiers that are printed are parameters.\<close>

definition hello_cpp_worker :: "int \<Rightarrow> nat \<Rightarrow> fj_cmd list" where
  "hello_cpp_worker tid k = [Print ''[worker] hello from thread '' [tid], Return 0]"

definition hello_cpp_main :: "int \<Rightarrow> int \<Rightarrow> fj_cmd list" where
  "hello_cpp_main mid cores = [Print ''[main  ] id='' [mid], Print ''[main  ] hardware_concurrency = '' [cores], Spawn 1, Join 1]"

text \<open>\<open>03_thread_return.c\<close>: \<open>thread_a\<close> returns its result, \<open>thread_b\<close> stores it in \<open>pkg.out\<close>, variable 0.\<close>

definition thread_a :: "int \<Rightarrow> fj_cmd list" where
  "thread_a n = [Return (n * n)]"

definition thread_b :: "int \<Rightarrow> fj_cmd list" where
  "thread_b n = [SetVar 0 (n * n * n), Return 0]"

definition return_worker :: "nat \<Rightarrow> fj_cmd list" where
  "return_worker k = (if k = 1 then thread_a 7 else thread_b 7)"

definition return_main :: "fj_cmd list" where
  "return_main = [Spawn 1, Join 1, PrintResult ''(A) n, n^2'' [7] 1, SetVar 0 0, Spawn 2, Join 2, PrintVar ''(B) n, n^3'' [7] 0]"

text \<open>\<open>02_thread_args.cpp\<close>: \<open>x\<close> is variable 0, \<open>y\<close> variable 1; the copy of \<open>x\<close> is made at the creation.\<close>

definition by_value :: "int \<Rightarrow> fj_cmd list" where
  "by_value n = [Print ''by_value n='' [n], Return 0]"

definition by_ref :: "nat \<Rightarrow> fj_cmd list" where
  "by_ref x = [Incr x, Return 0]"

definition many :: "int \<Rightarrow> fj_cmd list" where
  "many a = [Print ''many: s=hello b=3.14 a='' [a], Return 0]"

definition args_worker :: "nat \<Rightarrow> fj_cmd list" where
  "args_worker k = (if k = 1 then by_value 41 else if k = 2 then by_ref 0 else if k = 3 then many 7 else [SetVar 1 99, Return 0])"

definition args_main :: "fj_cmd list" where
  "args_main = [SetVar 0 41, Spawn 1, Join 1, Spawn 2, Join 2, PrintVar ''after t2 x='' [] 0, Spawn 3, Join 3,
     SetVar 1 0, Spawn 4, Join 4, PrintVar ''after t4 y='' [] 1]"

text \<open>\<open>02_thread_args.c\<close>: four threads at the same time, each with its own argument.\<close>

definition sum_loop :: "nat \<Rightarrow> int" where
  "sum_loop n = fold (\<lambda>i sum. sum + int i) [1..<Suc n] 0"

definition arg_n :: "nat \<Rightarrow> nat" where
  "arg_n i = (i + 1) * 10"

definition sum_worker :: "nat \<Rightarrow> fj_cmd list" where
  "sum_worker i = [Print ''id, n, sum(1..n)'' [int i, int (arg_n i), sum_loop (arg_n i)], Return 0]"

definition sum_main :: "nat \<Rightarrow> fj_cmd list" where
  "sum_main N = map Spawn [1..<Suc N] @ map Join [1..<Suc N]"

definition sum_start :: "nat \<Rightarrow> (fj_state, fj_cmd list) cfg" where
  "sum_start N = fj_start N (\<lambda>k. sum_worker (k - 1)) (sum_main N)"

definition thread_args_main :: "(fj_state, fj_cmd list) cfg" where
  "thread_args_main = sum_start 4"

text \<open>\<open>04_thread_join.c\<close> and \<open>03_join_detach.cpp\<close>: the last thread is detached and never joined.\<close>

definition joinable_fn :: "fj_cmd list" where
  "joinable_fn = [Print ''    [joinable] doing work...'' [], Print ''    [joinable] done'' [], Return 0xCAFE]"

definition detached_fn :: "fj_cmd list" where
  "detached_fn = map (\<lambda>i. Print ''    [detached] tick'' [int i]) [0..<3] @ [Print ''    [detached] exiting (cleans itself up)'' [], Return 0]"

definition join_worker :: "nat \<Rightarrow> fj_cmd list" where
  "join_worker k = (if k = 1 then joinable_fn else detached_fn)"

definition join_main :: "fj_cmd list" where
  "join_main = [Spawn 1, Join 1, PrintResult ''[main] joinable returned'' [] 1, Spawn 2, Print ''[main] sleeping while detached thread runs...'' [], Print ''[main] exiting'' []]"

definition task :: "string \<Rightarrow> fj_cmd list" where
  "task name = [Print (''    ['' @ name @ ''] done'') [], Return 0]"

definition detach_worker :: "nat \<Rightarrow> fj_cmd list" where
  "detach_worker k = task (if k = 1 then ''plain'' else if k = 2 then ''raii'' else ''detached'')"

text \<open>Class \<open>joiner\<close>: the destructor of the guard joins thread \<open>t\<close> when its scope has ended.\<close>

definition joiner :: "nat \<Rightarrow> fj_cmd list \<Rightarrow> fj_cmd list" where
  "joiner t scope = scope @ [Join t]"

declare joiner_def [simp]

definition detach_main :: "fj_cmd list" where
  "detach_main = [Spawn 1, Join 1, Spawn 2] @ joiner 2 [] @ [Spawn 3, Print ''[main] exiting'' []]"

text \<open>The four programs that join every thread at once.\<close>

definition sequential_basics :: "int \<Rightarrow> int \<Rightarrow> int \<Rightarrow> int \<Rightarrow> (nat \<times> (nat \<Rightarrow> fj_cmd list) \<times> fj_cmd list) list" where
  "sequential_basics rc mid tid cores = [(1, hello_worker, hello_main rc), (1, hello_cpp_worker tid, hello_cpp_main mid cores),
     (2, return_worker, return_main), (4, args_worker, args_main)]"

lemma sum_loop: "2 * sum_loop n = int n * (int n + 1)"
  unfolding sum_loop_def by (induction n) (simp_all add: algebra_simps)

text \<open>C37: a thread that is joined where it is created is a function call: whatever the schedule, each of the basic programs
  that do so stops with \<open>main\<close> at its end, and its output, its variables and its results are those of the program in which
  the body of the thread is executed at the place of the join.\<close>

theorem joined_at_once_sequential:
  assumes "(n, w, ms) \<in> set (sequential_basics rc mid tid cores)"
    and "run (step (script (once fj_exec))) (fj_start n w ms) es = Some c"
  shows "length es \<le> 4 * sum_list (map length (fj_threads n w ms)) + 2 * Suc n + 3 * spurs es \<and>
    (stuck (script (once fj_exec)) c \<longrightarrow> locs c ! 0 = [] \<and> shared c = fj_seq (inline w ms) fj_init)"
proof (intro conjI impI)
  have ok: "at_once n {} ms \<and> (\<forall>k. 0 < k \<and> k \<le> n \<longrightarrow> body (w k))"
    using assms(1)
    by (auto simp: sequential_basics_def hello_worker_def hello_main_def hello_cpp_worker_def hello_cpp_main_def return_worker_def return_main_def
      thread_a_def thread_b_def args_worker_def args_main_def by_value_def by_ref_def many_def)
  show "length es \<le> 4 * sum_list (map length (fj_threads n w ms)) + 2 * Suc n + 3 * spurs es"
    using once_bounded [OF assms(2) [unfolded fj_start_def]] by (simp add: fj_threads_def)
  assume "stuck (script (once fj_exec)) c"
  from fj_stuck [OF run_reach [OF assms(2)] this] ok
  show "locs c ! 0 = []" "shared c = fj_seq (inline w ms) fj_init" by simp_all
qed

definition return_demo :: "(nat \<times> choice) list \<times> (fj_state, fj_cmd list) cfg" where
  "return_demo = drive (script (once fj_exec)) [2, 1, 0] 40 (fj_start 2 return_worker return_main)"

lemma return_demo: "all_finb (script (once fj_exec)) (snd return_demo)"
  by code_simp

theorem joined_at_once_sequential_witness:
  "fj_out (shared (snd return_demo)) = [(0, (''(A) n, n^2'', [7, 49])), (0, (''(B) n, n^3'', [7, 343]))]"
proof -
  have run: "run (step (script (once fj_exec))) (fj_start 2 return_worker return_main) (fst return_demo) = Some (snd return_demo)"
    unfolding return_demo_def by (rule drive_run) simp
  have "(2, return_worker, return_main) \<in> set (sequential_basics 0 0 0 0)" by (simp add: sequential_basics_def)
  from joined_at_once_sequential [OF this run] all_fin_stuck [OF iffD1 [OF all_finb return_demo]]
  have "shared (snd return_demo) = fj_seq (inline return_worker return_main) fj_init" by blast
  moreover have "fj_out (fj_seq (inline return_worker return_main) fj_init) = [(0, (''(A) n, n^2'', [7, 49])), (0, (''(B) n, n^3'', [7, 343]))]"
    by code_simp
  ultimately show ?thesis by simp
qed

text \<open>threads side by side: each line of \<open>02_thread_args.c\<close> has the right sum, whatever the order of the lines.\<close>

theorem thread_args_lines:
  assumes "reach (step (script (once fj_exec))) (sum_start N) c" "all_fin (script (once fj_exec)) c" "i < N"
  shows "fj_output (Suc i) (shared c) = [(''id, n, sum(1..n)'', [int i, int (arg_n i), int (arg_n i) * (int (arg_n i) + 1) div 2])]"
proof -
  let ?ps = "fj_threads N (\<lambda>k. sum_worker (k - 1)) (sum_main N)"
  note r = assms(1) [unfolded sum_start_def fj_start_def]
  have "length (thr c) = Suc N" using reach_ok(4) [OF r] by (simp add: fj_threads_def)
  then have "locs c ! Suc i = []" using all_fin_nth [OF assms(2), of "Suc i"] assms(3) by simp
  moreover have "?ps ! Suc i = Begin # sum_worker i" using assms(3) by (simp add: fj_threads_def)
  moreover have "int (arg_n i) * (int (arg_n i) + 1) div 2 = sum_loop (arg_n i)" using sum_loop [of "arg_n i"] by linarith
  ultimately show ?thesis using fj_lines_reach [OF r, of "Suc i"] assms(3)
    by (simp add: fj_threads_def sum_worker_def del: nth_locs)
qed

subsection \<open>OpenMP regions\<close>

text \<open>
  \<open>01_parallel.c\<close> and \<open>03_sections.c\<close>. The threads of the team are there from the start; \<open>main\<close> prints its first line
  before and its last line after the region. The sections of the construct are the values of a type, and its enumeration
  is the order in which they stand in the text.
\<close>

definition parallel_body :: "nat \<Rightarrow> nat \<Rightarrow> fj_cmd list" where
  "parallel_body T t = [Print ''hello from thread'' [int t, int T]]"

definition parallel_start :: "nat \<Rightarrow> (fj_state, fj_cmd list) cfg" where
  "parallel_start T = start fj_init (map (parallel_body T) [0..<T])"

datatype omp_section = SectionA | SectionB | SectionC

instantiation omp_section :: enum
begin

definition enum_omp_section :: "omp_section list" where
  "enum_omp_section = [SectionA, SectionB, SectionC]"

definition enum_all_omp_section :: "(omp_section \<Rightarrow> bool) \<Rightarrow> bool" where
  "enum_all_omp_section P \<longleftrightarrow> P SectionA \<and> P SectionB \<and> P SectionC"

definition enum_ex_omp_section :: "(omp_section \<Rightarrow> bool) \<Rightarrow> bool" where
  "enum_ex_omp_section P \<longleftrightarrow> P SectionA \<or> P SectionB \<or> P SectionC"

instance
proof
  have UNIV_section: "(UNIV :: omp_section set) = {SectionA, SectionB, SectionC}" using omp_section.exhaust by auto
  show "(UNIV :: omp_section set) = set Enum.enum" by (simp add: enum_omp_section_def UNIV_section)
  show "distinct (Enum.enum :: omp_section list)" by (simp add: enum_omp_section_def)
  show "Enum.enum_all P \<longleftrightarrow> Ball UNIV P" "Enum.enum_ex P \<longleftrightarrow> Bex UNIV P" for P :: "omp_section \<Rightarrow> bool"
    by (simp_all add: enum_all_omp_section_def enum_ex_omp_section_def UNIV_section)
qed

end

definition section_lines :: "nat \<Rightarrow> omp_section \<Rightarrow> fj_cmd list" where
  "section_lines t x = (case x of
     SectionA \<Rightarrow> [Print ''A start'' [int t], Print ''A done'' []]
   | SectionB \<Rightarrow> [Print ''B start'' [int t], Print ''B done'' []]
   | SectionC \<Rightarrow> [Print ''C start'' [int t], Print ''C done'' []])"

definition sections_start :: "nat \<Rightarrow> (nat \<Rightarrow> omp_section list) \<Rightarrow> (fj_state, fj_cmd list) cfg" where
  "sections_start T sched = start fj_init (map (\<lambda>t. concat (map (section_lines t) (sched t))) [0..<T])"

text \<open>In a region that only prints, every thread prints its own lines in order, and all of them.\<close>

lemma region_lines:
  assumes r: "reach (step (script (once fj_exec))) (start fj_init (map f [0..<T])) c" and st: "stuck (script (once fj_exec)) c"
    and lit: "\<And>t d. t < T \<Longrightarrow> d \<in> set (f t) \<Longrightarrow> \<exists>g vs. d = Print g vs"
  shows "all_fin (script (once fj_exec)) c" "t < T \<Longrightarrow> fj_output t (shared c) = fj_lines (f t)"
proof -
  have all: "\<forall>t<T. set (locs c ! t) \<subseteq> set (f t)" "length (locs c) = T"
  proof -
    let ?I = "\<lambda>s ls. (\<forall>t<T. set (ls ! t) \<subseteq> set (f t)) \<and> length ls = T"
    have "script_invariant (once fj_exec) fj_init (map f [0..<T]) ?I"
    proof unfold_locales
      fix s ls i c cs s' ds
      assume I: "?I s ls" and i: "i < length ls" "ls ! i = c # cs" and "(s', ds) \<in> set (once fj_exec i c s)"
      moreover have "set cs \<subseteq> set (f i)" using I i by (metis dual_order.trans set_subset_Cons)
      ultimately show "?I s' (ls[i := ds @ cs])" by (simp add: nth_list_update)
    qed simp
    from script_invariant.script_reach [OF this r] show "\<forall>t<T. set (locs c ! t) \<subseteq> set (f t)" "length (locs c) = T" by (simp_all del: nth_locs)
  qed
  have fin: "locs c ! t = []" if t: "t < T" for t
  proof (rule ccontr)
    assume "locs c ! t \<noteq> []"
    then obtain d ds where d: "locs c ! t = d # ds" "fj_exec t d (shared c) = []" using script_stuckD [OF r st, of t] t by auto
    then have "d \<in> set (f t)" using all(1) t by fastforce
    then show False using lit [OF t] d(2) by fastforce
  qed
  then show "all_fin (script (once fj_exec)) c" using script_all_fin [OF r st] by simp
  have "\<forall>d\<in>set (f t). literal d" if "t < T" using lit [OF that] by fastforce
  then show "t < T \<Longrightarrow> fj_output t (shared c) = fj_lines (f t)" using fj_lines_reach [OF r, of t] fin by simp
qed

text \<open>each section is executed once, by the thread that the schedule gives it to, its first line before its last.\<close>

theorem sections_lines:
  assumes "reach (step (script (once fj_exec))) (sections_start T sched) c" "stuck (script (once fj_exec)) c" "t < T"
    and "is_schedule T Enum.enum sched"
  shows "all_fin (script (once fj_exec)) c \<and> fj_output t (shared c) = fj_lines (concat (map (section_lines t) (sched t))) \<and>
    (\<Union>t<T. set (sched t)) = UNIV"
proof -
  have "\<exists>g vs. d = Print g vs" if d: "d \<in> set (concat (map (section_lines t) (sched t)))" for t d
  proof -
    obtain x where "d \<in> set (section_lines t x)" using d by auto
    then show ?thesis by (cases x) (auto simp: section_lines_def)
  qed
  note lines = region_lines [OF assms(1) [unfolded sections_start_def] assms(2) this]
  show ?thesis using lines assms(3) schedule_set [OF assms(4)] by (simp add: enum_UNIV)
qed

end
