(* ===== verification/RecursiveLocks.thy ===== *)
theory RecursiveLocks
  imports Scripts
begin

text \<open>
  Mutexes that their owner may lock again: \<open>examples/01_pthreads/02_mutex/02_recursive_mutex.c\<close> and the class \<open>Tree\<close> of
  \<open>examples/02_cpp11_threads/02_mutex/05_recursive_mutex.cpp\<close>. The same programs with a normal mutex, whose second
  lock waits for itself, show what the recursive one is for.
\<close>

subsection \<open>The mutex\<close>

text \<open>The owner and how often it has locked; \<open>r\<close> says whether the mutex is recursive.\<close>

type_synonym rmutex = "(nat \<times> nat) option"

fun rm_lock :: "bool \<Rightarrow> nat \<Rightarrow> rmutex \<Rightarrow> rmutex list" where
  "rm_lock r t None = [Some (t, 1)]"
| "rm_lock r t (Some (u, d)) = (if r \<and> u = t then [Some (t, Suc d)] else [])"

fun rm_unlock :: "nat \<Rightarrow> rmutex \<Rightarrow> rmutex list" where
  "rm_unlock t (Some (u, d)) = (if u \<noteq> t then [] else if d = 1 then [None] else [Some (t, d - 1)])"
| "rm_unlock t None = []"

subsection \<open>The programs\<close>

text \<open>\<open>++count_\<close> is a load and a store; \<open>tr_seen t\<close> is what thread \<open>t\<close> has loaded.\<close>

record tree_state =
  tr_m :: rmutex
  tr_count :: int
  tr_seen :: "nat \<Rightarrow> int"
  tr_out :: "(nat \<times> string) list"

datatype tree_cmd = RLock | RUnlock | LoadCount | StoreCount | Say string

fun tree_exec :: "bool \<Rightarrow> nat \<Rightarrow> tree_cmd \<Rightarrow> tree_state \<Rightarrow> tree_state list" where
  "tree_exec r t RLock s = map (\<lambda>m. s\<lparr>tr_m := m\<rparr>) (rm_lock r t (tr_m s))"
| "tree_exec r t RUnlock s = map (\<lambda>m. s\<lparr>tr_m := m\<rparr>) (rm_unlock t (tr_m s))"
| "tree_exec r t LoadCount s = [s\<lparr>tr_seen := (tr_seen s)(t := tr_count s)\<rparr>]"
| "tree_exec r t StoreCount s = [s\<lparr>tr_count := tr_seen s t + 1\<rparr>]"
| "tree_exec r t (Say l) s = [s\<lparr>tr_out := tr_out s @ [(t, l)]\<rparr>]"

text \<open>\<open>Tree::recurse\<close>: the lock guard of a call is released when the call returns.\<close>

fun recurse :: "nat \<Rightarrow> tree_cmd list" where
  "recurse depth = [RLock, LoadCount, StoreCount] @ (case depth of 0 \<Rightarrow> [] | Suc d \<Rightarrow> recurse d) @ [RUnlock]"

declare recurse.simps [simp del]

definition tree_init :: tree_state where
  "tree_init = \<lparr>tr_m = None, tr_count = 0, tr_seen = (\<lambda>_. 0), tr_out = []\<rparr>"

definition tree_main :: "tree_cmd list list" where
  "tree_main = [recurse 5]"

definition inner :: "tree_cmd list" where
  "inner = [RLock, Say ''inner() locked (depth 2)'', RUnlock, Say ''inner() unlocked (depth 1)'']"

definition rlock_worker :: "tree_cmd list" where
  "rlock_worker = [RLock, Say ''worker() locked (depth 1)''] @ inner @ [RUnlock, Say ''worker() fully unlocked'']"

definition rlock_main :: "tree_cmd list list" where
  "rlock_main = [rlock_worker]"

definition tree_start :: "tree_cmd list list \<Rightarrow> (tree_state, tree_cmd list) cfg" where
  "tree_start ps = start tree_init ps"

subsection \<open>Well-nested scripts\<close>

text \<open>
  A script that is at depth \<open>d\<close>: it unlocks as often as it has locked, and touches the counter only under the mutex.
  \<open>paired b\<close>: a load is directly followed by its store, \<open>b\<close> if it has just been done.
\<close>

fun nested :: "nat \<Rightarrow> tree_cmd list \<Rightarrow> bool" where
  "nested d [] = (d = 0)"
| "nested d (RLock # cs) = nested (Suc d) cs"
| "nested d (RUnlock # cs) = (0 < d \<and> nested (d - 1) cs)"
| "nested d (LoadCount # cs) = (0 < d \<and> nested d cs)"
| "nested d (StoreCount # cs) = (0 < d \<and> nested d cs)"
| "nested d (Say l # cs) = nested d cs"

fun paired :: "bool \<Rightarrow> tree_cmd list \<Rightarrow> bool" where
  "paired b (LoadCount # cs) = (\<not> b \<and> paired True cs)"
| "paired b (StoreCount # cs) = (b \<and> paired False cs)"
| "paired b (c # cs) = (\<not> b \<and> paired False cs)"
| "paired b [] = (\<not> b)"

fun increments :: "tree_cmd list \<Rightarrow> nat" where
  "increments [] = 0"
| "increments (StoreCount # cs) = Suc (increments cs)"
| "increments (c # cs) = increments cs"

fun says :: "tree_cmd list \<Rightarrow> string list" where
  "says [] = []"
| "says (Say l # cs) = l # says cs"
| "says (c # cs) = says cs"

lemma increments_append [simp]: "increments (cs @ ds) = increments cs + increments ds"
  by (induction cs rule: increments.induct) auto

lemma nested_append: "nested d cs \<Longrightarrow> nested e ds \<Longrightarrow> nested (d + e) (cs @ ds)"
proof (induction d cs rule: nested.induct)
  case (3 d cs)
  then show ?case by (cases d) auto
qed simp_all

lemma paired_append: "paired b cs \<Longrightarrow> paired False ds \<Longrightarrow> paired b (cs @ ds)"
  by (induction b cs rule: paired.induct) simp_all

lemma recurse_ok: "nested 0 (recurse n)" "paired False (recurse n)" "increments (recurse n) = Suc n"
proof (induction n)
  case 0
  show "nested 0 (recurse 0)" "paired False (recurse 0)" "increments (recurse 0) = Suc 0" by (simp_all add: recurse.simps)
next
  case (Suc n)
  show "nested 0 (recurse (Suc n))" using nested_append [OF Suc(1), of 1 "[RUnlock]"] by (simp add: recurse.simps [of "Suc n"])
  show "paired False (recurse (Suc n))" using paired_append [OF Suc(2), of "[RUnlock]"] by (simp add: recurse.simps [of "Suc n"])
  show "increments (recurse (Suc n)) = Suc (Suc n)" using Suc(3) by (simp add: recurse.simps [of "Suc n"])
qed

definition depth_of :: "tree_state \<Rightarrow> nat \<Rightarrow> nat" where
  "depth_of s t = (case tr_m s of None \<Rightarrow> 0 | Some (u, d) \<Rightarrow> if u = t then d else 0)"

definition tree_ok :: "tree_state \<Rightarrow> nat \<Rightarrow> tree_cmd list \<Rightarrow> bool" where
  "tree_ok s t cs \<longleftrightarrow> nested (depth_of s t) cs \<and> (\<exists>b. paired b cs \<and> (b \<longrightarrow> 0 < depth_of s t \<and> tr_seen s t = tr_count s))"

definition tree_inv :: "tree_cmd list list \<Rightarrow> tree_state \<Rightarrow> tree_cmd list list \<Rightarrow> bool" where
  "tree_inv ps s ls \<longleftrightarrow> length ls = length ps \<and> (\<forall>t<length ps. tree_ok s t (ls ! t)) \<and>
     (\<forall>t d. tr_m s = Some (t, d) \<longrightarrow> 0 < d \<and> t < length ps) \<and>
     tr_count s + int (sum_list (map increments ls)) = int (sum_list (map increments ps)) \<and>
     (\<forall>t<length ps. map snd (filter (\<lambda>l. fst l = t) (tr_out s)) @ says (ls ! t) = says (ps ! t))"

text \<open>What a step does to its thread, and to the others.\<close>

lemma tree_exec_self:
  assumes "tree_ok s t (c # cs)" "s' \<in> set (tree_exec True t c s)" "\<forall>u d. tr_m s = Some (u, d) \<longrightarrow> 0 < d"
  shows "tree_ok s' t cs" "tr_count s' + int (increments cs) = tr_count s + int (increments (c # cs))"
    "map snd (filter (\<lambda>l. fst l = t) (tr_out s')) @ says cs = map snd (filter (\<lambda>l. fst l = t) (tr_out s)) @ says (c # cs)"
    "\<forall>u d. tr_m s' = Some (u, d) \<longrightarrow> 0 < d \<and> (u = t \<or> (\<exists>d. tr_m s = Some (u, d)))"
  using assms by (cases c; cases "tr_m s"; auto simp: tree_ok_def depth_of_def split: if_split_asm)+

lemma tree_exec_other:
  assumes "s' \<in> set (tree_exec True t c s)" "u \<noteq> t"
  shows "depth_of s' u = depth_of s u" "tr_seen s' u = tr_seen s u" "filter (\<lambda>l. fst l = u) (tr_out s') = filter (\<lambda>l. fst l = u) (tr_out s)"
    "tr_count s' \<noteq> tr_count s \<Longrightarrow> c = StoreCount"
  using assms by (cases c; cases "tr_m s"; auto simp: depth_of_def split: if_split_asm)+

lemma tree_inv_step:
  assumes inv: "tree_inv ps s ls" and t: "t < length ls" "ls ! t = c # cs" and x: "s' \<in> set (tree_exec True t c s)"
  shows "tree_inv ps s' (ls[t := cs])"
proof -
  note I = inv [unfolded tree_inv_def]
  have ok: "tree_ok s t (c # cs)" using I t by metis
  have pos: "\<forall>u d. tr_m s = Some (u, d) \<longrightarrow> 0 < d" using I by blast
  note self = tree_exec_self [OF ok x pos] and other = tree_exec_other [OF x]
  obtain R where R: "sum_list (map increments ls) = R + increments (ls ! t)" "sum_list (map increments (ls[t := cs])) = R + increments cs"
    using sum_list_split [OF t(1)] by metis
  have "tree_ok s' u (ls[t := cs] ! u)" if u: "u < length ps" for u
  proof (cases "u = t")
    case True
    then show ?thesis using self(1) t by simp
  next
    case False
    have old: "tree_ok s u (ls ! u)" using I u by blast
    have "tr_count s' = tr_count s \<or> depth_of s u = 0"
    proof (rule disjCI)
      assume "depth_of s u \<noteq> 0"
      then have "depth_of s t = 0" using False by (auto simp: depth_of_def split: option.splits if_splits)
      then have "c \<noteq> StoreCount" using ok by (auto simp: tree_ok_def)
      then show "tr_count s' = tr_count s" using other(4) [OF False] by blast
    qed
    then show ?thesis using old other(1,2) [OF False] False by (auto simp: tree_ok_def)
  qed
  moreover have "map snd (filter (\<lambda>l. fst l = u) (tr_out s')) @ says (ls[t := cs] ! u) = says (ps ! u)" if u: "u < length ps" for u
    using I u t self(3) other(3) [of u] by (cases "u = t") auto
  moreover have "tr_count s' + int (sum_list (map increments (ls[t := cs]))) = int (sum_list (map increments ps))"
    using I R self(2) t(2) by simp
  ultimately show ?thesis using I self(4) t(1) by (auto simp: tree_inv_def)
qed

subsection \<open>With a recursive mutex\<close>

text \<open>The threads start at depth 0, and a load is followed by its store.\<close>

definition tree_scripts :: "tree_cmd list list \<Rightarrow> bool" where
  "tree_scripts ps \<longleftrightarrow> list_all (\<lambda>cs. nested 0 cs \<and> paired False cs) ps"

lemma tree_inv_init: "tree_scripts ps \<Longrightarrow> tree_inv ps tree_init ps"
  by (auto simp: tree_inv_def tree_ok_def depth_of_def tree_init_def tree_scripts_def list_all_length)

lemma tree_reach:
  assumes "tree_scripts ps" "reach (step (script (once (tree_exec True)))) (tree_start ps) c"
  shows "tree_inv ps (shared c) (locs c)"
  using script_invariant.script_reach [OF _ assms(2) [unfolded tree_start_def], of "tree_inv ps"] assms(1)
  by (auto simp: script_invariant_def intro: tree_inv_step tree_inv_init)

text \<open>The owner is never blocked, so somebody can always move.\<close>

lemma tree_stuck:
  assumes ok: "tree_scripts ps" and r: "reach (step (script (once (tree_exec True)))) (tree_start ps) c"
    and st: "stuck (script (once (tree_exec True))) c"
  shows "\<forall>t<length ps. locs c ! t = []"
proof -
  note inv = tree_reach [OF ok r, unfolded tree_inv_def]
  note D = script_stuckD [OF r [unfolded tree_start_def] st]
  have blocked: "\<exists>u d. tr_m (shared c) = Some (u, d) \<and> u \<noteq> t" if t: "t < length ps" "locs c ! t \<noteq> []" for t
  proof -
    obtain x xs where l: "locs c ! t = x # xs" "tree_exec True t x (shared c) = []" using D [OF t(1)] t(2) by auto
    have "tree_ok (shared c) t (x # xs)" using inv t(1) l(1) by metis
    then show ?thesis using l(2)
      by (cases x; cases "tr_m (shared c)") (auto simp: tree_ok_def depth_of_def split: if_split_asm)
  qed
  have free: "tr_m (shared c) = None"
  proof (rule ccontr)
    assume "tr_m (shared c) \<noteq> None"
    then obtain u d where m: "tr_m (shared c) = Some (u, d)" by auto
    then have u: "u < length ps" "0 < d" using inv by blast+
    then have "tree_ok (shared c) u (locs c ! u)" using inv by blast
    then have "locs c ! u \<noteq> []" using m u by (auto simp: tree_ok_def depth_of_def)
    then show False using blocked [OF u(1)] m by auto
  qed
  show ?thesis using blocked free by fastforce
qed

lemma tree_scripts_ok: "tree_scripts (map recurse ds @ replicate n rlock_worker)"
  by (auto simp: tree_scripts_def list_all_iff recurse_ok rlock_worker_def inner_def)

lemma increments_worker [simp]: "increments rlock_worker = 0"
  by (simp add: rlock_worker_def inner_def)

text \<open>C39: a thread may lock a recursive mutex that it already holds. Any number of threads recurse to any depths, among threads that
  run \<open>worker\<close>: the counter never overtakes the number of calls, the threads never block for good, and in the end
  every call has been counted once, the mutex is free, and every \<open>worker\<close> has printed its four lines in order.\<close>

theorem recursive_mutex_reenters:
  assumes "run (step (script (once (tree_exec True)))) (tree_start (map recurse ds @ replicate n rlock_worker)) es = Some c"
  shows "tr_count (shared c) \<le> int (sum_list (map Suc ds)) \<and>
    length es \<le> 4 * sum_list (map length (map recurse ds @ replicate n rlock_worker)) + 2 * (length ds + n) + 3 * spurs es \<and>
    (stuck (script (once (tree_exec True))) c \<longrightarrow> all_fin (script (once (tree_exec True))) c \<and>
      tr_count (shared c) = int (sum_list (map Suc ds)) \<and> tr_m (shared c) = None \<and>
      (\<forall>t. length ds \<le> t \<and> t < length ds + n \<longrightarrow> map snd (filter (\<lambda>l. fst l = t) (tr_out (shared c))) =
         [''worker() locked (depth 1)'', ''inner() locked (depth 2)'', ''inner() unlocked (depth 1)'', ''worker() fully unlocked'']))"
proof (intro conjI impI allI)
  let ?ps = "map recurse ds @ replicate n rlock_worker"
  note r = run_reach [OF assms]
  note inv = tree_reach [OF tree_scripts_ok r, unfolded tree_inv_def]
  have sum: "sum_list (map increments ?ps) = sum_list (map Suc ds)"
    by (simp add: comp_def recurse_ok sum_list_replicate map_replicate_const)
  show "tr_count (shared c) \<le> int (sum_list (map Suc ds))" using inv unfolding sum by linarith
  show "length es \<le> 4 * sum_list (map length ?ps) + 2 * (length ds + n) + 3 * spurs es"
    using once_bounded [OF assms [unfolded tree_start_def]] by simp
  assume st: "stuck (script (once (tree_exec True))) c"
  note fin = tree_stuck [OF tree_scripts_ok r st]
  show "all_fin (script (once (tree_exec True))) c"
    using fin by (simp add: script_all_fin [OF r [unfolded tree_start_def] st])
  have Nil: "locs c = replicate (length ?ps) []" using fin inv by (intro nth_equalityI) (auto simp del: nth_locs)
  show "tr_count (shared c) = int (sum_list (map Suc ds))"
    using inv unfolding sum Nil by (simp add: map_replicate_const sum_list_replicate)
  show "tr_m (shared c) = None"
  proof (rule ccontr)
    assume "tr_m (shared c) \<noteq> None"
    then obtain u d where m: "tr_m (shared c) = Some (u, d)" by auto
    then have u: "u < length ?ps" "0 < d" using inv by blast+
    then have "tree_ok (shared c) u []" using inv fin by metis
    then show False using m u by (simp add: tree_ok_def depth_of_def)
  qed
  fix t assume t: "length ds \<le> t \<and> t < length ds + n"
  then obtain k where "t = length ds + k" "k < n" using that [of "t - length ds"] by arith
  then have w: "?ps ! t = rlock_worker" by (simp add: nth_append)
  have lt: "t < length ?ps" using t by simp
  have "\<forall>t<length ?ps. map snd (filter (\<lambda>l. fst l = t) (tr_out (shared c))) @ says (locs c ! t) = says (?ps ! t)" using inv by blast
  then have "map snd (filter (\<lambda>l. fst l = t) (tr_out (shared c))) @ says (locs c ! t) = says (?ps ! t)" using lt by blast
  moreover have "locs c ! t = []" using fin lt by blast
  ultimately have "map snd (filter (\<lambda>l. fst l = t) (tr_out (shared c))) = says (?ps ! t)" by (simp del: nth_locs)
  then show "map snd (filter (\<lambda>l. fst l = t) (tr_out (shared c))) =
    [''worker() locked (depth 1)'', ''inner() locked (depth 2)'', ''inner() unlocked (depth 1)'', ''worker() fully unlocked'']"
    using w by (simp add: rlock_worker_def inner_def)
qed

subsection \<open>With a normal mutex\<close>

text \<open>A script that locks while it holds the mutex, found at depth \<open>d\<close>.\<close>

fun relocks :: "nat \<Rightarrow> tree_cmd list \<Rightarrow> bool" where
  "relocks d [] = False"
| "relocks d (RLock # cs) = (0 < d \<or> relocks 1 cs)"
| "relocks d (RUnlock # cs) = relocks (d - 1) cs"
| "relocks d (c # cs) = relocks d cs"

definition relock_inv :: "nat \<Rightarrow> tree_state \<Rightarrow> tree_cmd list list \<Rightarrow> bool" where
  "relock_inv t s ls \<longleftrightarrow> t < length ls \<and> relocks (depth_of s t) (ls ! t) \<and> (\<forall>u d. tr_m s = Some (u, d) \<longrightarrow> d = 1)"

lemma relock_step:
  assumes inv: "relock_inv t s ls" and u: "u < length ls" "ls ! u = c # cs" and x: "s' \<in> set (tree_exec False u c s)"
  shows "relock_inv t s' (ls[u := cs])"
proof -
  have one: "\<forall>u d. tr_m s' = Some (u, d) \<longrightarrow> d = 1"
    using inv x by (cases c; cases "tr_m s") (auto simp: relock_inv_def split: if_split_asm)
  show ?thesis
  proof (cases "u = t")
    case True
    then have "relocks (depth_of s t) (c # cs)" using inv u by (simp add: relock_inv_def)
    then have "relocks (depth_of s' t) cs"
      using inv x True by (cases c; cases "tr_m s") (auto simp: relock_inv_def depth_of_def split: if_split_asm)
    then show ?thesis using one inv True by (simp add: relock_inv_def)
  next
    case False
    then have "depth_of s' t = depth_of s t"
      using x by (cases c; cases "tr_m s") (auto simp: depth_of_def split: if_split_asm)
    then show ?thesis using one inv False by (simp add: relock_inv_def)
  qed
qed

lemma relocks_examples: "relocks 0 (recurse (Suc n))" "relocks 0 rlock_worker"
  by (simp_all add: recurse.simps rlock_worker_def inner_def)

text \<open>with a normal mutex the second lock of the same thread waits for itself: whatever the other threads do, a thread that
  relocks never returns, and when nothing moves any more it is a deadlock. The recursion to any depth above 0
  and \<open>worker\<close> are such threads.\<close>

theorem normal_mutex_self_deadlock:
  assumes "t < length ps" "ps ! t = recurse (Suc n) \<or> ps ! t = rlock_worker"
    and "reach (step (script (once (tree_exec False)))) (tree_start ps) c"
  shows "locs c ! t \<noteq> [] \<and> \<not> all_fin (script (once (tree_exec False))) c"
proof -
  have "relock_inv t tree_init ps"
    using assms(1,2) relocks_examples by (auto simp: relock_inv_def depth_of_def tree_init_def)
  then have inv: "relock_inv t (shared c) (locs c)"
    using script_invariant.script_reach [OF _ assms(3) [unfolded tree_start_def], of "relock_inv t"]
    by (auto simp: script_invariant_def intro: relock_step)
  then have "locs c ! t \<noteq> []" by (auto simp: relock_inv_def simp del: nth_locs)
  then show ?thesis using all_fin_nth inv by (fastforce simp: relock_inv_def simp del: nth_locs)
qed

definition tree_demo :: "(nat \<times> choice) list \<times> (tree_state, tree_cmd list) cfg" where
  "tree_demo = drive (script (once (tree_exec True))) [1, 0] 60 (tree_start ([recurse 5] @ [rlock_worker]))"

lemma tree_demo: "all_finb (script (once (tree_exec True))) (snd tree_demo)"
  by code_simp

theorem recursive_mutex_reenters_witness: "tr_count (shared (snd tree_demo)) = 6 \<and> tr_m (shared (snd tree_demo)) = None"
proof -
  have run: "run (step (script (once (tree_exec True)))) (tree_start (map recurse [5] @ replicate 1 rlock_worker)) (fst tree_demo) = Some (snd tree_demo)"
    by (rule drive_run [of _ "[1, 0]" 60]) (simp add: tree_demo_def)
  show ?thesis using recursive_mutex_reenters [OF run] all_fin_stuck [OF iffD1 [OF all_finb tree_demo]] by simp
qed

definition self_lock_demo :: "(tree_state, tree_cmd list) cfg" where
  "self_lock_demo = snd (drive (script (once (tree_exec False))) [0] 60 (tree_start tree_main))"

theorem normal_mutex_self_deadlock_witness: "locs self_lock_demo ! 0 \<noteq> [] \<and> tr_count (shared self_lock_demo) = 1"
proof -
  have r: "reach (step (script (once (tree_exec False)))) (tree_start tree_main) self_lock_demo"
    unfolding self_lock_demo_def by (rule drive_reach)
  have "tr_count (shared self_lock_demo) = 1" by code_simp
  then show ?thesis using normal_mutex_self_deadlock [OF _ _ r, of 0 4] by (simp add: tree_main_def del: nth_locs)
qed

end
