(* ===== verification/Snapshots.thy ===== *)
theory Snapshots
  imports MemoryModel Scripts
begin

text \<open>
  Publishing immutable snapshots through an atomic pointer:
  \<open>examples/02_cpp11_threads/04_atomics/06_atomic_pointer.cpp\<close>, on the memory machine of \<open>MemoryModel\<close>. The first part
  is about that machine alone: what a thread has seen never shrinks, and what was written stays.
\<close>

subsection \<open>Coherence\<close>

text \<open>No view names a message that does not exist.\<close>

definition mm_wf :: "mm_state \<Rightarrow> bool" where
  "mm_wf m \<longleftrightarrow> (\<forall>x. sc m x < length (mem m x) \<and>
     (\<forall>i. cur (tv m i) x < length (mem m x) \<and> acq (tv m i) x < length (mem m x) \<and> rel (tv m i) x < length (mem m x)) \<and>
     (\<forall>y. \<forall>p\<in>set (mem m y). snd p x < length (mem m x)))"

definition grows :: "mm_state \<Rightarrow> mm_state \<Rightarrow> bool" where
  "grows m m' \<longleftrightarrow> (\<forall>x. \<exists>ys. mem m' x = mem m x @ ys) \<and> (\<forall>i x. cur (tv m i) x \<le> cur (tv m' i) x)"

lemma grows_refl: "grows m m"
  by (simp add: grows_def)

lemma grows_trans: "grows m m' \<Longrightarrow> grows m' m'' \<Longrightarrow> grows m m''"
  unfolding grows_def by (metis append.assoc order_trans)

lemma mm_wf_init: "mm_wf mm_init"
  by (simp add: mm_wf_def mm_init_def)

lemma sc_enter_wf: "mm_wf m \<Longrightarrow> mm_wf (sc_enter i x ord m) \<and> grows m (sc_enter i x ord m)"
  by (auto simp: mm_wf_def grows_def sc_enter_def)

lemma sc_leave_wf: "mm_wf m \<Longrightarrow> mm_wf (sc_leave i x ord m) \<and> grows m (sc_leave i x ord m)"
  by (auto simp: mm_wf_def grows_def sc_leave_def)

lemma write_msg_wf:
  assumes "mm_wf m"
  shows "mm_wf (write_msg i x ord v m) \<and> grows m (write_msg i x ord v m)"
proof -
  have less: "cur (tv m j) y < length (mem m y)" "rel (tv m j) y < length (mem m y)" "acq (tv m j) y < length (mem m y)"
    "sc m y < length (mem m y)" "p \<in> set (mem m z) \<Longrightarrow> snd p y < length (mem m y)" for j y z p
    using assms unfolding mm_wf_def by blast+
  have "cur (tv m j) y \<le> length (mem m y)" for j y using less(1) less_imp_le by blast
  then have "grows m (write_msg i x ord v m)" by (auto simp: grows_def write_msg_def Let_def)
  moreover have "mm_wf (write_msg i x ord v m)"
    using less by (auto simp: mm_wf_def write_msg_def Let_def less_Suc_eq)
  ultimately show ?thesis by blast
qed

lemma read_msg_wf:
  assumes wf: "mm_wf m" and t: "cur (tv m i) x \<le> t" "t < length (mem m x)"
  shows "mm_wf (read_msg i x ord t m) \<and> grows m (read_msg i x ord t m)"
proof -
  have less: "cur (tv m j) y < length (mem m y)" "rel (tv m j) y < length (mem m y)" "acq (tv m j) y < length (mem m y)"
    "sc m y < length (mem m y)" "p \<in> set (mem m z) \<Longrightarrow> snd p y < length (mem m y)" for j y z p
    using wf unfolding mm_wf_def by blast+
  have "snd (mem m x ! t) y < length (mem m y)" for y using less(5) [of "mem m x ! t" x y] t(2) by simp
  then show ?thesis using less t by (auto simp: mm_wf_def grows_def read_msg_def Let_def)
qed

lemma mm_wf_regs [simp]: "mm_wf (m\<lparr>regs := r\<rparr>) = mm_wf m" "mm_wf (m\<lparr>race := b\<rparr>) = mm_wf m"
  "grows m (m'\<lparr>regs := r\<rparr>) = grows m m'" "grows m (m'\<lparr>race := b\<rparr>) = grows m m'"
  by (simp_all add: mm_wf_def grows_def)

lemma load_wf:
  assumes wf: "mm_wf m" and t: "t \<in> set (readable i x (sc_enter i x ord m))"
  shows "mm_wf (sc_leave i x ord (read_msg i x ord t (sc_enter i x ord m))) \<and>
    grows m (sc_leave i x ord (read_msg i x ord t (sc_enter i x ord m)))"
proof -
  note e = sc_enter_wf [OF wf, of i x ord]
  have r: "mm_wf (read_msg i x ord t (sc_enter i x ord m)) \<and> grows (sc_enter i x ord m) (read_msg i x ord t (sc_enter i x ord m))"
    by (rule read_msg_wf) (use e t in \<open>auto simp: readable_def\<close>)
  show ?thesis using sc_leave_wf [of "read_msg i x ord t (sc_enter i x ord m)" i x ord] e r by (blast intro: grows_trans)
qed

lemma exec_wf:
  assumes wf: "mm_wf m" and e: "(m', l) \<in> set (exec_instr i c cs m)"
  shows "mm_wf m' \<and> grows m m'"
proof (cases c)
  case (Store x ord v)
  then have m': "m' = sc_leave i x ord (write_msg i x ord v (sc_enter i x ord m))" using e by simp
  note a = sc_enter_wf [OF wf, of i x ord] and b = write_msg_wf [of "sc_enter i x ord m" i x ord v]
  show ?thesis using sc_leave_wf [of "write_msg i x ord v (sc_enter i x ord m)" i x ord] a b unfolding m' by (blast intro: grows_trans)
next
  case (Fetch r x)
  then obtain t where "t \<in> set (readable i x m)" "m' = (read_msg i x Relaxed t m)\<lparr>regs := (regs m)(r := fst (mem m x ! t)), race := race m \<or> cur (tv m i) x \<noteq> last_index m x\<rparr>"
    using e by auto
  then show ?thesis using read_msg_wf [OF wf, of i x t Relaxed] by (simp add: readable_def)
next
  case FenceAcquire
  then show ?thesis using e wf by (auto simp: mm_wf_def grows_def)
next
  case FenceRelease
  then show ?thesis using e wf by (auto simp: mm_wf_def grows_def)
qed (use e load_wf [OF wf] write_msg_wf [OF wf] in \<open>auto simp: Let_def\<close>)

lemma mm_step_wf: "mm_wf s \<Longrightarrow> (s', l') \<in> set (effects (mm_thread i l) s) \<Longrightarrow> mm_wf s' \<and> grows s s'"
  by (cases l) (auto dest: exec_wf)

interpretation coherent: monitor_invariant mm_thread mm_init ps "\<lambda>s ls. mm_wf s" for ps
  by unfold_locales (auto simp: mm_wf_init dest: mm_step_wf)

interpretation coherent: act_only mm_thread
proof
  show "mm_thread i l \<noteq> Monitor m w b" for i l m w b by (cases l) simp_all
qed

text \<open>Coherence of the memory machine, for every program: no view is ahead of the memory, messages stay where they are, and
  no thread ever forgets what it has seen, so it never reads a location backwards.\<close>

theorem coherence:
  assumes "reach (step mm_thread) (mm_start ps) c" "reach (step mm_thread) c d"
  shows "mm_wf (shared c) \<and> grows (shared c) (shared d)"
  using assms(2)
proof (induction rule: reach.induct)
  case reach_refl
  show ?case using coherent.I_reach assms(1) by (simp add: mm_start_def grows_refl)
next
  case (reach_step d e d')
  note r = reach_trans [OF assms(1) reach_step(1), unfolded mm_start_def]
  obtain k where "astep mm_thread (shared d, locs d) (fst e, k) = Some (shared d', locs d')"
    using coherent.act_step [OF coherent.act_at [OF r] reach_step(2)] by blast
  then obtain l' where "(shared d', l') \<in> set (effects (mm_thread (fst e) (locs d ! fst e)) (shared d))"
    by (auto simp: astep_def split: if_splits prod.splits intro: nth_mem_eq)
  then have "grows (shared d) (shared d')" using mm_step_wf coherent.I_reach [OF r] by blast
  then show ?case using reach_step.IH grows_trans by blast
qed

subsection \<open>06_atomic_pointer.cpp\<close>

text \<open>
  Location 0 is \<open>g_cfg\<close> (0 the null pointer, the \<open>t\<close>-th snapshot otherwise), location 1 \<open>stop\<close>; the fields of
  snapshot \<open>t\<close>, which are never reused, are at \<open>2 * t\<close> and \<open>2 * t + 1\<close>. \<open>sn_go\<close>: \<open>main\<close> has created the threads, which start
  with what it has seen; \<open>sn_done\<close> are the threads that have returned. Register \<open>i\<close> belongs to thread \<open>i\<close>.
\<close>

record snap_state =
  sn_mm :: mm_state
  sn_go :: bool
  sn_done :: "nat set"
  sn_out :: "nat \<Rightarrow> (int \<times> int) list"

datatype snap_loc = Init0 | Init1 | Init2 | Spawn | JoinW | SetStop | JoinR
  | WWait | W0 nat | W1 nat | W2 nat
  | RWait | RStop | RLoad | RMax nat | RTime nat int
  | Quit | Ended

definition inherit :: "nat \<Rightarrow> mm_state \<Rightarrow> mm_state" where
  "inherit i m = m\<lparr>tv := (\<lambda>j. (tv m j)\<lparr>cur := join (cur (tv m j)) (cur (tv m i))\<rparr>)\<rparr>"

definition after_join :: "nat \<Rightarrow> nat \<Rightarrow> mm_state \<Rightarrow> mm_state" where
  "after_join i j m = m\<lparr>tv := (tv m)(i := (tv m i)\<lparr>cur := join (cur (tv m i)) (cur (tv m j))\<rparr>)\<rparr>"

definition do_mm :: "nat \<Rightarrow> instr \<Rightarrow> (mm_state \<Rightarrow> snap_loc) \<Rightarrow> snap_state \<Rightarrow> (snap_state \<times> snap_loc) list" where
  "do_mm i c k s = map (\<lambda>(m, _). (s\<lparr>sn_mm := m\<rparr>, k m)) (exec_instr i c [] (sn_mm s))"

definition write_next :: "nat \<Rightarrow> nat \<Rightarrow> snap_loc" where
  "write_next K j = (if j < K then W0 j else Quit)"

text \<open>A reader that dereferences the null pointer has no next step.\<close>

fun snap_thread :: "nat \<Rightarrow> nat \<Rightarrow> nat \<Rightarrow> snap_loc \<Rightarrow> (snap_state, snap_loc) stmt" where
  "snap_thread R K i Init0 = Act (do_mm i (Put 2 100) (\<lambda>_. Init1))"
| "snap_thread R K i Init1 = Act (do_mm i (Put 3 5000) (\<lambda>_. Init2))"
| "snap_thread R K i Init2 = Act (do_mm i (Store 0 Release 1) (\<lambda>_. Spawn))"
| "snap_thread R K i Spawn = Act (\<lambda>s. [(s\<lparr>sn_go := True, sn_mm := inherit i (sn_mm s)\<rparr>, JoinW)])"
| "snap_thread R K i JoinW = Act (\<lambda>s. if 1 \<in> sn_done s then [(s\<lparr>sn_mm := after_join i 1 (sn_mm s)\<rparr>, SetStop)] else [])"
| "snap_thread R K i SetStop = Act (do_mm i (Store 1 Relaxed 1) (\<lambda>_. JoinR))"
| "snap_thread R K i JoinR = Act (\<lambda>s. if set [2..<R + 2] \<subseteq> sn_done s then [(s, Ended)] else [])"
| "snap_thread R K i WWait = Act (\<lambda>s. if sn_go s then [(s, write_next K 0)] else [])"
| "snap_thread R K i (W0 j) = Act (do_mm i (Put (2 * (j + 2)) (100 + int j * 10)) (\<lambda>_. W1 j))"
| "snap_thread R K i (W1 j) = Act (do_mm i (Put (2 * (j + 2) + 1) (5000 - int j * 100)) (\<lambda>_. W2 j))"
| "snap_thread R K i (W2 j) = Act (do_mm i (Store 0 Release (int (j + 2))) (\<lambda>_. write_next K (j + 1)))"
| "snap_thread R K i RWait = Act (\<lambda>s. if sn_go s then [(s, RStop)] else [])"
| "snap_thread R K i RStop = Act (do_mm i (Load i 1 Relaxed) (\<lambda>m. if regs m i \<noteq> 0 then Quit else RLoad))"
| "snap_thread R K i RLoad = Act (do_mm i (Load i 0 Acquire) (\<lambda>m. RMax (nat (regs m i))))"
| "snap_thread R K i (RMax t) = Act (\<lambda>s. if t = 0 then [] else do_mm i (Fetch i (2 * t)) (\<lambda>m. RTime t (regs m i)) s)"
| "snap_thread R K i (RTime t v) = Act (\<lambda>s. map (\<lambda>(m, _). (s\<lparr>sn_mm := m, sn_out := (sn_out s)(i := sn_out s i @ [(v, regs m i)])\<rparr>, RStop))
     (exec_instr i (Fetch i (2 * t + 1)) [] (sn_mm s)))"
| "snap_thread R K i Quit = Act (\<lambda>s. [(s\<lparr>sn_done := insert i (sn_done s)\<rparr>, Ended)])"
| "snap_thread R K i Ended = Fin"

definition snap_init :: snap_state where
  "snap_init = \<lparr>sn_mm = mm_init, sn_go = False, sn_done = {}, sn_out = (\<lambda>_. [])\<rparr>"

definition snap_threads :: "nat \<Rightarrow> snap_loc list" where
  "snap_threads R = Init0 # WWait # replicate R RWait"

definition snap_start :: "nat \<Rightarrow> (snap_state, snap_loc) cfg" where
  "snap_start R = start snap_init (snap_threads R)"

definition snap_main :: "nat \<Rightarrow> snap_loc \<Rightarrow> (snap_state, snap_loc) stmt" where
  "snap_main = snap_thread 4 5"

text \<open>What snapshot \<open>t\<close> contains: the first one, then those of the writer.\<close>

definition snap_config :: "nat \<Rightarrow> int \<times> int" where
  "snap_config t = (if t = 1 then (100, 5000) else (100 + (int t - 2) * 10, 5000 - (int t - 2) * 100))"

subsection \<open>What the memory contains\<close>

abbreviation last_snap :: "mm_state \<Rightarrow> nat" where
  "last_snap m \<equiv> length (mem m 0) - 1"

definition cell :: "mm_state \<Rightarrow> nat \<Rightarrow> int \<Rightarrow> bool" where
  "cell m x v \<longleftrightarrow> (\<exists>V. mem m x = [msg0, (v, V)])"

definition snap_cells :: "mm_state \<Rightarrow> nat \<Rightarrow> bool" where
  "snap_cells m t \<longleftrightarrow> cell m (2 * t) (fst (snap_config t)) \<and> cell m (2 * t + 1) (snd (snap_config t))"

definition blank :: "mm_state \<Rightarrow> nat \<Rightarrow> bool" where
  "blank m t \<longleftrightarrow> mem m (2 * t) = [msg0] \<and> mem m (2 * t + 1) = [msg0]"

definition snap_mem :: "mm_state \<Rightarrow> bool" where
  "snap_mem m \<longleftrightarrow> mm_wf m \<and> \<not> race m \<and> (\<forall>p\<in>set (mem m 1). fst p \<in> {0, 1}) \<and> (\<forall>t>length (mem m 0). blank m t) \<and>
     (\<forall>t. 0 < t \<and> t < length (mem m 0) \<longrightarrow> snap_cells m t \<and> (\<exists>V. mem m 0 ! t = (int t, V) \<and> V (2 * t) = 1 \<and> V (2 * t + 1) = 1))"

text \<open>How far thread \<open>b\<close> is with the next snapshot, which nobody else can see yet.\<close>

definition built :: "nat \<Rightarrow> nat \<Rightarrow> mm_state \<Rightarrow> bool" where
  "built b p m \<longleftrightarrow> (let t = length (mem m 0) in
     (if p = 0 then blank m t
      else if p = 1 then cell m (2 * t) (fst (snap_config t)) \<and> cur (tv m b) (2 * t) = 1 \<and> mem m (2 * t + 1) = [msg0]
      else snap_cells m t \<and> cur (tv m b) (2 * t) = 1 \<and> cur (tv m b) (2 * t + 1) = 1))"

lemmas parity = Suc_double_not_eq_double double_not_eq_Suc_double

lemma mm_wf_cur: "mm_wf m \<Longrightarrow> cur (tv m i) x < length (mem m x)"
  by (simp add: mm_wf_def)

lemma put_blank:
  assumes "mm_wf m" "\<not> race m" "mem m x = [msg0]" "(m', l) \<in> set (exec_instr i (Put x v) [] m)"
  shows "mm_wf m'" "\<not> race m'" "\<exists>V. mem m' = (mem m)(x := [msg0, (v, V)])" "cur (tv m' i) = (cur (tv m i))(x := 1)"
    "\<And>j. j \<noteq> i \<Longrightarrow> tv m' j = tv m j"
  using exec_wf [OF assms(1,4)] mm_wf_cur [OF assms(1), of i x] assms(2-4)
  by (auto simp: write_msg_def last_index_def Let_def releases_def)

lemma fetch_cell:
  assumes "mm_wf m" "\<not> race m" "cell m x v" "cur (tv m i) x = 1" "(m', l) \<in> set (exec_instr i (Fetch r x) [] m)"
  shows "mm_wf m'" "\<not> race m'" "mem m' = mem m" "\<And>j. cur (tv m' j) = cur (tv m j)" "regs m' r = v"
proof -
  have m': "\<not> race m' \<and> mem m' = mem m \<and> tv m' = (tv m)(i := (tv m i)\<lparr>cur := (cur (tv m i))(x := 1),
      acq := join (acq (tv m i)) (snd (mem m x ! 1))\<rparr>) \<and> regs m' r = v"
    using assms(2-5) by (auto simp: cell_def readable_def last_index_def read_msg_def acquires_def Let_def)
  show "mm_wf m'" using exec_wf [OF assms(1,5)] by blast
  show "cur (tv m' j) = cur (tv m j)" for j using m' assms(4) by (auto simp: fun_upd_idem)
  show "\<not> race m'" "mem m' = mem m" "regs m' r = v" using m' by blast+
qed

lemma snap_mem_cong: "snap_mem m \<Longrightarrow> mm_wf m' \<Longrightarrow> \<not> race m' \<Longrightarrow> mem m' = mem m \<Longrightarrow> snap_mem m'"
  by (simp add: snap_mem_def snap_cells_def cell_def blank_def)

lemma built_cong: "built b p m \<Longrightarrow> mem m' = mem m \<Longrightarrow> cur (tv m' b) = cur (tv m b) \<Longrightarrow> built b p m'"
  by (simp add: built_def snap_cells_def cell_def blank_def Let_def split: if_splits)

lemma put_first:
  assumes m: "snap_mem m" "built b 0 m" "t = length (mem m 0)" "0 < t" and e: "(m', l) \<in> set (exec_instr b (Put (2 * t) (fst (snap_config t))) [] m)"
  shows "snap_mem m'" "built b 1 m'" "length (mem m' 0) = t" "\<And>j. j \<noteq> b \<Longrightarrow> tv m' j = tv m j"
proof -
  have "mem m (2 * t) = [msg0]" and blank: "mem m (2 * t + 1) = [msg0]" using m(2,3) by (simp_all add: built_def blank_def Let_def)
  note P = put_blank [OF _ _ this(1) e]
  have wf: "mm_wf m" "\<not> race m" using m(1) by (auto simp: snap_mem_def)
  obtain V where V: "mem m' = (mem m)(2 * t := [msg0, (fst (snap_config t), V)])" using P(3) [OF wf] by blast
  have same: "mem m' 0 = mem m 0" "mem m' 1 = mem m 1" using V m(4) by (auto simp: parity)
  have other: "mem m' (2 * u) = mem m (2 * u)" "mem m' (2 * u + 1) = mem m (2 * u + 1)" if "u \<noteq> t" for u
    using V that by (auto simp: parity)
  show "snap_mem m'" using m(1,3) P(1,2) [OF wf] other unfolding snap_mem_def same
    by (auto simp: snap_cells_def cell_def blank_def)
  show "built b 1 m'" using V blank P(4) [OF wf] same m(3) by (simp add: built_def cell_def parity)
  show "length (mem m' 0) = t" using same m(3) by simp
qed (use put_blank(5) [OF _ _ _ e] m in \<open>auto simp: snap_mem_def built_def blank_def Let_def\<close>)

lemma put_second:
  assumes m: "snap_mem m" "built b 1 m" "t = length (mem m 0)" "0 < t" and e: "(m', l) \<in> set (exec_instr b (Put (2 * t + 1) (snd (snap_config t))) [] m)"
  shows "snap_mem m'" "built b 2 m'" "length (mem m' 0) = t" "\<And>j. j \<noteq> b \<Longrightarrow> tv m' j = tv m j"
proof -
  have blank: "mem m (2 * t + 1) = [msg0]" and first: "cell m (2 * t) (fst (snap_config t))" "cur (tv m b) (2 * t) = 1"
    using m(2,3) by (simp_all add: built_def Let_def)
  note P = put_blank [OF _ _ blank e]
  have wf: "mm_wf m" "\<not> race m" using m(1) by (auto simp: snap_mem_def)
  obtain V where V: "mem m' = (mem m)(2 * t + 1 := [msg0, (snd (snap_config t), V)])" using P(3) [OF wf] by blast
  have same: "mem m' 0 = mem m 0" "mem m' 1 = mem m 1" using V m(4) by (auto simp: parity)
  have other: "mem m' (2 * u) = mem m (2 * u)" "mem m' (2 * u + 1) = mem m (2 * u + 1)" if "u \<noteq> t" for u
    using V that by (auto simp: parity)
  show "snap_mem m'" using m(1,3) P(1,2) [OF wf] other unfolding snap_mem_def same
    by (auto simp: snap_cells_def cell_def blank_def)
  show "built b 2 m'" using V first P(4) [OF wf] same m(3) by (simp add: built_def snap_cells_def cell_def parity)
  show "length (mem m' 0) = t" using same m(3) by simp
qed (use put_blank(5) [OF _ _ _ e] m in \<open>auto simp: snap_mem_def built_def Let_def\<close>)

lemma publish:
  assumes m: "snap_mem m" "built b 2 m" "t = length (mem m 0)" "0 < t" and e: "(m', l) \<in> set (exec_instr b (Store 0 Release (int t)) [] m)"
  shows "snap_mem m'" "built b' 0 m'" "length (mem m' 0) = Suc t" "cur (tv m' b) 0 = t" "\<And>j. j \<noteq> b \<Longrightarrow> tv m' j = tv m j"
proof -
  define V where "V = (cur (tv m b))(0 := t)"
  have m': "mem m' = (mem m)(0 := mem m 0 @ [(int t, V)])" "race m' = race m" "tv m' = (tv m)(b := (tv m b)\<lparr>cur := V\<rparr>)"
    using e m(3) by (auto simp: sc_enter_def sc_leave_def write_msg_def Let_def releases_def V_def)
  have V: "V (2 * t) = 1" "V (2 * t + 1) = 1" "snap_cells m t" using m(2-4) by (simp_all add: built_def V_def Let_def)
  have cells: "snap_cells m' u = snap_cells m u" "blank m' u = blank m u" if "0 < u" for u
    using m'(1) that by (simp_all add: snap_cells_def cell_def blank_def)
  show "snap_mem m'" unfolding snap_mem_def
  proof (intro conjI allI impI)
    show "mm_wf m'" using exec_wf [OF _ e] m(1) by (simp add: snap_mem_def)
    show "\<not> race m'" "\<forall>p\<in>set (mem m' 1). fst p \<in> {0, 1}" using m(1) m' by (simp_all add: snap_mem_def)
    show "blank m' u" if "length (mem m' 0) < u" for u using that cells [of u] m(1) m'(1) by (simp add: snap_mem_def)
    fix u assume u: "0 < u \<and> u < length (mem m' 0)"
    show "snap_cells m' u" using u cells [of u] V(3) m(1,3) m'(1) by (cases "u = t") (auto simp: snap_mem_def)
    show "\<exists>W. mem m' 0 ! u = (int u, W) \<and> W (2 * u) = 1 \<and> W (2 * u + 1) = 1"
      using u V m(1,3) m'(1) by (cases "u = t") (auto simp: snap_mem_def nth_append)
  qed
  have "blank m (Suc t)" using m(1,3) by (simp add: snap_mem_def)
  then show "built b' 0 m'" using m'(1) m(3) cells [of "Suc t"] by (simp add: built_def)
  show "length (mem m' 0) = Suc t" "cur (tv m' b) 0 = t" "\<And>j. j \<noteq> b \<Longrightarrow> tv m' j = tv m j" using m' m(3) by (simp_all add: V_def)
qed

lemma store_stop:
  assumes m: "snap_mem m" and e: "(m', l) \<in> set (exec_instr b (Store 1 Relaxed 1) [] m)"
  shows "snap_mem m'" "mem m' 0 = mem m 0" "fst (last (mem m' 1)) = 1" "\<And>j. j \<noteq> b \<Longrightarrow> tv m' j = tv m j"
proof -
  obtain V where m': "mem m' = (mem m)(1 := mem m 1 @ [(1, V)])" "race m' = race m" "\<And>j. j \<noteq> b \<Longrightarrow> tv m' j = tv m j"
    using e by (auto simp: sc_enter_def sc_leave_def write_msg_def Let_def releases_def)
  have cells: "snap_cells m' u = snap_cells m u" "blank m' u = blank m u" if "0 < u" for u
    using m'(1) that by (simp_all add: snap_cells_def cell_def blank_def parity)
  have "mm_wf m'" using exec_wf [OF _ e] m by (simp add: snap_mem_def)
  then show "snap_mem m'" using m m'(1,2) cells by (auto simp: snap_mem_def)
  show "mem m' 0 = mem m 0" "fst (last (mem m' 1)) = 1" "\<And>j. j \<noteq> b \<Longrightarrow> tv m' j = tv m j" using m' by simp_all
qed

lemma load_effect:
  assumes "ord \<noteq> SeqCst" "(m', l) \<in> set (exec_instr i (Load i x ord) [] m)"
  obtains t where "cur (tv m i) x \<le> t" "t < length (mem m x)" "mem m' = mem m" "race m' = race m" "regs m' i = fst (mem m x ! t)"
    "\<And>j. j \<noteq> i \<Longrightarrow> tv m' j = tv m j"
    "cur (tv m' i) = (if acquires ord then join ((cur (tv m i))(x := t)) (snd (mem m x ! t)) else (cur (tv m i))(x := t))"
  using assms by (auto simp: sc_enter_def sc_leave_def read_msg_def readable_def Let_def intro: that)

lemma load_stop:
  assumes m: "snap_mem m" and e: "(m', l) \<in> set (exec_instr i (Load i 1 Relaxed) [] m)"
  shows "snap_mem m'" "mem m' = mem m" "\<And>x. x \<noteq> 1 \<Longrightarrow> cur (tv m' i) x = cur (tv m i) x" "\<And>j. j \<noteq> i \<Longrightarrow> tv m' j = tv m j"
proof -
  have wf: "mm_wf m'" using exec_wf [OF _ e] m by (simp add: snap_mem_def)
  obtain t where t: "mem m' = mem m" "race m' = race m" "\<And>j. j \<noteq> i \<Longrightarrow> tv m' j = tv m j" "cur (tv m' i) = (cur (tv m i))(1 := t)"
    by (rule load_effect [OF _ e]) (simp_all add: acquires_def)
  show "snap_mem m'" using snap_mem_cong [OF m wf] t(1,2) m by (simp add: snap_mem_def)
  show "mem m' = mem m" "\<And>x. x \<noteq> 1 \<Longrightarrow> cur (tv m' i) x = cur (tv m i) x" "\<And>j. j \<noteq> i \<Longrightarrow> tv m' j = tv m j" using t by simp_all
qed

text \<open>The pointer that a reader gets is that of a finished snapshot whose fields it has seen.\<close>

lemma load_ptr:
  assumes m: "snap_mem m" "0 < cur (tv m i) 0" and e: "(m', l) \<in> set (exec_instr i (Load i 0 Acquire) [] m)"
  obtains t where "snap_mem m'" "mem m' = mem m" "regs m' i = int t" "cur (tv m i) 0 \<le> t" "t \<le> cur (tv m' i) 0"
    "cur (tv m' i) (2 * t) = 1" "cur (tv m' i) (2 * t + 1) = 1" "\<And>j. j \<noteq> i \<Longrightarrow> tv m' j = tv m j"
proof -
  have wf: "mm_wf m'" using exec_wf [OF _ e] m by (simp add: snap_mem_def)
  obtain t where t: "cur (tv m i) 0 \<le> t" "t < length (mem m 0)" "mem m' = mem m" "race m' = race m" "regs m' i = fst (mem m 0 ! t)"
    "\<And>j. j \<noteq> i \<Longrightarrow> tv m' j = tv m j" "cur (tv m' i) = join ((cur (tv m i))(0 := t)) (snd (mem m 0 ! t))"
    by (rule load_effect [OF _ e]) (simp_all add: acquires_def)
  have pos: "0 < t" using t(1) m(2) by simp
  obtain V where V: "mem m 0 ! t = (int t, V)" "V (2 * t) = 1" "V (2 * t + 1) = 1" "snap_cells m t"
    using m(1) pos t(2) by (auto simp: snap_mem_def)
  have "length (mem m' (2 * t)) = 2" "length (mem m' (2 * t + 1)) = 2" using V(4) t(3) by (auto simp: snap_cells_def cell_def)
  then have "cur (tv m' i) (2 * t) < 2" "cur (tv m' i) (2 * t + 1) < 2"
    using mm_wf_cur [OF wf, of i "2 * t"] mm_wf_cur [OF wf, of i "2 * t + 1"] by simp_all
  moreover have "1 \<le> cur (tv m' i) (2 * t)" "1 \<le> cur (tv m' i) (2 * t + 1)" using t(7) V by simp_all
  ultimately have one: "cur (tv m' i) (2 * t) = 1" "cur (tv m' i) (2 * t + 1) = 1" by linarith+
  have mem: "snap_mem m'" using snap_mem_cong [OF m(1) wf] t(3,4) m(1) by (simp add: snap_mem_def)
  have "regs m' i = int t" "t \<le> cur (tv m' i) 0" using t(5,7) V(1) by simp_all
  from that [OF mem t(3) this(1) t(1) this(2) one t(6)] show ?thesis .
qed

declare exec_instr.simps [simp del]

lemma in_do_mm: "(s', l') \<in> set (do_mm i c k s) \<longleftrightarrow> (\<exists>m cs. (m, cs) \<in> set (exec_instr i c [] (sn_mm s)) \<and> s' = s\<lparr>sn_mm := m\<rparr> \<and> l' = k m)"
  by (auto simp: do_mm_def)

subsection \<open>The invariant\<close>

abbreviation stopped :: "mm_state \<Rightarrow> bool" where
  "stopped m \<equiv> fst (last (mem m 1)) = 1"

fun main_at :: "nat \<Rightarrow> snap_state \<Rightarrow> snap_loc \<Rightarrow> bool" where
  "main_at R s Init0 = (\<not> sn_go s \<and> length (mem (sn_mm s) 0) = 1 \<and> built 0 0 (sn_mm s))"
| "main_at R s Init1 = (\<not> sn_go s \<and> length (mem (sn_mm s) 0) = 1 \<and> built 0 1 (sn_mm s))"
| "main_at R s Init2 = (\<not> sn_go s \<and> length (mem (sn_mm s) 0) = 1 \<and> built 0 2 (sn_mm s))"
| "main_at R s Spawn = (\<not> sn_go s \<and> length (mem (sn_mm s) 0) = 2 \<and> built 1 0 (sn_mm s) \<and> cur (tv (sn_mm s) 0) 0 = 1)"
| "main_at R s JoinW = sn_go s"
| "main_at R s SetStop = (sn_go s \<and> 1 \<in> sn_done s)"
| "main_at R s JoinR = (sn_go s \<and> 1 \<in> sn_done s \<and> stopped (sn_mm s))"
| "main_at R s Ended = (sn_go s \<and> 1 \<in> sn_done s \<and> set [2..<R + 2] \<subseteq> sn_done s)"
| "main_at R s _ = False"

fun writer_at :: "nat \<Rightarrow> snap_state \<Rightarrow> snap_loc \<Rightarrow> bool" where
  "writer_at K s WWait = (sn_go s \<longrightarrow> length (mem (sn_mm s) 0) = 2 \<and> built 1 0 (sn_mm s))"
| "writer_at K s (W0 j) = (sn_go s \<and> j < K \<and> length (mem (sn_mm s) 0) = j + 2 \<and> built 1 0 (sn_mm s))"
| "writer_at K s (W1 j) = (sn_go s \<and> j < K \<and> length (mem (sn_mm s) 0) = j + 2 \<and> built 1 1 (sn_mm s))"
| "writer_at K s (W2 j) = (sn_go s \<and> j < K \<and> length (mem (sn_mm s) 0) = j + 2 \<and> built 1 2 (sn_mm s))"
| "writer_at K s Quit = (sn_go s \<and> length (mem (sn_mm s) 0) = K + 2)"
| "writer_at K s Ended = (sn_go s \<and> length (mem (sn_mm s) 0) = K + 2)"
| "writer_at K s _ = False"

fun reader_loc :: "bool \<Rightarrow> view \<Rightarrow> nat list \<Rightarrow> snap_loc \<Rightarrow> bool" where
  "reader_loc go V ts RWait = (ts = [] \<and> (go \<longrightarrow> 0 < V 0))"
| "reader_loc go V ts RStop = (go \<and> 0 < V 0)"
| "reader_loc go V ts RLoad = (go \<and> 0 < V 0)"
| "reader_loc go V ts (RMax t) = (go \<and> 0 < t \<and> t \<le> V 0 \<and> (\<forall>u\<in>set ts. u \<le> t) \<and> V (2 * t) = 1 \<and> V (2 * t + 1) = 1)"
| "reader_loc go V ts (RTime t v) = (go \<and> 0 < t \<and> t \<le> V 0 \<and> (\<forall>u\<in>set ts. u \<le> t) \<and> V (2 * t) = 1 \<and> V (2 * t + 1) = 1 \<and> v = fst (snap_config t))"
| "reader_loc go V ts Quit = go"
| "reader_loc go V ts Ended = go"
| "reader_loc go V ts _ = False"

definition reader_at :: "nat \<Rightarrow> snap_state \<Rightarrow> snap_loc \<Rightarrow> bool" where
  "reader_at i s l \<longleftrightarrow> (\<exists>ts. sn_out s i = map snap_config ts \<and> sorted ts \<and> set ts \<subseteq> {0<..cur (tv (sn_mm s) i) 0} \<and>
     reader_loc (sn_go s) (cur (tv (sn_mm s) i)) ts l)"

lemma reader_at_cong: "reader_at i s l \<Longrightarrow> sn_out s' i = sn_out s i \<Longrightarrow> cur (tv (sn_mm s') i) = cur (tv (sn_mm s) i) \<Longrightarrow> sn_go s' = sn_go s \<Longrightarrow> reader_at i s' l"
  by (simp add: reader_at_def)

lemma main_at_cong:
  assumes "main_at R s l" "mem (sn_mm s') = mem (sn_mm s)" "cur (tv (sn_mm s') 0) = cur (tv (sn_mm s) 0)"
    "cur (tv (sn_mm s') 1) = cur (tv (sn_mm s) 1)" "sn_go s' = sn_go s" "sn_done s \<subseteq> sn_done s'"
  shows "main_at R s' l"
  using assms built_cong [OF _ assms(2,3)] built_cong [OF _ assms(2,4)] by (cases l) auto

lemma writer_at_cong:
  assumes "writer_at K s l" "mem (sn_mm s') = mem (sn_mm s)" "cur (tv (sn_mm s') 1) = cur (tv (sn_mm s) 1)" "sn_go s' = sn_go s"
  shows "writer_at K s' l"
  using assms built_cong [OF _ assms(2,3)] by (cases l) auto

definition snap_inv :: "nat \<Rightarrow> nat \<Rightarrow> snap_state \<Rightarrow> snap_loc list \<Rightarrow> bool" where
  "snap_inv R K s ls \<longleftrightarrow> length ls = R + 2 \<and> snap_mem (sn_mm s) \<and> main_at R s (ls ! 0) \<and> writer_at K s (ls ! 1) \<and>
     (\<forall>i. 2 \<le> i \<and> i < R + 2 \<longrightarrow> reader_at i s (ls ! i)) \<and> (\<forall>i<R + 2. i \<in> sn_done s \<longleftrightarrow> 0 < i \<and> ls ! i = Ended)"

text \<open>What a step of thread \<open>i\<close> leaves alone.\<close>

definition only_own :: "nat \<Rightarrow> snap_state \<Rightarrow> snap_state \<Rightarrow> bool" where
  "only_own i s s' \<longleftrightarrow> sn_go s' = sn_go s \<and> (\<forall>j. j \<noteq> i \<longrightarrow> sn_out s' j = sn_out s j \<and> cur (tv (sn_mm s') j) = cur (tv (sn_mm s) j))"

definition marks :: "nat \<Rightarrow> snap_state \<Rightarrow> snap_loc \<Rightarrow> snap_state \<Rightarrow> snap_loc \<Rightarrow> bool" where
  "marks i s l s' l' \<longleftrightarrow> sn_done s' = (if l = Quit then insert i (sn_done s) else sn_done s) \<and> (l' = Ended \<longleftrightarrow> l = Quit) \<and> l \<noteq> Ended"

lemma reader_fetch:
  assumes m: "snap_mem (sn_mm s)" and at: "reader_at i s l" "l = RMax t \<or> l = RTime t v"
    and e: "(m', cs) \<in> set (exec_instr i (Fetch i x) [] (sn_mm s))" "x = 2 * t \<or> x = 2 * t + 1"
  shows "snap_mem m'" "mem m' = mem (sn_mm s)" "\<And>j. cur (tv m' j) = cur (tv (sn_mm s) j)"
    "regs m' i = (if x = 2 * t then fst (snap_config t) else snd (snap_config t))"
proof -
  have t: "0 < t" "t \<le> cur (tv (sn_mm s) i) 0" "cur (tv (sn_mm s) i) (2 * t) = 1" "cur (tv (sn_mm s) i) (2 * t + 1) = 1"
    using at by (auto simp: reader_at_def)
  have wf: "mm_wf (sn_mm s)" "\<not> race (sn_mm s)" using m by (auto simp: snap_mem_def)
  have "t < length (mem (sn_mm s) 0)" using t(2) mm_wf_cur [OF wf(1), of i 0] by simp
  then have "snap_cells (sn_mm s) t" using m t(1) by (auto simp: snap_mem_def)
  then have c: "cell (sn_mm s) x (if x = 2 * t then fst (snap_config t) else snd (snap_config t))" "cur (tv (sn_mm s) i) x = 1"
    using e(2) t(3,4) by (auto simp: snap_cells_def parity)
  note F = fetch_cell [OF wf c e(1)]
  show "snap_mem m'" by (rule snap_mem_cong [OF m F(1-3)])
  show "mem m' = mem (sn_mm s)" "\<And>j. cur (tv m' j) = cur (tv (sn_mm s) j)"
    "regs m' i = (if x = 2 * t then fst (snap_config t) else snd (snap_config t))" using F by simp_all
qed

lemma reader_step:
  assumes m: "snap_mem (sn_mm s)" and at: "reader_at i s l" and x: "(s', l') \<in> set (effects (snap_thread R K i l) s)"
  shows "snap_mem (sn_mm s') \<and> mem (sn_mm s') = mem (sn_mm s) \<and> reader_at i s' l' \<and> only_own i s s' \<and> marks i s l s' l'"
proof (cases l)
  case RStop
  then obtain m' cs where e: "(m', cs) \<in> set (exec_instr i (Load i 1 Relaxed) [] (sn_mm s))" "s' = s\<lparr>sn_mm := m'\<rparr>"
    "l' = (if regs m' i \<noteq> 0 then Quit else RLoad)" using x by (auto simp: in_do_mm)
  note L = load_stop [OF m e(1)]
  have "reader_at i s' l'" using at e(2,3) L(3) [of 0] RStop by (auto simp: reader_at_def)
  then show ?thesis using e L RStop by (auto simp: only_own_def marks_def)
next
  case RLoad
  then obtain m' cs where e: "(m', cs) \<in> set (exec_instr i (Load i 0 Acquire) [] (sn_mm s))" "s' = s\<lparr>sn_mm := m'\<rparr>" "l' = RMax (nat (regs m' i))"
    using x by (auto simp: in_do_mm)
  obtain ts where ts: "sn_out s i = map snap_config ts" "sorted ts" "set ts \<subseteq> {0<..cur (tv (sn_mm s) i) 0}" "sn_go s" "0 < cur (tv (sn_mm s) i) 0"
    using at RLoad by (auto simp: reader_at_def)
  obtain t where t: "snap_mem m'" "mem m' = mem (sn_mm s)" "regs m' i = int t" "cur (tv (sn_mm s) i) 0 \<le> t" "t \<le> cur (tv m' i) 0"
    "cur (tv m' i) (2 * t) = 1" "cur (tv m' i) (2 * t + 1) = 1" "\<And>j. j \<noteq> i \<Longrightarrow> tv m' j = tv (sn_mm s) j"
    using load_ptr [OF m ts(5) e(1)] by metis
  have "reader_at i s' l'" unfolding reader_at_def using ts t e(2,3) by (intro exI [where x = ts]) force
  then show ?thesis using e t RLoad by (auto simp: only_own_def marks_def)
next
  case (RMax t)
  then obtain m' cs where e: "(m', cs) \<in> set (exec_instr i (Fetch i (2 * t)) [] (sn_mm s))" "s' = s\<lparr>sn_mm := m'\<rparr>" "l' = RTime t (regs m' i)"
    using x by (auto simp: in_do_mm split: if_splits)
  note F = reader_fetch [OF m at _ e(1)]
  show ?thesis using F RMax e at by (auto simp: reader_at_def only_own_def marks_def)
next
  case (RTime t v)
  then obtain m' cs where e: "(m', cs) \<in> set (exec_instr i (Fetch i (2 * t + 1)) [] (sn_mm s))" "l' = RStop"
    "s' = s\<lparr>sn_mm := m', sn_out := (sn_out s)(i := sn_out s i @ [(v, regs m' i)])\<rparr>" using x by auto
  note F = reader_fetch [OF m at _ e(1)]
  obtain ts where ts: "sn_out s i = map snap_config ts" "sorted ts" "set ts \<subseteq> {0<..cur (tv (sn_mm s) i) 0}" "sn_go s" "0 < t"
    "t \<le> cur (tv (sn_mm s) i) 0" "\<forall>u\<in>set ts. u \<le> t" "v = fst (snap_config t)" using at RTime by (auto simp: reader_at_def)
  have "reader_at i s' l'" unfolding reader_at_def
    by (rule exI [where x = "ts @ [t]"]) (use ts F RTime e in \<open>auto simp: sorted_append parity\<close>)
  then show ?thesis using F RTime e by (auto simp: only_own_def marks_def)
qed (use x m at in \<open>auto simp: reader_at_def only_own_def marks_def\<close>)

lemma snap_config_writer: "snap_config (j + 2) = (100 + int j * 10, 5000 - int j * 100)"
  by (simp add: snap_config_def)

lemma snap_mem_ne: "snap_mem m \<Longrightarrow> mem m 0 \<noteq> []"
  unfolding snap_mem_def mm_wf_def by (metis length_greater_0_conv less_zeroE neq0_conv)

lemma writer_step:
  assumes m: "snap_mem (sn_mm s)" and at: "writer_at K s l" and x: "(s', l') \<in> set (effects (snap_thread R K 1 l) s)"
  shows "snap_mem (sn_mm s') \<and> writer_at K s' l' \<and> sn_go s \<and> only_own 1 s s' \<and> marks 1 s l s' l'"
proof (cases l)
  case WWait
  then show ?thesis using m x at by (auto simp: only_own_def marks_def write_next_def split: if_splits)
next
  case (W0 j)
  then obtain m' cs where "(m', cs) \<in> set (exec_instr 1 (Put (2 * (j + 2)) (100 + int j * 10)) [] (sn_mm s))" and e: "s' = s\<lparr>sn_mm := m'\<rparr>" "l' = W1 j"
    using x by (auto simp: in_do_mm)
  then have p: "(m', cs) \<in> set (exec_instr 1 (Put (2 * (j + 2)) (fst (snap_config (j + 2)))) [] (sn_mm s))" by (simp only: snap_config_writer fst_conv)
  have pre: "built 1 0 (sn_mm s)" "j + 2 = length (mem (sn_mm s) 0)" "0 < j + 2" using at W0 by simp_all
  note P = put_first [OF m pre p]
  show ?thesis using P at W0 e by (simp add: only_own_def marks_def)
next
  case (W1 j)
  then obtain m' cs where "(m', cs) \<in> set (exec_instr 1 (Put (2 * (j + 2) + 1) (5000 - int j * 100)) [] (sn_mm s))" and e: "s' = s\<lparr>sn_mm := m'\<rparr>" "l' = W2 j"
    using x by (auto simp: in_do_mm)
  then have p: "(m', cs) \<in> set (exec_instr 1 (Put (2 * (j + 2) + 1) (snd (snap_config (j + 2)))) [] (sn_mm s))" by (simp only: snap_config_writer snd_conv)
  have pre: "built 1 1 (sn_mm s)" "j + 2 = length (mem (sn_mm s) 0)" "0 < j + 2" using at W1 by simp_all
  note P = put_second [OF m pre p]
  show ?thesis using P at W1 e by (simp add: only_own_def marks_def)
next
  case (W2 j)
  then obtain m' cs where p: "(m', cs) \<in> set (exec_instr 1 (Store 0 Release (int (j + 2))) [] (sn_mm s))" and e: "s' = s\<lparr>sn_mm := m'\<rparr>" "l' = write_next K (j + 1)"
    using x by (auto simp: in_do_mm)
  have pre: "built 1 2 (sn_mm s)" "j + 2 = length (mem (sn_mm s) 0)" "0 < j + 2" using at W2 by simp_all
  note P = publish [OF m pre p]
  show ?thesis using P(1,3-5) P(2) [of 1] at W2 e by (auto simp: only_own_def marks_def write_next_def)
qed (use x m at in \<open>auto simp: only_own_def marks_def\<close>)

text \<open>\<open>main\<close>: while it builds the first snapshot nobody else runs.\<close>

lemma inherit_wf: "mm_wf m \<Longrightarrow> mm_wf (inherit i m)" "mm_wf m \<Longrightarrow> mm_wf (after_join i j m)"
  by (auto simp: mm_wf_def inherit_def after_join_def)

lemma inherit_mem:
  assumes "snap_mem m"
  shows "snap_mem (inherit i m)" "snap_mem (after_join i j m)"
proof -
  have wf: "mm_wf m" using assms by (simp add: snap_mem_def)
  show "snap_mem (inherit i m)"
    by (rule snap_mem_cong [OF assms inherit_wf(1) [OF wf]]) (use assms in \<open>simp_all add: inherit_def snap_mem_def\<close>)
  show "snap_mem (after_join i j m)"
    by (rule snap_mem_cong [OF assms inherit_wf(2) [OF wf]]) (use assms in \<open>simp_all add: after_join_def snap_mem_def\<close>)
qed

lemma main_build:
  assumes m: "snap_mem (sn_mm s)" and at: "main_at R s l" and l: "l \<in> {Init0, Init1, Init2}"
    and x: "(s', l') \<in> set (effects (snap_thread R K 0 l) s)"
  shows "snap_mem (sn_mm s') \<and> main_at R s' l' \<and> \<not> sn_go s \<and> only_own 0 s s' \<and> marks 0 s l s' l'"
proof -
  have c: "snap_config (Suc 0) = (100, 5000)" by (simp add: snap_config_def)
  consider "l = Init0" | "l = Init1" | "l = Init2" using l by blast
  then show ?thesis
  proof cases
    case 1
    then obtain m' cs where p: "(m', cs) \<in> set (exec_instr 0 (Put (2 * Suc 0) (fst (snap_config (Suc 0)))) [] (sn_mm s))" and e: "s' = s\<lparr>sn_mm := m'\<rparr>" "l' = Init1"
      using x by (auto simp: in_do_mm c)
    have pre: "built 0 0 (sn_mm s)" "Suc 0 = length (mem (sn_mm s) 0)" using at 1 by simp_all
    note P = put_first [OF m pre zero_less_Suc p]
    show ?thesis using P at 1 e by (simp add: only_own_def marks_def)
  next
    case 2
    then obtain m' cs where p: "(m', cs) \<in> set (exec_instr 0 (Put (2 * Suc 0 + 1) (snd (snap_config (Suc 0)))) [] (sn_mm s))" and e: "s' = s\<lparr>sn_mm := m'\<rparr>" "l' = Init2"
      using x by (auto simp: in_do_mm c)
    have pre: "built 0 1 (sn_mm s)" "Suc 0 = length (mem (sn_mm s) 0)" using at 2 by simp_all
    note P = put_second [OF m pre zero_less_Suc p]
    show ?thesis using P at 2 e by (simp add: only_own_def marks_def)
  next
    case 3
    then obtain m' cs where p: "(m', cs) \<in> set (exec_instr 0 (Store 0 Release (int (Suc 0))) [] (sn_mm s))" and e: "s' = s\<lparr>sn_mm := m'\<rparr>" "l' = Spawn"
      using x by (auto simp: in_do_mm)
    have pre: "built 0 2 (sn_mm s)" "Suc 0 = length (mem (sn_mm s) 0)" using at 3 by simp_all
    note P = publish [OF m pre zero_less_Suc p]
    show ?thesis using P(1,3-5) P(2) [of 1] at 3 e by (simp add: only_own_def marks_def)
  qed
qed

lemma snap_main_step:
  assumes inv: "snap_inv R K s ls" and x: "(s', l') \<in> set (effects (snap_thread R K 0 (ls ! 0)) s)"
  shows "snap_mem (sn_mm s') \<and> main_at R s' l' \<and> writer_at K s' (ls ! 1) \<and> (\<forall>j. 2 \<le> j \<and> j < R + 2 \<longrightarrow> reader_at j s' (ls ! j)) \<and>
    sn_done s' = sn_done s"
proof -
  note I = inv [unfolded snap_inv_def]
  have m: "snap_mem (sn_mm s)" and at: "main_at R s (ls ! 0)" and w: "writer_at K s (ls ! 1)" using I by auto
  have r: "reader_at j s (ls ! j)" if "2 \<le> j" "j < R + 2" for j using I that by blast
  have ended: "ls ! 1 = Ended" if "1 \<in> sn_done s" using I that by auto
  consider (build) "ls ! 0 \<in> {Init0, Init1, Init2}" | (spawn) "ls ! 0 = Spawn" | (join) "ls ! 0 = JoinW" | (stop) "ls ! 0 = SetStop"
    | (last) "ls ! 0 = JoinR" | (none) "ls ! 0 = Ended" using at by (cases "ls ! 0") auto
  then show ?thesis
  proof cases
    case build
    note B = main_build [OF m at build x]
    have "ls ! 1 = WWait" using w B by (cases "ls ! 1") auto
    moreover have "reader_at j s' (ls ! j)" if "2 \<le> j" "j < R + 2" for j
      by (rule reader_at_cong [OF r [OF that]]) (use B that in \<open>auto simp: only_own_def\<close>)
    moreover have "sn_done s' = sn_done s" using B build by (auto simp: marks_def)
    ultimately show ?thesis using B by (simp add: only_own_def)
  next
    case spawn
    then have e: "s' = s\<lparr>sn_go := True, sn_mm := inherit 0 (sn_mm s)\<rparr>" "l' = JoinW" using x by auto
    have len: "length (mem (sn_mm s) 0) = 2" "built 1 0 (sn_mm s)" "cur (tv (sn_mm s) 0) 0 = 1" "\<not> sn_go s" using at spawn by auto
    have "built 1 0 (inherit 0 (sn_mm s))" using len(2) by (simp add: built_def blank_def inherit_def)
    moreover have "ls ! 1 = WWait" using w len(4) by (cases "ls ! 1") auto
    moreover have "reader_at j s' (ls ! j)" if "2 \<le> j" "j < R + 2" for j
    proof -
      have "ls ! j = RWait \<and> sn_out s j = []" using r [OF that] len(4) by (cases "ls ! j") (auto simp: reader_at_def)
      then show ?thesis using len(3) by (auto simp: reader_at_def e inherit_def)
    qed
    ultimately show ?thesis using e len(1) inherit_mem(1) [OF m] by (simp add: inherit_def)
  next
    case join
    then have e: "s' = s\<lparr>sn_mm := after_join 0 1 (sn_mm s)\<rparr>" "l' = SetStop" "1 \<in> sn_done s" using x by (auto split: if_splits)
    have "reader_at j s' (ls ! j)" if "2 \<le> j" "j < R + 2" for j
      by (rule reader_at_cong [OF r [OF that]]) (use that in \<open>auto simp: e after_join_def\<close>)
    moreover have "writer_at K s' (ls ! 1)" using w ended [OF e(3)] by (simp add: e after_join_def)
    ultimately show ?thesis using e at join inherit_mem(2) [OF m] by simp
  next
    case stop
    then obtain m' cs where e: "(m', cs) \<in> set (exec_instr 0 (Store 1 Relaxed 1) [] (sn_mm s))" "s' = s\<lparr>sn_mm := m'\<rparr>" "l' = JoinR"
      using x by (auto simp: in_do_mm)
    note S = store_stop [OF m e(1)]
    have d: "1 \<in> sn_done s" "sn_go s" using at stop by auto
    have "reader_at j s' (ls ! j)" if "2 \<le> j" "j < R + 2" for j
      by (rule reader_at_cong [OF r [OF that]]) (use that S e in auto)
    moreover have "writer_at K s' (ls ! 1)" using w ended [OF d(1)] S(2) by (simp add: e)
    ultimately show ?thesis using e d S(1,3) by simp
  qed (use x m w r at in \<open>auto split: if_splits\<close>)
qed

lemma snap_inv_step:
  assumes inv: "snap_inv R K s ls" and i: "i < length ls" and x: "(s', l') \<in> set (effects (snap_thread R K i (ls ! i)) s)"
  shows "snap_inv R K s' (ls[i := l'])"
proof -
  note I = inv [unfolded snap_inv_def]
  note m = conjunct1 [OF conjunct2 [OF I]]
  have len: "length ls = R + 2" using I by blast
  have readers: "reader_at j s' (ls ! j)" if "only_own i s s'" "2 \<le> j" "j < R + 2" "j \<noteq> i" for j
  proof -
    have "reader_at j s (ls ! j)" using I that(2,3) by blast
    then show ?thesis by (rule reader_at_cong) (use that(1,4) in \<open>auto simp: only_own_def\<close>)
  qed
  have dones: "\<forall>j<R + 2. j \<in> sn_done s' \<longleftrightarrow> 0 < j \<and> ls[i := l'] ! j = Ended" if "marks i s (ls ! i) s' l'" "0 < i"
    using I that i by (auto simp: marks_def nth_list_update)
  consider (m) "i = 0" | (w) "i = 1" | (r) "2 \<le> i" by linarith
  then show ?thesis
  proof cases
    case r
    note st = reader_step [OF m _ x]
    have at: "reader_at i s (ls ! i)" using I r i by auto
    have "sn_done s \<subseteq> sn_done s'" using st [OF at] by (auto simp: marks_def)
    then have "main_at R s' (ls ! 0)" "writer_at K s' (ls ! 1)"
      using st [OF at] I r main_at_cong [of R s "ls ! 0" s'] writer_at_cong [of K s "ls ! 1" s'] by (simp_all add: only_own_def)
    moreover have "reader_at j s' (ls[i := l'] ! j)" if "2 \<le> j" "j < R + 2" for j
      using st [OF at] readers that i by (cases "j = i") auto
    ultimately show ?thesis using st [OF at] dones r len unfolding snap_inv_def by simp
  next
    case w
    have at: "writer_at K s (ls ! 1)" using I by blast
    have x1: "(s', l') \<in> set (effects (snap_thread R K 1 (ls ! 1)) s)" using x w by simp
    note st = writer_step [OF m at x1]
    have "ls ! 0 = JoinW" using I st w by (cases "ls ! 0") (auto simp: marks_def)
    then have "main_at R s' (ls[i := l'] ! 0)" using st w by (simp add: only_own_def)
    moreover have "reader_at j s' (ls[i := l'] ! j)" if "2 \<le> j" "j < R + 2" for j using st readers that w by simp
    ultimately show ?thesis using st dones w len unfolding snap_inv_def by simp
  next
    case m
    have x0: "(s', l') \<in> set (effects (snap_thread R K 0 (ls ! 0)) s)" using x m by simp
    note st = snap_main_step [OF inv x0]
    have "\<forall>j<R + 2. j \<in> sn_done s' \<longleftrightarrow> 0 < j \<and> ls[i := l'] ! j = Ended" using st I m by (auto simp: nth_list_update)
    then show ?thesis using st m len unfolding snap_inv_def by simp
  qed
qed

lemma snap_inv_init: "snap_inv R K snap_init (snap_threads R)"
proof -
  have "snap_mem mm_init" using mm_wf_init by (simp add: snap_mem_def blank_def) (simp add: mm_init_def)
  moreover have "main_at R snap_init Init0" by (simp add: snap_init_def built_def blank_def mm_init_def)
  moreover have "snap_threads R ! j = RWait" if "2 \<le> j" "j < R + 2" for j
    using that by (simp add: snap_threads_def nth_Cons split: nat.splits)
  moreover have "snap_threads R ! j \<noteq> Ended" if "j < R + 2" for j
    using that by (auto simp: snap_threads_def nth_Cons split: nat.splits)
  ultimately show ?thesis by (simp add: snap_inv_def snap_init_def reader_at_def) (simp add: snap_threads_def)
qed

interpretation snap: monitor_invariant "snap_thread R K" snap_init "snap_threads R" "snap_inv R K" for R K
  by unfold_locales (auto intro: snap_inv_step snap_inv_init)

interpretation snap: act_only "snap_thread R K" for R K
proof
  show "snap_thread R K i l \<noteq> Monitor m w b" for i l m w b by (cases l) simp_all
qed

subsection \<open>The program can always end\<close>

fun snap_weight :: "nat \<Rightarrow> snap_loc \<Rightarrow> nat" where
  "snap_weight K Init0 = 7"
| "snap_weight K Init1 = 6"
| "snap_weight K Init2 = 5"
| "snap_weight K Spawn = 4"
| "snap_weight K JoinW = 3"
| "snap_weight K SetStop = 2"
| "snap_weight K JoinR = 1"
| "snap_weight K WWait = 3 * K + 2"
| "snap_weight K (W0 j) = 3 * (K - j) + 1"
| "snap_weight K (W1 j) = 3 * (K - j)"
| "snap_weight K (W2 j) = 3 * (K - j) - 1"
| "snap_weight K RWait = 3"
| "snap_weight K RLoad = 5"
| "snap_weight K (RMax t) = 4"
| "snap_weight K (RTime t v) = 3"
| "snap_weight K RStop = 2"
| "snap_weight K Quit = 1"
| "snap_weight K Ended = 0"

definition snap_todo :: "nat \<Rightarrow> snap_state \<Rightarrow> snap_loc list \<Rightarrow> nat" where
  "snap_todo K s ls = sum_list (map (snap_weight K) ls)"

definition can_advance :: "nat \<Rightarrow> nat \<Rightarrow> nat \<Rightarrow> snap_state \<Rightarrow> snap_loc \<Rightarrow> bool" where
  "can_advance R K i s l \<longleftrightarrow> (\<exists>s' l'. (s', l') \<in> set (effects (snap_thread R K i l) s) \<and> snap_weight K l' < snap_weight K l)"

lemma exec_some: "\<exists>m'. (m', []) \<in> set (exec_instr i (Put x v) [] m)" "\<exists>m'. (m', []) \<in> set (exec_instr i (Store x ord v) [] m)"
  by (simp_all add: exec_instr.simps)

lemma load_latest:
  assumes "mm_wf m" "ord \<noteq> SeqCst"
  shows "\<exists>m'. (m', []) \<in> set (exec_instr i (Load i x ord) [] m) \<and> regs m' i = fst (last (mem m x))"
proof -
  have lt: "cur (tv m i) x < length (mem m x)" by (rule mm_wf_cur [OF assms(1)])
  then have t: "length (mem m x) - 1 \<in> set (readable i x m)" by (auto simp: readable_def)
  have "mem m x ! (length (mem m x) - 1) = last (mem m x)" using lt last_conv_nth [of "mem m x"] by fastforce
  then show ?thesis using t assms(2) by (force simp: exec_instr.simps sc_enter_def sc_leave_def Let_def image_iff)
qed

lemma fetch_some:
  assumes "mm_wf m"
  shows "\<exists>m'. (m', []) \<in> set (exec_instr i (Fetch r x) [] m)"
proof -
  have "length (mem m x) - 1 \<in> set (readable i x m)" using mm_wf_cur [OF assms, of i x] by (auto simp: readable_def)
  then show ?thesis by (force simp: exec_instr.simps image_iff)
qed

lemma reader_advances:
  assumes m: "snap_mem (sn_mm s)" and at: "reader_at i s l" and go: "sn_go s" "stopped (sn_mm s)" "l \<noteq> Ended"
  shows "can_advance R K i s l"
proof -
  have wf: "mm_wf (sn_mm s)" using m by (simp add: snap_mem_def)
  show ?thesis
  proof (cases l)
    case RStop
    then show ?thesis using load_latest [OF wf, of Relaxed i 1] go(2) by (fastforce simp: can_advance_def in_do_mm)
  next
    case RLoad
    then show ?thesis using load_latest [OF wf, of Acquire i 0] by (fastforce simp: can_advance_def in_do_mm)
  next
    case (RMax t)
    then have "0 < t" using at by (auto simp: reader_at_def)
    then show ?thesis using RMax fetch_some [OF wf, of i i "2 * t"] by (fastforce simp: can_advance_def in_do_mm)
  next
    case (RTime t v)
    then show ?thesis using fetch_some [OF wf, of i i "2 * t + 1"] by (fastforce simp: can_advance_def)
  qed (use at go in \<open>auto simp: reader_at_def can_advance_def\<close>)
qed

lemma writer_advances:
  assumes "writer_at K s l" "sn_go s" "l \<noteq> Ended"
  shows "can_advance R K 1 s l"
proof (cases l)
  case (W0 j)
  then show ?thesis using exec_some(1) [of 1 "2 * (j + 2)" "100 + int j * 10" "sn_mm s"] assms(1) by (fastforce simp: can_advance_def in_do_mm)
next
  case (W1 j)
  then show ?thesis using exec_some(1) [of 1 "2 * (j + 2) + 1" "5000 - int j * 100" "sn_mm s"] assms(1) by (fastforce simp: can_advance_def in_do_mm)
next
  case (W2 j)
  then show ?thesis using exec_some(2) [of 1 0 Release "int (j + 2)" "sn_mm s"] assms(1)
    by (fastforce simp: can_advance_def in_do_mm write_next_def)
qed (use assms in \<open>auto simp: can_advance_def write_next_def\<close>)

lemma main_advances:
  assumes "main_at R s l" "l \<notin> {JoinW, JoinR, Ended}"
  shows "can_advance R K 0 s l"
  using assms exec_some(1) [of 0 2 100 "sn_mm s"] exec_some(1) [of 0 3 5000 "sn_mm s"] exec_some(2) [of 0 0 Release 1 "sn_mm s"]
    exec_some(2) [of 0 1 Relaxed 1 "sn_mm s"]
  by (cases l) (fastforce simp: can_advance_def in_do_mm)+

lemma someone_advances:
  assumes inv: "snap_inv R K s ls" and i: "i < length ls" "ls ! i \<noteq> Ended"
  shows "\<exists>j<length ls. can_advance R K j s (ls ! j)"
proof -
  note I = inv [unfolded snap_inv_def]
  have len: "length ls = R + 2" and at: "main_at R s (ls ! 0)" using I by blast+
  show ?thesis
  proof (cases "ls ! 0 \<in> {JoinW, JoinR, Ended}")
    case False
    then show ?thesis using main_advances [OF at] len by (intro exI [where x = 0]) simp
  next
    case True
    show ?thesis
    proof (cases "1 \<in> sn_done s")
      case False
      then have "ls ! 0 = JoinW \<and> sn_go s \<and> ls ! 1 \<noteq> Ended" using True at I by auto
      moreover have "writer_at K s (ls ! 1)" using I by blast
      ultimately show ?thesis using writer_advances len by (intro exI [where x = 1]) simp
    next
      case w: True
      show ?thesis
      proof (cases "set [2..<R + 2] \<subseteq> sn_done s")
        case all: True
        have "j \<in> sn_done s" if "0 < j" "j < R + 2" for j
        proof -
          have "j = 1 \<or> j \<in> set [2..<R + 2]" using that unfolding set_upt atLeastLessThan_iff by linarith
          then show ?thesis using w all by blast
        qed
        then have "ls ! 0 \<noteq> Ended" using I i len by (metis neq0_conv)
        then show ?thesis using True w all len by (intro exI [where x = 0]) (auto simp: can_advance_def)
      next
        case False
        then have "\<exists>j\<in>set [2..<R + 2]. j \<notin> sn_done s" by blast
        then obtain j where j: "2 \<le> j" "j < R + 2" "j \<notin> sn_done s" by (metis set_upt atLeastLessThan_iff)
        have ne: "ls ! j \<noteq> Ended" and r: "reader_at j s (ls ! j)" using I j by auto
        show ?thesis
        proof (cases "ls ! 0 = JoinW")
          case True
          then show ?thesis using w len by (intro exI [where x = 0]) (auto simp: can_advance_def)
        next
          case no: False
          have "ls ! 0 \<noteq> Ended"
          proof
            assume "ls ! 0 = Ended"
            then have "set [2..<R + 2] \<subseteq> sn_done s" using at by (simp only: main_at.simps)
            then show False using \<open>\<not> set [2..<R + 2] \<subseteq> sn_done s\<close> by blast
          qed
          then have "ls ! 0 = JoinR" using True no by blast
          then have "sn_go s" "stopped (sn_mm s)" using at by auto
          then show ?thesis using reader_advances [OF _ r _ _ ne] I j(2) len by (intro exI [where x = j]) simp
        qed
      qed
    qed
  qed
qed

interpretation snap: may_finish "snap_thread R K" snap_init "snap_threads R" "snap_inv R K" "snap_todo K" for R K
proof
  fix s ls i assume inv: "snap_inv R K s ls" and i: "i < length ls" "snap_thread R K i (ls ! i) \<noteq> Fin"
  then obtain j s' l' where j: "j < length ls" "(s', l') \<in> set (effects (snap_thread R K j (ls ! j)) s)" "snap_weight K l' < snap_weight K (ls ! j)"
    using someone_advances [OF inv i(1)] by (force simp: can_advance_def)
  obtain T where "sum_list (map (snap_weight K) ls) = T + snap_weight K (ls ! j)" "\<And>x. sum_list (map (snap_weight K) (ls[j := x])) = T + snap_weight K x"
    using sum_list_split [OF j(1)] by blast
  then have "snap_todo K s' (ls[j := l']) < snap_todo K s ls" using j(3) by (simp add: snap_todo_def)
  then show "\<exists>s' ls'. reach (astep (snap_thread R K)) (s, ls) (s', ls') \<and> snap_todo K s' ls' < snap_todo K s ls"
    using astepI [where P = "snap_thread R K", OF j(1,2)] by blast
qed

text \<open>C40: readers of an atomic pointer see whole snapshots, and never an older one after a newer one. Whatever the memory lets them see,
  there is no data race and nobody dereferences a null pointer or a pointer to an unfinished object; every line of a
  reader shows the two fields of one published snapshot, in the order of publication. From every
  reachable state the program can still end; nothing moves any more only when all have returned, and then all updates are published.\<close>

theorem snapshots_consistent:
  assumes "reach (step (snap_thread R K)) (snap_start R) c"
  shows "\<not> race (sn_mm (shared c)) \<and>
    (\<forall>i. 2 \<le> i \<and> i < R + 2 \<longrightarrow> (\<exists>ts. sn_out (shared c) i = map snap_config ts \<and> sorted ts \<and>
       set ts \<subseteq> {0<..<length (mem (sn_mm (shared c)) 0)})) \<and>
    (\<exists>d. reach (step (snap_thread R K)) c d \<and> all_fin (snap_thread R K) d) \<and>
    (stuck (snap_thread R K) c \<longrightarrow> all_fin (snap_thread R K) c \<and> length (mem (sn_mm (shared c)) 0) = K + 2)"
proof (intro conjI allI impI)
  note r = assms [unfolded snap_start_def]
  have inv: "snap_inv R K (shared c) (locs c)" by (rule snap.I_reach [OF r])
  then have mem: "snap_mem (sn_mm (shared c))" by (simp add: snap_inv_def)
  then show "\<not> race (sn_mm (shared c))" by (simp add: snap_mem_def)
  show "\<exists>d. reach (step (snap_thread R K)) c d \<and> all_fin (snap_thread R K) d" by (rule snap.can_finish [OF r])
  fix i assume "2 \<le> i \<and> i < R + 2"
  then have "reader_at i (shared c) (locs c ! i)" using inv by (simp add: snap_inv_def del: nth_locs)
  moreover have "cur (tv (sn_mm (shared c)) i) 0 < length (mem (sn_mm (shared c)) 0)"
    using mem mm_wf_cur by (simp add: snap_mem_def)
  ultimately show "\<exists>ts. sn_out (shared c) i = map snap_config ts \<and> sorted ts \<and> set ts \<subseteq> {0<..<length (mem (sn_mm (shared c)) 0)}"
    by (fastforce simp: reader_at_def)
next
  note r = assms [unfolded snap_start_def]
  assume st: "stuck (snap_thread R K) c"
  show fin: "all_fin (snap_thread R K) c" by (rule snap.stuck_fin [OF r st])
  have inv: "snap_inv R K (shared c) (locs c)" by (rule snap.I_reach [OF r])
  have "1 < length (thr c)" using inv by (simp add: snap_inv_def)
  then obtain l where "thr c ! 1 = At l" "snap_thread R K 1 l = Fin" using fin by (auto simp: all_fin_def)
  then have "snap_thread R K 1 (locs c ! 1) = Fin" using \<open>1 < length (thr c)\<close> by simp
  moreover have "writer_at K (shared c) (locs c ! 1)" using inv by (simp add: snap_inv_def del: nth_locs)
  ultimately show "length (mem (sn_mm (shared c)) 0) = K + 2" by (cases "locs c ! 1") auto
qed

text \<open>With the numbers of the source: from the start the program can end, and then all five updates are published.\<close>

theorem snapshots_consistent_witness:
  "\<exists>d. reach (step (snap_thread 4 5)) (snap_start 4) d \<and> all_fin (snap_thread 4 5) d \<and> length (mem (sn_mm (shared d)) 0) = 7"
proof -
  obtain d where d: "reach (step (snap_thread 4 5)) (snap_start 4) d" "all_fin (snap_thread 4 5) d"
    using snapshots_consistent [OF reach_refl, of 4 5] by blast
  show ?thesis using snapshots_consistent [OF d(1)] d all_fin_stuck [OF d(2)] by auto
qed

definition coherence_demo :: "(mm_state, instr list) cfg" where
  "coherence_demo = snd (drive mm_thread [1, 0] 4 (mm_start (ar_main 42)))"

theorem coherence_witness: "grows mm_init (shared coherence_demo) \<and> length (mem (shared coherence_demo) 0) = 2"
proof -
  have r: "reach (step mm_thread) (mm_start (ar_main 42)) coherence_demo" unfolding coherence_demo_def by (rule drive_reach)
  have "length (mem (shared coherence_demo) 0) = 2" by code_simp
  then show ?thesis using coherence [OF reach_refl r] by (simp add: mm_start_def start_def)
qed

definition snap_demo :: "(snap_state, snap_loc) cfg" where
  "snap_demo = snd (drive (snap_thread 1 1) [2] 5 (snd (drive (snap_thread 1 1) [0] 4 (snap_start 1))))"

lemma snap_demo: "sn_out (shared snap_demo) 2 = [(100, 5000)]"
  by code_simp

end
