(* ===== verification/Detached.thy ===== *)
theory Detached
  imports ForkJoin
begin

text \<open>
  Threads that run beside \<open>main\<close>, detached or joined later: \<open>examples/01_pthreads/01_basics/04_thread_join.c\<close>,
  \<open>05_thread_attr.c\<close>, \<open>02_thread_args.c\<close> and \<open>examples/02_cpp11_threads/01_basics/03_join_detach.cpp\<close>, with the commands
  of \<open>ForkJoin\<close>. The process lives on until \<open>main\<close> returns; whether a detached thread is done by then depends on the schedule.
\<close>

subsection \<open>05_thread_attr.c\<close>

text \<open>The address of the buffer is a parameter; the size of the stack has no effect on the steps.\<close>

definition attr_worker :: "int \<Rightarrow> fj_cmd list" where
  "attr_worker buf = [Print ''[worker] stack-allocated 256 KiB at'' [buf], Print ''[worker] done'' [], Return 0]"

definition attr_main :: "fj_cmd list" where
  "attr_main = [Spawn 1, Print ''[main] exiting'' []]"

subsection \<open>Created before joined\<close>

text \<open>\<open>main\<close> joins and asks only threads that it has created (\<open>S\<close>).\<close>

fun created :: "nat set \<Rightarrow> fj_cmd list \<Rightarrow> bool" where
  "created S [] = True"
| "created S (Spawn k # cs) = created (insert k S) cs"
| "created S (Join k # cs) = (k \<in> S \<and> created S cs)"
| "created S (PrintResult f vs k # cs) = (k \<in> S \<and> created S cs)"
| "created S (Begin # cs) = False"
| "created S (Return v # cs) = False"
| "created S (c # cs) = created S cs"

definition forked :: "nat \<Rightarrow> (nat \<Rightarrow> fj_cmd list) \<Rightarrow> fj_cmd list \<Rightarrow> bool" where
  "forked n w ms \<longleftrightarrow> created {} ms \<and> set (spawns ms) = {1..n} \<and> (\<forall>k\<in>{1..n}. body (w k))"

definition worker_state :: "(nat \<Rightarrow> fj_cmd list) \<Rightarrow> fj_state \<Rightarrow> nat \<Rightarrow> fj_cmd list \<Rightarrow> bool" where
  "worker_state w s k cs \<longleftrightarrow> (if cs = [] then fj_result s k \<noteq> None else cs = Begin # w k \<or> body cs)"

definition forked_inv :: "nat \<Rightarrow> (nat \<Rightarrow> fj_cmd list) \<Rightarrow> fj_state \<Rightarrow> fj_cmd list list \<Rightarrow> bool" where
  "forked_inv n w s ls \<longleftrightarrow> length ls = Suc n \<and> (\<forall>k\<in>{1..n}. body (w k) \<and> worker_state w s k (ls ! k)) \<and> set (spawns (ls ! 0)) \<subseteq> {1..n} \<and>
     (\<exists>S \<subseteq> {1..n}. created S (ls ! 0) \<and> (\<forall>k\<in>S. fj_started s k) \<and> {1..n} \<subseteq> S \<union> set (spawns (ls ! 0)))"

lemma fj_exec_mono:
  assumes "s' \<in> set (fj_exec t c s)"
  shows "fj_started s k \<Longrightarrow> fj_started s' k" "fj_result s k \<noteq> None \<Longrightarrow> fj_result s' k \<noteq> None"
  using assms by (cases c; auto simp: fj_say_def split: if_split_asm option.split_asm)+

lemma worker_state_keep: "worker_state w s k cs \<Longrightarrow> s' \<in> set (fj_exec t c s) \<Longrightarrow> worker_state w s' k cs"
  using fj_exec_mono(2) by (auto simp: worker_state_def split: if_split_asm)

lemma body_not_Nil [simp]: "\<not> body []"
  by simp

lemma worker_state_step:
  assumes "worker_state w s k (c # cs)" "body (w k)" "s' \<in> set (fj_exec k c s)"
  shows "worker_state w s' k cs"
proof (cases "c = Begin")
  case True
  then show ?thesis using assms by (auto simp: worker_state_def split: if_split_asm)
next
  case False
  then have "body (c # cs)" using assms(1) by (auto simp: worker_state_def)
  from body_Cons [OF this] show ?thesis using assms(3) by (auto simp: worker_state_def)
qed

lemma forked_step:
  assumes inv: "forked_inv n w s ls" and t: "t < length ls" "ls ! t = c # cs" and x: "s' \<in> set (fj_exec t c s)"
  shows "forked_inv n w s' (ls[t := cs])"
proof -
  note I = inv [unfolded forked_inv_def]
  obtain S where S: "S \<subseteq> {1..n}" "created S (ls ! 0)" "\<forall>k\<in>S. fj_started s k" "{1..n} \<subseteq> S \<union> set (spawns (ls ! 0))" using I by blast
  have main: "set (spawns (ls[t := cs] ! 0)) \<subseteq> {1..n} \<and>
     (\<exists>S \<subseteq> {1..n}. created S (ls[t := cs] ! 0) \<and> (\<forall>k\<in>S. fj_started s' k) \<and> {1..n} \<subseteq> S \<union> set (spawns (ls[t := cs] ! 0)))"
  proof (cases "t = 0")
    case False
    then show ?thesis using I S fj_exec_mono(1) [OF x] by (intro conjI exI [where x = S]) auto
  next
    case True
    show ?thesis
    proof (cases "\<exists>k. c = Spawn k")
      case sp: True
      then obtain k where k: "c = Spawn k" by blast
      have "k \<in> {1..n}" "fj_started s' k" using I k x t True by auto
      then show ?thesis using I S t True k fj_exec_mono(1) [OF x] by (intro conjI exI [where x = "insert k S"]) auto
    next
      case no: False
      have "spawns (c # cs) = spawns cs" "created S cs" using no S(2) t True by (cases c; auto)+
      then show ?thesis using I S t True fj_exec_mono(1) [OF x] by (intro conjI exI [where x = S]) auto
    qed
  qed
  have "worker_state w s' k (ls[t := cs] ! k)" if k: "k \<in> {1..n}" for k
  proof -
    have wk: "worker_state w s k (ls ! k)" "body (w k)" using I k by blast+
    then show ?thesis using worker_state_step [of w s t c cs s'] worker_state_keep [OF _ x] t x by (cases "k = t") auto
  qed
  then show ?thesis using main I by (simp add: forked_inv_def)
qed

lemma forked_reach:
  assumes "forked n w ms" "reach (step (script (once fj_exec))) (fj_start n w ms) c"
  shows "forked_inv n w (shared c) (locs c)"
proof -
  have "forked_inv n w fj_init (fj_threads n w ms)"
    using assms(1) by (auto simp: forked_inv_def forked_def fj_threads_def worker_state_def nth_Cons split: nat.splits)
  then have "script_invariant (once fj_exec) fj_init (fj_threads n w ms) (forked_inv n w)"
    by unfold_locales (auto intro: forked_step)
  from script_invariant.script_reach [OF this assms(2) [unfolded fj_start_def]] show ?thesis .
qed

text \<open>No such program can deadlock: a worker that was created never waits.\<close>

lemma forked_stuck:
  assumes ok: "forked n w ms" and r: "reach (step (script (once fj_exec))) (fj_start n w ms) c" and st: "stuck (script (once fj_exec)) c"
  shows "all_fin (script (once fj_exec)) c"
proof -
  let ?s = "shared c"
  note I = forked_reach [OF ok r, unfolded forked_inv_def]
  note r' = r [unfolded fj_start_def]
  have len: "length (fj_threads n w ms) = Suc n" by (simp add: fj_threads_def)
  note now = script_stuckD [OF r' st, unfolded len]
  obtain S where S: "S \<subseteq> {1..n}" "created S (locs c ! 0)" "\<forall>k\<in>S. fj_started ?s k" "{1..n} \<subseteq> S \<union> set (spawns (locs c ! 0))" using I by blast
  have gone: "locs c ! k = [] \<and> fj_result ?s k \<noteq> None" if k: "k \<in> S" for k
  proof -
    have kn: "k \<in> {1..n}" "fj_started ?s k" "worker_state w ?s k (locs c ! k)" using S k I by auto
    have "locs c ! k = []"
    proof (rule ccontr)
      assume ne: "locs c ! k \<noteq> []"
      then obtain d ds where d: "locs c ! k = d # ds" "fj_exec k d ?s = []" using now [of k] kn(1) by (auto simp del: nth_locs)
      then have "d = Begin \<or> body (d # ds)" using kn(3) by (auto simp: worker_state_def)
      then show False using d(2) kn(2) by (cases d) auto
    qed
    then show ?thesis using kn(3) by (simp add: worker_state_def)
  qed
  have main: "locs c ! 0 = []"
  proof (rule ccontr)
    assume "locs c ! 0 \<noteq> []"
    then obtain d ds where d: "locs c ! 0 = d # ds" "fj_exec 0 d ?s = []" using now [of 0] by (auto simp del: nth_locs)
    moreover have "\<forall>k\<in>S. fj_result ?s k \<noteq> None" using gone by blast
    ultimately show False using S(2) by (cases d) (auto simp del: nth_locs split: option.splits if_splits)
  qed
  have "{1..n} \<subseteq> S" using S(4) main by simp
  then have "k \<in> S" if "0 < k" "k < Suc n" for k using that by auto
  then have "locs c ! k = []" if "k < Suc n" for k using main gone that by (cases "k = 0") blast+
  then show ?thesis using script_all_fin [OF r' st] len by simp
qed

subsection \<open>The programs\<close>

definition detached_basics :: "int \<Rightarrow> (nat \<times> (nat \<Rightarrow> fj_cmd list) \<times> fj_cmd list) list" where
  "detached_basics buf = [(2, join_worker, join_main), (3, detach_worker, detach_main), (1, \<lambda>k. attr_worker buf, attr_main)]"

lemma spawns_append [simp]: "spawns (cs @ ds) = spawns cs @ spawns ds"
  by (induction cs rule: spawns.induct) auto

lemma atLeastAtMost_small: "{Suc 0..2} = {1, 2}" "{Suc 0..3} = {1, 2, 3}"
  by auto

lemma detached_forked: "(n, w, ms) \<in> set (detached_basics buf) \<Longrightarrow> forked n w ms"
  by (auto simp: detached_basics_def forked_def join_main_def join_worker_def joinable_fn_def detached_fn_def detach_main_def detach_worker_def
    task_def attr_main_def attr_worker_def atLeastAtMost_small upt_rec)

lemma literal_body: "(n, w, ms) \<in> set (detached_basics buf) \<Longrightarrow> c \<in> set (w k) \<Longrightarrow> literal c"
  by (auto simp: detached_basics_def join_worker_def joinable_fn_def detached_fn_def detach_worker_def task_def attr_worker_def split: if_split_asm)

text \<open>Without a step of the last thread \<open>main\<close> still comes to its end.\<close>

lemma main_over_first:
  assumes "(n, w, ms) \<in> set (detached_basics buf)"
  shows "\<exists>d. reach (step (script (once fj_exec))) (fj_start n w ms) d \<and> locs d ! 0 = [] \<and> fj_output n (shared d) = []"
proof -
  let ?d = "\<lambda>n w ms. snd (drive (script (once fj_exec)) ([1..<n] @ [0]) 40 (fj_start n w ms))"
  have "locs (?d 2 join_worker join_main) ! 0 = [] \<and> fj_output 2 (shared (?d 2 join_worker join_main)) = []" by code_simp
  moreover have "locs (?d 3 detach_worker detach_main) ! 0 = [] \<and> fj_output 3 (shared (?d 3 detach_worker detach_main)) = []" by code_simp
  moreover have "locs (?d 1 (\<lambda>k. attr_worker buf) attr_main) ! 0 = [] \<and> fj_output 1 (shared (?d 1 (\<lambda>k. attr_worker buf) attr_main)) = []" by code_simp
  ultimately have "locs (?d n w ms) ! 0 = [] \<and> fj_output n (shared (?d n w ms)) = []" using assms by (auto simp: detached_basics_def)
  then show ?thesis using drive_reach by blast
qed

text \<open>threads that are not joined. Whatever the schedule, each thread of the programs that detach one prints its own lines in order,
  as far as it has come, and nothing can deadlock: left to run, every thread prints all its lines. But
  \<open>main\<close> may be over before the detached thread, the last one, has printed anything.\<close>

theorem detached_runs_on:
  assumes "(n, w, ms) \<in> set (detached_basics buf)" "reach (step (script (once fj_exec))) (fj_start n w ms) c"
  shows "(\<forall>i. 0 < i \<and> i \<le> n \<longrightarrow> (\<exists>rest. fj_output i (shared c) @ rest = fj_lines (w i))) \<and>
    (stuck (script (once fj_exec)) c \<longrightarrow> all_fin (script (once fj_exec)) c \<and> (\<forall>i. 0 < i \<and> i \<le> n \<longrightarrow> fj_output i (shared c) = fj_lines (w i))) \<and>
    (\<exists>d. reach (step (script (once fj_exec))) (fj_start n w ms) d \<and> locs d ! 0 = [] \<and> fj_output n (shared d) = [])"
proof (intro conjI allI impI)
  note r = assms(2) [unfolded fj_start_def]
  have out: "fj_output i (shared c) @ fj_lines (locs c ! i) = fj_lines (w i)" if i: "0 < i \<and> i \<le> n" for i
  proof -
    have ps: "fj_threads n w ms ! i = Begin # w i" "i < length (fj_threads n w ms)" using i by (auto simp: fj_threads_def nth_Cons split: nat.splits)
    then have "\<forall>d\<in>set (fj_threads n w ms ! i). literal d" using literal_body [OF assms(1)] by simp
    from fj_lines_reach [OF r ps(2) this] show ?thesis using ps(1) by simp
  qed
  then show "\<exists>rest. fj_output i (shared c) @ rest = fj_lines (w i)" if "0 < i \<and> i \<le> n" for i using that by blast
  assume st: "stuck (script (once fj_exec)) c"
  show fin: "all_fin (script (once fj_exec)) c" by (rule forked_stuck [OF detached_forked [OF assms(1)] assms(2) st])
  fix i assume i: "0 < i \<and> i \<le> n"
  then have "i < length (thr c)" using reach_ok(4) [OF r] by (simp add: fj_threads_def)
  then show "fj_output i (shared c) = fj_lines (w i)" using out [OF i] all_fin_nth [OF fin, of i] by simp
next
  show "\<exists>d. reach (step (script (once fj_exec))) (fj_start n w ms) d \<and> locs d ! 0 = [] \<and> fj_output n (shared d) = []"
    using assms(1) main_over_first [of n w ms buf] by blast
qed

text \<open>The threads of \<open>02_thread_args.c\<close>, which are all created before the first is joined, cannot deadlock either, so its lines are complete.\<close>

lemma sum_forked: "forked N (\<lambda>k. sum_worker (k - 1)) (sum_main N)"
proof -
  have "created S (map Spawn ks @ map Join ls) \<longleftrightarrow> set ls \<subseteq> S \<union> set ks" for S ks ls
  proof (induction ks arbitrary: S)
    case Nil
    show ?case by (induction ls) auto
  qed auto
  moreover have "spawns (map Spawn ks) = ks" "spawns (map Join ks) = []" for ks by (induction ks) auto
  ultimately show ?thesis by (auto simp: forked_def sum_main_def sum_worker_def)
qed

lemma thread_args_stuck: "reach (step (script (once fj_exec))) (sum_start N) c \<Longrightarrow> stuck (script (once fj_exec)) c \<Longrightarrow> all_fin (script (once fj_exec)) c"
  unfolding sum_start_def by (rule forked_stuck [OF sum_forked])

definition detached_demo :: "(nat \<times> choice) list \<times> (fj_state, fj_cmd list) cfg" where
  "detached_demo = drive (script (once fj_exec)) [0, 1] 20 (fj_start 1 (\<lambda>k. attr_worker 4096) attr_main)"

lemma detached_demo: "all_finb (script (once fj_exec)) (snd detached_demo)"
  by code_simp

theorem detached_runs_on_witness:
  "fj_output 1 (shared (snd detached_demo)) = [(''[worker] stack-allocated 256 KiB at'', [4096]), (''[worker] done'', [])]"
proof -
  have "(1, \<lambda>k. attr_worker 4096, attr_main) \<in> set (detached_basics 4096)" by (simp add: detached_basics_def)
  note T = detached_runs_on [OF this, of "snd detached_demo"]
  have "reach (step (script (once fj_exec))) (fj_start 1 (\<lambda>k. attr_worker 4096) attr_main) (snd detached_demo)"
    unfolding detached_demo_def by (rule drive_reach)
  then show ?thesis using T all_fin_stuck [OF iffD1 [OF all_finb detached_demo]] by (simp add: attr_worker_def)
qed

end
