(* ===== verification/ThreadIds.thy ===== *)
theory ThreadIds
  imports Progress
begin

text \<open>
  Thread identifiers as keys of a map: \<open>examples/02_cpp11_threads/01_basics/04_thread_id.cpp\<close>. What the identifiers are is
  up to the platform: \<open>ident\<close> is a parameter, of which the program needs that threads that have not been joined have different ones.
\<close>

subsection \<open>The map\<close>

text \<open>\<open>seen_count[id]++\<close>: the entry is created with 0 where there is none.\<close>

fun bump :: "nat \<Rightarrow> (nat \<times> int) list \<Rightarrow> (nat \<times> int) list" where
  "bump k [] = [(k, 1)]"
| "bump k ((k', n) # xs) = (if k = k' then (k', n + 1) # xs else (k', n) # bump k xs)"

definition count_of :: "(nat \<times> int) list \<Rightarrow> nat \<Rightarrow> int" where
  "count_of m k = (case map_of m k of None \<Rightarrow> 0 | Some n \<Rightarrow> n)"

definition id_keys :: "(nat \<times> int) list \<Rightarrow> nat set" where
  "id_keys m = set (map fst m)"

lemma keys_bump: "id_keys (bump k m) = insert k (id_keys m)" "distinct (map fst m) \<Longrightarrow> distinct (map fst (bump k m))"
  unfolding id_keys_def by (induction k m rule: bump.induct) auto

lemma count_bump: "count_of (bump k m) j = count_of m j + (if j = k then 1 else 0)"
  by (induction k m rule: bump.induct) (auto simp: count_of_def)

subsection \<open>The program\<close>

record id_state =
  id_seen :: "(nat \<times> int) list"
  id_lines :: "(nat \<times> nat \<times> nat) list"
  id_gone :: nat
  id_report :: "(nat \<times> (nat \<times> int) list) option"

datatype id_loc = IJoin | IReport | IExit | IIter nat | IGone

definition id_visit :: "(nat \<Rightarrow> nat) \<Rightarrow> nat \<Rightarrow> nat \<Rightarrow> id_state \<Rightarrow> id_state" where
  "id_visit ident i k s = s\<lparr>id_seen := bump (ident i) (id_seen s), id_lines := id_lines s @ [(i - 1, ident i, k)]\<rparr>"

text \<open>The body of the loop is one critical section of the mutex \<open>m\<close>; \<open>main\<close> is thread 0.\<close>

fun id_thread :: "(nat \<Rightarrow> nat) \<Rightarrow> nat \<Rightarrow> nat \<Rightarrow> nat \<Rightarrow> id_loc \<Rightarrow> (id_state, id_loc) stmt" where
  "id_thread ident N K i (IIter k) = (if k < K then Monitor 0 None (\<lambda>s. (id_visit ident i k s, IIter (Suc k), [], []))
     else Act (\<lambda>s. [(s\<lparr>id_gone := id_gone s + 1\<rparr>, IGone)]))"
| "id_thread ident N K i IGone = Fin"
| "id_thread ident N K i IJoin = Act (\<lambda>s. if id_gone s = N then [(s, IReport)] else [])"
| "id_thread ident N K i IReport = Act (\<lambda>s. [(s\<lparr>id_report := Some (length (id_seen s), id_seen s)\<rparr>, IExit)])"
| "id_thread ident N K i IExit = Fin"

definition id_init :: id_state where
  "id_init = \<lparr>id_seen = [], id_lines = [], id_gone = 0, id_report = None\<rparr>"

definition id_threads :: "nat \<Rightarrow> id_loc list" where
  "id_threads N = IJoin # replicate N (IIter 0)"

definition id_start :: "nat \<Rightarrow> (id_state, id_loc) cfg" where
  "id_start N = start id_init (id_threads N)"

definition id_main :: "(nat \<Rightarrow> nat) \<Rightarrow> nat \<Rightarrow> id_loc \<Rightarrow> (id_state, id_loc) stmt" where
  "id_main ident = id_thread ident 4 3"

subsection \<open>The invariant\<close>

fun visits :: "nat \<Rightarrow> id_loc \<Rightarrow> nat" where
  "visits K (IIter k) = k"
| "visits K l = K"

definition id_worker :: "(nat \<Rightarrow> nat) \<Rightarrow> nat \<Rightarrow> id_state \<Rightarrow> nat \<Rightarrow> id_loc \<Rightarrow> bool" where
  "id_worker ident K s i l \<longleftrightarrow> (l = IGone \<or> (\<exists>k\<le>K. l = IIter k)) \<and> count_of (id_seen s) (ident i) = int (visits K l) \<and>
     map (\<lambda>l. snd (snd l)) (filter (\<lambda>l. fst l = i - 1) (id_lines s)) = [0..<visits K l]"

definition gone :: "nat \<Rightarrow> id_loc list \<Rightarrow> nat set" where
  "gone N ls = {i\<in>{1..N}. ls ! i = IGone}"

definition visited :: "nat \<Rightarrow> nat \<Rightarrow> id_loc list \<Rightarrow> nat set" where
  "visited N K ls = {i\<in>{1..N}. 0 < visits K (ls ! i)}"

definition id_inv :: "(nat \<Rightarrow> nat) \<Rightarrow> nat \<Rightarrow> nat \<Rightarrow> id_state \<Rightarrow> id_loc list \<Rightarrow> bool" where
  "id_inv ident N K s ls \<longleftrightarrow> length ls = Suc N \<and> ls ! 0 \<in> {IJoin, IReport, IExit} \<and>
     (\<forall>i\<in>{1..N}. id_worker ident K s i (ls ! i)) \<and>
     distinct (map fst (id_seen s)) \<and> id_keys (id_seen s) = ident ` visited N K ls \<and> id_gone s = card (gone N ls) \<and>
     (ls ! 0 \<noteq> IJoin \<longrightarrow> id_gone s = N) \<and> (ls ! 0 = IExit \<longrightarrow> id_report s = Some (length (id_seen s), id_seen s))"

lemma all_gone:
  assumes "card (gone N ls) = N" "i \<in> {1..N}"
  shows "ls ! i = IGone"
proof -
  have "gone N ls = {1..N}" proof (rule card_subset_eq)
    show "gone N ls \<subseteq> {1..N}" by (auto simp: gone_def)
  qed (use assms(1) in simp_all)
  then show ?thesis using assms(2) unfolding gone_def by blast
qed

text \<open>While a worker is under way \<open>main\<close> waits.\<close>

lemma main_waits:
  assumes "id_inv ident N K s ls" "i \<in> {1..N}" "ls ! i \<noteq> IGone"
  shows "ls ! 0 = IJoin" "i < length ls" "0 < i"
proof -
  have "id_gone s = card (gone N ls)" "ls ! 0 \<noteq> IJoin \<longrightarrow> id_gone s = N" "length ls = Suc N" using assms(1) unfolding id_inv_def by blast+
  then show "ls ! 0 = IJoin" "i < length ls" "0 < i" using all_gone [OF _ assms(2)] assms(2,3) by auto
qed

lemma id_inv_visit:
  assumes inv: "id_inv ident N K s ls" and inj: "inj_on ident {1..N}" and i: "i \<in> {1..N}" "ls ! i = IIter k" "k < K"
  shows "id_inv ident N K (id_visit ident i k s) (ls[i := IIter (Suc k)])"
proof -
  let ?ls = "ls[i := IIter (Suc k)]" and ?s = "id_visit ident i k s"
  have main: "ls ! 0 = IJoin" "i < length ls" "0 < i" using main_waits [OF inv i(1)] i(2) by auto
  have I: "length ls = Suc N" "\<forall>i\<in>{1..N}. id_worker ident K s i (ls ! i)" "distinct (map fst (id_seen s))"
    "id_keys (id_seen s) = ident ` visited N K ls" "id_gone s = card (gone N ls)" using inv unfolding id_inv_def by blast+
  have sets: "gone N ?ls = gone N ls" "visited N K ?ls = insert i (visited N K ls)"
    using i main by (auto simp: gone_def visited_def nth_list_update)
  have s: "id_seen ?s = bump (ident i) (id_seen s)" "id_gone ?s = id_gone s" by (simp_all add: id_visit_def)
  have "id_worker ident K ?s j (?ls ! j)" if j: "j \<in> {1..N}" for j
  proof -
    have old: "id_worker ident K s j (ls ! j)" using I(2) j by blast
    show ?thesis
    proof (cases "j = i")
      case True
      then show ?thesis using old i main by (simp add: id_worker_def id_visit_def count_bump)
    next
      case False
      then have "ident j \<noteq> ident i" using inj_on_eq_iff [OF inj j i(1)] by simp
      moreover have "j - 1 \<noteq> i - 1" using False j i(1) by auto
      ultimately show ?thesis using old False by (simp add: id_worker_def id_visit_def count_bump)
    qed
  qed
  moreover have "id_keys (id_seen ?s) = ident ` visited N K ?ls" unfolding s keys_bump(1) sets I(4) by simp
  moreover have "distinct (map fst (id_seen ?s))" unfolding s using keys_bump(2) I(3) .
  moreover have "?ls ! 0 = IJoin" "length ?ls = Suc N" "id_gone ?s = card (gone N ?ls)" using main I(1,5) sets(1) s(2) by simp_all
  ultimately show ?thesis unfolding id_inv_def by simp
qed

lemma id_inv_gone:
  assumes inv: "id_inv ident N K s ls" and i: "i \<in> {1..N}" "ls ! i = IIter k" "\<not> k < K"
  shows "id_inv ident N K (s\<lparr>id_gone := id_gone s + 1\<rparr>) (ls[i := IGone])"
proof -
  let ?ls = "ls[i := IGone]" and ?s = "s\<lparr>id_gone := id_gone s + 1\<rparr>"
  have main: "ls ! 0 = IJoin" "i < length ls" "0 < i" using main_waits [OF inv i(1)] i(2) by auto
  have I: "length ls = Suc N" "\<forall>i\<in>{1..N}. id_worker ident K s i (ls ! i)" "distinct (map fst (id_seen s))"
    "id_keys (id_seen s) = ident ` visited N K ls" "id_gone s = card (gone N ls)" using inv unfolding id_inv_def by blast+
  have "id_worker ident K s i (ls ! i)" using I(2) i(1) by blast
  then have k: "k = K" using i by (auto simp: id_worker_def)
  have vis: "visits K (?ls ! j) = visits K (ls ! j)" for j using i k main by (cases "j = i") auto
  have "gone N ?ls = insert i (gone N ls)" "i \<notin> gone N ls" "finite (gone N ls)" using i main by (auto simp: gone_def nth_list_update)
  then have "card (gone N ?ls) = Suc (card (gone N ls))" by simp
  moreover have "visited N K ?ls = visited N K ls" by (simp add: visited_def vis)
  moreover have "id_worker ident K ?s j (?ls ! j)" if "j \<in> {1..N}" for j
  proof -
    have "id_worker ident K s j (ls ! j)" using I(2) that by blast
    then show ?thesis using k i(2) main by (cases "j = i") (simp_all add: id_worker_def)
  qed
  ultimately show ?thesis unfolding id_inv_def using I main by simp
qed

lemma id_inv_main:
  assumes inv: "id_inv ident N K s ls" and x: "(s', l') \<in> set (effects (id_thread ident N K 0 (ls ! 0)) s)"
  shows "id_inv ident N K s' (ls[0 := l'])"
proof -
  have I: "length ls = Suc N" "ls ! 0 \<in> {IJoin, IReport, IExit}" "\<forall>i\<in>{1..N}. id_worker ident K s i (ls ! i)" "distinct (map fst (id_seen s))"
    "id_keys (id_seen s) = ident ` visited N K ls" "id_gone s = card (gone N ls)" "ls ! 0 \<noteq> IJoin \<longrightarrow> id_gone s = N"
    using inv unfolding id_inv_def by blast+
  have "(ls[0 := l']) ! j = ls ! j" if "j \<in> {1..N}" for j using that by auto
  then have "gone N (ls[0 := l']) = gone N ls" "visited N K (ls[0 := l']) = visited N K ls" "\<forall>i\<in>{1..N}. id_worker ident K s i (ls[0 := l'] ! i)"
    using I(3) by (auto simp: gone_def visited_def)
  moreover have "id_worker ident K (s\<lparr>id_report := r\<rparr>) j l = id_worker ident K s j l" for j l r by (simp add: id_worker_def)
  ultimately show ?thesis using I x unfolding id_inv_def by (auto split: if_splits)
qed

lemma id_inv_step:
  assumes inv: "id_inv ident N K s ls" and inj: "inj_on ident {1..N}" and i: "i < length ls"
    and x: "(s', l') \<in> set (effects (id_thread ident N K i (ls ! i)) s)"
  shows "id_inv ident N K s' (ls[i := l'])"
proof (cases "i = 0")
  case True
  then show ?thesis using id_inv_main [OF inv] x by simp
next
  case False
  then have w: "i \<in> {1..N}" using inv i by (auto simp: id_inv_def)
  then have "id_worker ident K s i (ls ! i)" using inv by (simp add: id_inv_def)
  then consider "ls ! i = IGone" | k where "ls ! i = IIter k" by (auto simp: id_worker_def)
  then show ?thesis
  proof cases
    case 2
    then show ?thesis using x id_inv_visit [OF inv inj w, of k] id_inv_gone [OF inv w, of k] by (auto split: if_splits)
  qed (use x in simp)
qed

definition id_left :: "nat \<Rightarrow> id_loc \<Rightarrow> nat" where
  "id_left K l = (case l of IIter k \<Rightarrow> Suc (K - k) | IJoin \<Rightarrow> 2 | IReport \<Rightarrow> 1 | _ \<Rightarrow> 0)"

lemma id_client:
  assumes "inj_on ident {1..N}"
  shows "monitor_invariant (id_thread ident N K) id_init (id_threads N) (id_inv ident N K)"
proof unfold_locales
  have "id_threads N ! i = IIter 0" if "i \<in> {1..N}" for i using that by (auto simp: id_threads_def nth_Cons split: nat.splits)
  then have "gone N (id_threads N) = {}" "visited N K (id_threads N) = {}" "\<forall>i\<in>{1..N}. id_worker ident K id_init i (id_threads N ! i)"
    by (auto simp: gone_def visited_def id_worker_def id_init_def count_of_def)
  then show "id_inv ident N K id_init (id_threads N)"
    by (simp add: id_inv_def) (simp add: id_threads_def id_init_def id_keys_def)
qed (rule id_inv_step [OF _ assms])

lemma id_terminating:
  assumes "inj_on ident {1..N}"
  shows "terminating (id_thread ident N K) id_init (id_threads N) (id_inv ident N K) (\<lambda>s ls. sum_list (map (id_left K) ls)) 0"
proof (intro terminating.intro id_client [OF assms] terminating_axioms.intro)
  fix s ls i s' l' assume i: "i < length ls" and x: "(s', l') \<in> set (effects (id_thread ident N K i (ls ! i)) s)"
  obtain R where "sum_list (map (id_left K) ls) = R + id_left K (ls ! i)" "\<And>x. sum_list (map (id_left K) (ls[i := x])) = R + id_left K x"
    using sum_list_split [OF i] by blast
  moreover have "id_left K l' < id_left K (ls ! i)" using x by (cases "ls ! i") (auto simp: id_left_def split: if_splits)
  ultimately show "sum_list (map (id_left K) (ls[i := l'])) < sum_list (map (id_left K) ls)" by simp
next
  fix s ls i m w b s' l' pre post assume "id_thread ident N K i (ls ! i) = Monitor m w b" "b s = (s', l', pre, post)"
  then show "length pre + length post \<le> 0" by (cases "ls ! i") (auto split: if_splits)
qed

lemma id_stuck:
  assumes inj: "inj_on ident {1..N}" and r: "reach (step (id_thread ident N K)) (id_start N) c" and st: "stuck (id_thread ident N K) c"
  shows "all_fin (id_thread ident N K) c \<and> id_gone (shared c) = N \<and> (\<forall>i\<in>{1..N}. locs c ! i = IGone) \<and> locs c ! 0 = IExit"
proof -
  note r' = r [unfolded id_start_def]
  note ok = reach_ok [OF r']
  have inv: "id_inv ident N K (shared c) (locs c)" by (rule monitor_invariant.I_reach [OF id_client [OF inj] r'])
  have len: "length (thr c) = Suc N" using inv by (simp add: id_inv_def)
  have at: "thr c ! i = At (locs c ! i) \<and> (id_thread ident N K i (locs c ! i) = Fin \<or> effects (id_thread ident N K i (locs c ! i)) (shared c) = [])"
    if i: "i < Suc N" for i
  proof -
    from i len have "i < length (thr c)" by simp
    from st this ok(1,2) show ?thesis
    proof (cases rule: stuck_cases)
      case (asleep l m v p b)
      then show ?thesis by (cases l) (auto split: if_splits)
    qed (use i len in auto)
  qed
  have w: "locs c ! i = IGone" if i: "i \<in> {1..N}" for i
  proof -
    have "id_worker ident K (shared c) i (locs c ! i)" using inv i by (simp add: id_inv_def del: nth_locs)
    moreover have "id_thread ident N K i (locs c ! i) = Fin \<or> effects (id_thread ident N K i (locs c ! i)) (shared c) = []" using at [of i] i by auto
    ultimately show ?thesis by (auto simp: id_worker_def simp del: nth_locs split: if_splits)
  qed
  then have "gone N (locs c) = {1..N}" unfolding gone_def by blast
  then have g: "id_gone (shared c) = N" using inv by (simp add: id_inv_def)
  have m: "locs c ! 0 = IExit"
    using at [of 0] inv g unfolding id_inv_def by (auto simp del: nth_locs)
  have "thr c ! i = At (locs c ! i) \<and> id_thread ident N K i (locs c ! i) = Fin" if "i < Suc N" for i
    using at [OF that] w [of i] m that by (cases "i = 0") (auto simp del: nth_locs)
  then show ?thesis unfolding all_fin_def len using g w m by blast
qed

text \<open>the identifiers tell the threads apart. If threads that are not joined have different identifiers, then under every schedule the
  program ends after a bounded number of steps with one entry for each worker, which counts its \<open>K\<close> rounds, and
  each worker has printed its rounds in order.\<close>

theorem thread_ids_distinct:
  assumes "inj_on ident {1..N}" "run (step (id_thread ident N K)) (id_start N) es = Some c"
  shows "length es \<le> 4 * (2 + N * Suc K) + 2 * Suc N + 3 * spurs es \<and>
    (stuck (id_thread ident N K) c \<longrightarrow> all_fin (id_thread ident N K) c \<and>
      (\<forall>i\<in>{1..N}. map (\<lambda>l. snd (snd l)) (filter (\<lambda>l. fst l = i - 1) (id_lines (shared c))) = [0..<K]) \<and>
      (0 < K \<longrightarrow> (\<exists>m. id_report (shared c) = Some (N, m) \<and> id_keys m = ident ` {1..N} \<and> (\<forall>i\<in>{1..N}. count_of m (ident i) = int K))))"
proof (intro conjI impI)
  note T = id_terminating [OF assms(1), of K]
  show "length es \<le> 4 * (2 + N * Suc K) + 2 * Suc N + 3 * spurs es"
    using terminating.run_bounded [OF T assms(2) [unfolded id_start_def]] terminating.fee_def [OF T]
    by (simp add: id_threads_def id_left_def sum_list_replicate)
  assume st: "stuck (id_thread ident N K) c"
  note r = run_reach [OF assms(2)]
  note F = id_stuck [OF assms(1) r st]
  have inv: "id_inv ident N K (shared c) (locs c)"
    by (rule monitor_invariant.I_reach [OF id_client [OF assms(1)] r [unfolded id_start_def]])
  show "all_fin (id_thread ident N K) c" using F by blast
  have w: "id_worker ident K (shared c) i IGone" if "i \<in> {1..N}" for i using inv F that unfolding id_inv_def by metis
  then show "\<forall>i\<in>{1..N}. map (\<lambda>l. snd (snd l)) (filter (\<lambda>l. fst l = i - 1) (id_lines (shared c))) = [0..<K]"
    by (simp add: id_worker_def)
  assume K: "0 < K"
  then have "visited N K (locs c) = {1..N}" using F unfolding visited_def by (auto simp del: nth_locs)
  then have keys: "id_keys (id_seen (shared c)) = ident ` {1..N}" "distinct (map fst (id_seen (shared c)))"
    using inv unfolding id_inv_def by auto
  then have "length (id_seen (shared c)) = N"
    using distinct_card [OF keys(2)] card_image [OF assms(1)] by (simp add: id_keys_def)
  moreover have "id_report (shared c) = Some (length (id_seen (shared c)), id_seen (shared c))" using inv F unfolding id_inv_def by blast
  ultimately show "\<exists>m. id_report (shared c) = Some (N, m) \<and> id_keys m = ident ` {1..N} \<and> (\<forall>i\<in>{1..N}. count_of m (ident i) = int K)"
    using keys(1) w by (auto simp: id_worker_def)
qed

definition id_demo :: "(nat \<times> choice) list \<times> (id_state, id_loc) cfg" where
  "id_demo = drive (id_thread (\<lambda>i. 100 * i) 2 1) [2, 1, 0] 40 (id_start 2)"

lemma id_demo: "all_finb (id_thread (\<lambda>i. 100 * i) 2 1) (snd id_demo)"
  by code_simp

theorem thread_ids_distinct_witness: "\<exists>m. id_report (shared (snd id_demo)) = Some (2, m) \<and> count_of m 100 = 1 \<and> count_of m 200 = 1"
proof -
  have run: "run (step (id_thread (\<lambda>i. 100 * i) 2 1)) (id_start 2) (fst id_demo) = Some (snd id_demo)"
    unfolding id_demo_def by (rule drive_run) simp
  have "inj_on (\<lambda>i. 100 * i) {1..2 :: nat}" by (simp add: inj_on_def)
  from thread_ids_distinct [OF this run] all_fin_stuck [OF iffD1 [OF all_finb id_demo]]
  obtain m where "id_report (shared (snd id_demo)) = Some (2, m)" "\<forall>i\<in>{1..2}. count_of m (100 * i) = 1" by auto
  then show ?thesis by (auto dest: bspec [of _ _ 1] bspec [of _ _ 2])
qed

end
