(* ===== verification/FalseSharing.thy ===== *)
theory FalseSharing
  imports Scripts
begin

text \<open>
  Counters that are logically private but may lie on one cache line: \<open>examples/04_pitfalls/05_false_sharing.cpp\<close>. The program
  is modelled with the addresses that the layout of \<open>Bad\<close> and of \<open>Padded\<close> gives to the counters; the time that \<open>bench\<close>
  measures is not. Two writes compete for a line when their addresses have the same quotient by the length of a line.
\<close>

subsection \<open>The layout\<close>

text \<open>\<open>std::atomic<long>\<close> takes 8 bytes; \<open>CL\<close> is the length of a line, \<open>base\<close> the address of the object.\<close>

definition sizeof_counter :: nat where
  "sizeof_counter = 8"

definition sizeof_padded :: "nat \<Rightarrow> nat" where
  "sizeof_padded CL = sizeof_counter + (CL - sizeof_counter)"

definition bad_addr :: "nat \<Rightarrow> nat \<Rightarrow> nat" where
  "bad_addr base i = base + i * sizeof_counter"

definition padded_addr :: "nat \<Rightarrow> nat \<Rightarrow> nat \<Rightarrow> nat" where
  "padded_addr CL base i = base + i * sizeof_padded CL"

subsection \<open>The program\<close>

text \<open>\<open>fs_log\<close> records which thread has written to which address.\<close>

record fs_state =
  fs_mem :: "nat \<Rightarrow> int"
  fs_log :: "(nat \<times> nat) list"

datatype fs_cmd = FetchAdd nat

fun fs_exec :: "nat \<Rightarrow> fs_cmd \<Rightarrow> fs_state \<Rightarrow> fs_state list" where
  "fs_exec i (FetchAdd a) s = [s\<lparr>fs_mem := (fs_mem s)(a := fs_mem s a + 1), fs_log := fs_log s @ [(i, a)]\<rparr>]"

definition fs_bench :: "(nat \<Rightarrow> nat) \<Rightarrow> nat \<Rightarrow> nat \<Rightarrow> fs_cmd list list" where
  "fs_bench addr N ITERS = map (\<lambda>i. replicate ITERS (FetchAdd (addr i))) [0..<N]"

definition fs_start :: "(nat \<Rightarrow> nat) \<Rightarrow> nat \<Rightarrow> nat \<Rightarrow> (fs_state, fs_cmd list) cfg" where
  "fs_start addr N ITERS = start \<lparr>fs_mem = (\<lambda>_. 0), fs_log = []\<rparr> (fs_bench addr N ITERS)"

definition bad_bench :: "nat \<Rightarrow> (fs_state, fs_cmd list) cfg" where
  "bad_bench base = fs_start (bad_addr base) 4 50000000"

definition good_bench :: "nat \<Rightarrow> nat \<Rightarrow> (fs_state, fs_cmd list) cfg" where
  "good_bench CL base = fs_start (padded_addr CL base) 4 50000000"

subsection \<open>What the threads do\<close>

definition fs_inv :: "(nat \<Rightarrow> nat) \<Rightarrow> nat \<Rightarrow> nat \<Rightarrow> fs_state \<Rightarrow> fs_cmd list list \<Rightarrow> bool" where
  "fs_inv addr N ITERS s ls \<longleftrightarrow> length ls = N \<and> (\<forall>(i, a)\<in>set (fs_log s). i < N \<and> a = addr i) \<and>
     (\<forall>i<N. \<exists>k\<le>ITERS. ls ! i = replicate k (FetchAdd (addr i)) \<and> fs_mem s (addr i) = int (ITERS - k))"

lemma fs_step:
  assumes inv: "fs_inv addr N ITERS s ls" and inj: "inj_on addr {..<N}" and t: "t < length ls" "ls ! t = c # cs" and x: "s' \<in> set (fs_exec t c s)"
  shows "fs_inv addr N ITERS s' (ls[t := cs])"
proof -
  have len: "length ls = N" and log: "\<forall>(i, a)\<in>set (fs_log s). i < N \<and> a = addr i" using inv by (auto simp: fs_inv_def)
  obtain k where k: "k \<le> ITERS" "c # cs = replicate k (FetchAdd (addr t))" "fs_mem s (addr t) = int (ITERS - k)"
    using inv t len by (fastforce simp: fs_inv_def)
  then obtain j where j: "k = Suc j" "c = FetchAdd (addr t)" "cs = replicate j (FetchAdd (addr t))" by (cases k) auto
  have s': "s' = s\<lparr>fs_mem := (fs_mem s)(addr t := fs_mem s (addr t) + 1), fs_log := fs_log s @ [(t, addr t)]\<rparr>" using x j by simp
  have "\<exists>k\<le>ITERS. ls[t := cs] ! i = replicate k (FetchAdd (addr i)) \<and> fs_mem s' (addr i) = int (ITERS - k)" if i: "i < N" for i
  proof (cases "i = t")
    case True
    then show ?thesis using j k t s' by (intro exI [where x = j]) auto
  next
    case False
    then have "addr i \<noteq> addr t" using inj i t len by (auto simp: inj_on_def)
    moreover obtain k where "k \<le> ITERS" "ls ! i = replicate k (FetchAdd (addr i))" "fs_mem s (addr i) = int (ITERS - k)"
      using inv i unfolding fs_inv_def by blast
    ultimately show ?thesis using False s' by (intro exI [where x = k]) auto
  qed
  then show ?thesis using len log s' t by (auto simp: fs_inv_def)
qed

lemma fs_reach:
  assumes "inj_on addr {..<N}" "reach (step (script (once fs_exec))) (fs_start addr N ITERS) c"
  shows "fs_inv addr N ITERS (shared c) (locs c)"
proof -
  have "fs_inv addr N ITERS \<lparr>fs_mem = (\<lambda>_. 0), fs_log = []\<rparr> (fs_bench addr N ITERS)"
    by (auto simp: fs_inv_def fs_bench_def)
  then have "script_invariant (once fs_exec) \<lparr>fs_mem = (\<lambda>_. 0), fs_log = []\<rparr> (fs_bench addr N ITERS) (fs_inv addr N ITERS)"
    by unfold_locales (auto intro: fs_step [OF _ assms(1)])
  from script_invariant.script_reach [OF this assms(2) [unfolded fs_start_def]] show ?thesis .
qed

text \<open>Whatever the layout, the counters are exact.\<close>

lemma fs_exact:
  assumes inj: "inj_on addr {..<N}" and run: "run (step (script (once fs_exec))) (fs_start addr N ITERS) es = Some c"
  shows "length es \<le> 4 * (N * ITERS) + 2 * N + 3 * spurs es"
    "stuck (script (once fs_exec)) c \<Longrightarrow> all_fin (script (once fs_exec)) c \<and> (\<forall>i<N. fs_mem (shared c) (addr i) = int ITERS)"
proof -
  show "length es \<le> 4 * (N * ITERS) + 2 * N + 3 * spurs es"
    using once_bounded [OF run [unfolded fs_start_def]] by (simp add: fs_bench_def comp_def sum_list_triv)
  assume st: "stuck (script (once fs_exec)) c"
  note r = run_reach [OF run]
  note r' = r [unfolded fs_start_def]
  have inv: "fs_inv addr N ITERS (shared c) (locs c)" by (rule fs_reach [OF inj r])
  have nil: "locs c ! i = []" if i: "i < N" for i
  proof (rule ccontr)
    assume "locs c ! i \<noteq> []"
    then obtain d ds where "fs_exec i d (shared c) = []" using script_stuckD [OF r' st, of i] i by (auto simp: fs_bench_def simp del: nth_locs)
    then show False by (cases d) simp
  qed
  have "fs_mem (shared c) (addr i) = int ITERS" if i: "i < N" for i
    using inv nil [OF i] i unfolding fs_inv_def by (metis diff_zero length_0_conv length_replicate)
  moreover have "all_fin (script (once fs_exec)) c" using nil by (simp add: script_all_fin [OF r' st] fs_bench_def del: nth_locs)
  ultimately show "all_fin (script (once fs_exec)) c \<and> (\<forall>i<N. fs_mem (shared c) (addr i) = int ITERS)" by blast
qed

lemma bad_inj: "inj_on (bad_addr base) {..<N}"
  by (auto simp: inj_on_def bad_addr_def sizeof_counter_def)

lemma padded_inj: "inj_on (padded_addr CL base) {..<N}"
  by (auto simp: inj_on_def padded_addr_def sizeof_padded_def sizeof_counter_def)

lemma padded_line: "8 < CL \<Longrightarrow> CL dvd base \<Longrightarrow> padded_addr CL base i div CL = base div CL + i"
  by (auto simp: padded_addr_def sizeof_padded_def sizeof_counter_def)

lemma bad_line:
  assumes "CL dvd base" "8 * N \<le> CL" "i < N"
  shows "bad_addr base i div CL = base div CL"
proof -
  have "8 * i < CL" using assms by linarith
  then show ?thesis using assms(1) by (auto simp: bad_addr_def sizeof_counter_def)
qed

text \<open>padding removes false sharing and nothing else. With the padded layout no two threads ever write to the same cache line,
  and with the packed one, when its object starts a line and fits in it, all writes go to that line; in both the
  number of steps is bounded and every counter ends with \<open>ITERS\<close>.\<close>

theorem false_sharing_layouts:
  assumes "8 < CL" "CL dvd base"
    and "run (step (script (once fs_exec))) (fs_start (padded_addr CL base) N ITERS) es = Some c"
    and "8 * N \<le> CL" "run (step (script (once fs_exec))) (fs_start (bad_addr base) N ITERS) fs = Some d"
  shows "(\<forall>(i, a)\<in>set (fs_log (shared c)). \<forall>(j, b)\<in>set (fs_log (shared c)). i \<noteq> j \<longrightarrow> a div CL \<noteq> b div CL) \<and>
    (\<forall>(i, a)\<in>set (fs_log (shared d)). a div CL = base div CL) \<and>
    length es \<le> 4 * (N * ITERS) + 2 * N + 3 * spurs es \<and> length fs \<le> 4 * (N * ITERS) + 2 * N + 3 * spurs fs \<and>
    (stuck (script (once fs_exec)) c \<longrightarrow> (\<forall>i<N. fs_mem (shared c) (padded_addr CL base i) = int ITERS)) \<and>
    (stuck (script (once fs_exec)) d \<longrightarrow> (\<forall>i<N. fs_mem (shared d) (bad_addr base i) = int ITERS))"
proof (intro conjI)
  have "fs_inv (padded_addr CL base) N ITERS (shared c) (locs c)" by (rule fs_reach [OF padded_inj run_reach [OF assms(3)]])
  then have "a div CL = base div CL + i" if "(i, a) \<in> set (fs_log (shared c))" for i a
    using that padded_line [OF assms(1,2)] by (auto simp: fs_inv_def)
  then show "\<forall>(i, a)\<in>set (fs_log (shared c)). \<forall>(j, b)\<in>set (fs_log (shared c)). i \<noteq> j \<longrightarrow> a div CL \<noteq> b div CL" by auto
  have "fs_inv (bad_addr base) N ITERS (shared d) (locs d)" by (rule fs_reach [OF bad_inj run_reach [OF assms(5)]])
  then have "a div CL = base div CL" if "(i, a) \<in> set (fs_log (shared d))" for i a
    using that bad_line [OF assms(2,4)] by (auto simp: fs_inv_def)
  then show "\<forall>(i, a)\<in>set (fs_log (shared d)). a div CL = base div CL" by auto
qed (use fs_exact [OF padded_inj assms(3)] fs_exact [OF bad_inj assms(5)] in blast)+

definition fs_demo :: "(nat \<Rightarrow> nat) \<Rightarrow> (nat \<times> choice) list \<times> (fs_state, fs_cmd list) cfg" where
  "fs_demo addr = drive (script (once fs_exec)) [0, 1] 20 (fs_start addr 2 1)"

lemma fs_demo: "all_finb (script (once fs_exec)) (snd (fs_demo (padded_addr 64 128)))" "all_finb (script (once fs_exec)) (snd (fs_demo (bad_addr 128)))"
  by code_simp+

theorem false_sharing_layouts_witness:
  "fs_mem (shared (snd (fs_demo (padded_addr 64 128)))) (padded_addr 64 128 1) = 1 \<and> fs_mem (shared (snd (fs_demo (bad_addr 128)))) (bad_addr 128 1) = 1"
proof -
  have run: "run (step (script (once fs_exec))) (fs_start addr 2 1) (fst (fs_demo addr)) = Some (snd (fs_demo addr))" for addr
    unfolding fs_demo_def by (rule drive_run) simp
  from false_sharing_layouts [OF _ _ run _ run, of 64 128] all_fin_stuck [OF iffD1 [OF all_finb fs_demo(1)]] all_fin_stuck [OF iffD1 [OF all_finb fs_demo(2)]]
  show ?thesis by simp
qed

end
