(* ===== verification/Spec2Isabelle.thy ===== *)
theory Spec2Isabelle
  imports ProdCons BoundedMain Pipeline Pools Counters Locking MemoryModel RingBuffer
    LockFree WorkStealing RWLocks ReadersWriters Starvation TryLocks PollLock CondVars
    Once CompareExchange Futures Barriers OpenMP StopFlags ThreadLocal ForkJoin
    RecursiveLocks Snapshots Detached ThreadIds FalseSharing
begin

text \<open>
  A verification development for the example programs of the threading guide, the C and C++
  files under \<open>src/examples\<close>. The repository is a course: every file is a complete program that
  shows one primitive, one pattern or one mistake. The chapters (Markdown, figures,
  \<open>index.html\<close>) explain the programs; the programs are what is modelled here.

  \<^bold>\<open>Parts and how they interact.\<close> The primitives (mutex, condition variable, read-write lock,
  barrier, semaphore, future, atomic variable) come from POSIX, the C++ library and OpenMP; the
  programs build classes on them (bounded queues, pools, an active object, lock-free stacks, a
  fair read-write lock) and a \<open>main\<close> that starts threads, lets them work and joins them. The
  model has the same layers:

  \<^item> \<^bold>\<open>Prelude\<close>, \<^bold>\<open>Threads\<close>, \<^bold>\<open>Objects\<close>, \<^bold>\<open>Progress\<close>, \<^bold>\<open>Scripts\<close>: the machine. A program maps a thread's
    number and program point to the statement it executes there (\<open>Fin\<close>, \<open>Act\<close>, \<open>Monitor\<close>). \<open>Threads\<close> gives
    the step function with mutexes, condition variables, lost and spurious wake-ups; it shows
    mutual exclusion, that a critical section behaves as one atomic step (\<open>step_refines\<close>), what a state looks
    like in which nothing moves (\<open>stuck_cases\<close>) and when a single notification suffices. \<open>Objects\<close>: classes
    whose methods are monitors (\<open>meth\<close>, \<open>call\<close>). \<open>Progress\<close>: a potential of the atomic steps
    bounds all runs. \<open>Scripts\<close>: threads given as lists of commands.
  \<^item> \<^bold>\<open>Queues\<close>: the contract of a closable bounded FIFO queue (locales) and its implementations \<open>Queue\<close>
    (\<open>03_patterns/02\<close>), \<open>BoundedQueue\<close> (\<open>02_cpp11_threads/03_condition_variables/02\<close>) and \<open>BQ\<close> (\<open>03_patterns/06\<close>).
    Clients: \<^bold>\<open>ProdCons\<close> and \<^bold>\<open>BoundedMain\<close> (the two producer/consumer programs), \<^bold>\<open>Pipeline\<close> (three queues in a
    row) and \<^bold>\<open>RingBuffer\<close> (the C queue \<open>queue_t\<close> with its producers, consumers and their
    cancellation).
  \<^item> \<^bold>\<open>Pools\<close>: task queues served by workers: \<open>ThreadPool\<close> (\<open>03_patterns/01\<close>), \<open>TinyPool\<close>
    (\<open>05_futures/03_packaged_task.cpp\<close>), \<open>Account\<close> (\<open>03_patterns/05\<close>), one contract and one proof of a \<open>main\<close> that
    submits, waits for results and shuts down. \<^bold>\<open>WorkStealing\<close>: a deque per worker (\<open>03_patterns/07\<close>).
  \<^item> \<^bold>\<open>Counters\<close>: increments under a mutex, a spin lock, atomically, and with the data race of
    \<open>04_pitfalls/01\<close>. \<^bold>\<open>Locking\<close>: several mutexes: deadlock, its three cures, transfers, dining philosophers.
    \<^bold>\<open>RWLocks\<close>, \<^bold>\<open>ReadersWriters\<close>, \<^bold>\<open>Starvation\<close>: programs over read-write locks.
    \<^bold>\<open>RecursiveLocks\<close>: a mutex that its owner may lock again, and the self-deadlock of a normal one.
    \<^bold>\<open>FalseSharing\<close>: counters per thread and the cache lines they lie on. \<^bold>\<open>TryLocks\<close>: try-lock, timed lock and the livelock of \<open>04_pitfalls/03\<close>.
    \<^bold>\<open>PollLock\<close>: the timed lock that \<open>02_mutex/04_timed_lock.c\<close> builds from try-lock and a clock.
  \<^item> \<^bold>\<open>ForkJoin\<close>, \<^bold>\<open>Detached\<close>: creating, joining and detaching threads, their results and arguments (\<open>01_basics\<close>),
    and the OpenMP programs that only print. \<^bold>\<open>ThreadIds\<close>: identifiers as keys of a map. \<^bold>\<open>ThreadLocal\<close>: a buffer per
    thread, with its destructor. \<^bold>\<open>StopFlags\<close>: stopping a thread, by a flag, a stop token or cancellation.
  \<^item> \<^bold>\<open>CondVars\<close>: waiting for a flag, with and without a deadline, and the lost wake-up of \<open>04_pitfalls/07\<close>. \<^bold>\<open>Once\<close>: double-checked
    locking, function-local statics and \<open>call_once\<close>. \<^bold>\<open>Futures\<close>: \<open>async\<close>, \<open>promise\<close>,
    \<open>shared_future\<close> with their exceptions. \<^bold>\<open>Barriers\<close>: barriers, latch, semaphores.
  \<^item> \<^bold>\<open>OpenMP\<close>: work sharing, critical sections, reductions and tasks of \<open>06_openmp\<close>.
  \<^item> \<^bold>\<open>MemoryModel\<close>: the C++ memory orders as a machine of messages and views, with the litmus programs of
    \<open>05_memory_model\<close>. \<^bold>\<open>LockFree\<close>: the lock-free stacks and the ABA problem over an explicit heap.
    \<^bold>\<open>Snapshots\<close>: coherence of that machine, and immutable objects published through an atomic pointer, with any
    number of readers. \<^bold>\<open>CompareExchange\<close>: loops around a weak compare-exchange.

  \<^bold>\<open>Conventions.\<close> The shared variables of a program are a record, its threads lists of program points or
  of commands, and a run is a sequence of choices (which thread moves, which outcome the step
  has). Constants of a \<open>main\<close> (numbers of threads, rounds, capacities) are parameters of the theorems; the
  program itself is the definition whose name ends in \<open>_main\<close> or \<open>_main_prog\<close>, the instance with the
  numbers of the source. A method that locks, waits and works is one \<open>Monitor\<close>; everything
  between two synchronisation operations that touches only the thread's own data is part of the next step.
  Reads and writes of shared variables outside a lock are separate steps.

  \<^bold>\<open>What the lemmas show.\<close> Per component: an invariant that every step keeps (\<open>..._inv_step\<close>), what it
  says when nothing can move any more (\<open>..._stuck_fin\<close>: every thread has returned, which is
  the absence of deadlock), the result the program then has, and where the number of steps is bounded, the
  bound. Absence of deadlock and a bound on all runs together say that the program ends with that
  result under every schedule; most properties of whole programs therefore state both of a run: its length is at most
  the bound, and when it cannot be continued the threads have returned and the result is there. Where no such bound exists (spinning, back-off, retrying a
  compare-exchange) the theorems say that from every reachable state the program can still end.
  Classes are related to abstract specifications: the ring buffer to a list, the lock-free stacks to
  an atomic stack, the active object to a sequential account, the three benchmark variants to one another.

  \<^bold>\<open>Bounds and fuel.\<close> No definition uses fuel: the machine is a step function and runs are
  inductive. The bound (\<open>..._bounded\<close>) of a program is computed from its parameters and from the number of
  spurious wake-ups in the run. Witnesses run the definitions on small instances with an explicit schedule.

  \<^bold>\<open>Integers.\<close> \<open>int\<close> of the sources is a 32-bit word where a program can reach its limits (\<open>Futures\<close>,
  \<open>WorkStealing\<close>); counters that stay far below it are unbounded.

  \<^bold>\<open>Not modelled.\<close> Time: sleeping is a step without effect or left out, a timeout may happen whenever
  the awaited event has not (but \<open>PollLock\<close> takes the readings of the clock as a parameter, with what the
  system promises of them as the hypothesis \<open>clock_ok\<close>). The fallbacks for macOS, the polled timed lock excepted. Measurements of speed (the timing in the benchmarks
  and in \<open>05_false_sharing.cpp\<close>). Printing is a list of lines where its order matters
  and is otherwise left out. Failures of thread creation. The Markdown, HTML, figures, Makefiles
  and \<open>scripts/gen_figures.py\<close> contain no threaded program.
\<close>

end
